(* ===== verification/Base.thy ===== *)
theory Base
  imports Main "HOL-Library.Word" "HOL-Library.Monad_Syntax"
begin

text \<open>
  The prelude of the development: the C integer operators the programs use, on 32-bit words
  (the Makefiles compile with \<open>-m32\<close>), and the collections of simplification rules the
  component theories share. C's \<open>int\<close> and \<open>unsigned\<close> are both \<open>32 word\<close>; the signed
  reading of a word is \<open>sint\<close>, the unsigned one \<open>unat\<close> or \<open>uint\<close>. Arithmetic
  wraps, as the two's complement machine of the coding rules in
  \<open>datalab-handout/bits.c\<close> does.
\<close>

unbundle bit_operations_syntax

named_theorems c_ops \<open>definitions of the C operators\<close>
named_theorems bits_defs \<open>definitions of the bit puzzles\<close>

type_synonym c_int = "32 word"
type_synonym c_uint = "32 word"

subsection \<open>C operators\<close>

text \<open>The logical operators of C yield the integers 0 and 1.\<close>

definition c_not :: "c_int \<Rightarrow> c_int" where
  "c_not x = (if x = 0 then 1 else 0)"

definition c_bool :: "bool \<Rightarrow> c_int" where
  "c_bool b = (if b then 1 else 0)"

text \<open>
  Shifts take their count from an \<open>int\<close>. A count outside \<open>0..31\<close> is undefined in C; the
  theorems about functions that shift by an argument assume it away, as the comments of the
  source do.
\<close>

definition c_shl :: "c_int \<Rightarrow> c_int \<Rightarrow> c_int" where
  "c_shl x n = push_bit (unat n) x"

text \<open>\<open>>>\<close> on an \<open>int\<close> is the arithmetic shift, on an \<open>unsigned\<close> the logical one.\<close>

definition c_sar :: "c_int \<Rightarrow> c_int \<Rightarrow> c_int" where
  "c_sar x n = signed_drop_bit (unat n) x"

definition c_shr :: "c_uint \<Rightarrow> c_int \<Rightarrow> c_uint" where
  "c_shr x n = drop_bit (unat n) x"

declare c_not_def [c_ops] c_bool_def [c_ops] c_shl_def [c_ops] c_sar_def [c_ops] c_shr_def [c_ops]

subsection \<open>Facts about the operators\<close>

lemma c_not_bool [simp]: "c_not (c_bool b) = c_bool (\<not> b)"
  by (simp add: c_ops)

lemma c_bool_eq_0 [simp]: "c_bool b = 0 \<longleftrightarrow> \<not> b"
  by (simp add: c_ops)

lemma c_bool_eq_1 [simp]: "c_bool b = 1 \<longleftrightarrow> b"
  by (simp add: c_ops)

lemma c_not_eq: "c_not x = c_bool (x = 0)"
  by (simp add: c_ops)

lemma bit31_iff: "bit (x :: c_int) 31 \<longleftrightarrow> sint x < 0"
  using bit_last_iff [of x] by simp

lemma sar31: "signed_drop_bit 31 (x :: c_int) = (if sint x < 0 then - 1 else 0)"
  by (rule bit_word_eqI) (case_tac n; simp add: bit_signed_drop_bit_iff bit31_iff)

lemma sint32_bounds: "- 2147483648 \<le> sint (x :: c_int) \<and> sint x < 2147483648"
  using sint_ge [of x] sint_lt [of x] by simp

lemma unat32_less: "unat (x :: c_int) < 4294967296"
  using unsigned_less [where 'b = 32 and 'a = nat, of x] by simp

lemma uint32_less: "uint (x :: c_int) < 4294967296"
  using uint_bounded [of x] by simp

lemma sint32_eq: "sint (x :: c_int) = uint x - 4294967296 * of_bool (sint x < 0)"
proof -
  have "sint x = take_bit 32 (uint x) - 2 ^ 32 * of_bool (bit (uint x) 31)"
    using sint_uint [of x] signed_take_bit_eq_take_bit_minus [of 31 "uint x"] by simp
  moreover have "take_bit 32 (uint x) = uint x"
    using uint32_less [of x] by (simp add: take_bit_int_eq_self)
  moreover have "bit (uint x) 31 \<longleftrightarrow> sint x < 0"
    using bit31_iff [of x] by (simp add: bit_uint_iff)
  ultimately show ?thesis by simp
qed

lemma sint_neg_iff: "sint (x :: c_int) < 0 \<longleftrightarrow> 2147483648 \<le> uint x"
proof -
  have "sint x < 0 \<Longrightarrow> 2147483648 \<le> uint x"
    using sint32_eq [of x] sint32_bounds [of x] by simp
  moreover have "\<not> sint x < 0 \<Longrightarrow> uint x < 2147483648"
    using sint32_eq [of x] sint32_bounds [of x] by simp
  ultimately show ?thesis by linarith
qed

subsection \<open>Signed values, shifts and single bits\<close>

lemma sint_word_of_int32: "- 2147483648 \<le> i \<Longrightarrow> i < 2147483648 \<Longrightarrow> sint (word_of_int i :: c_int) = i"
  by (simp add: sint_sbintrunc' signed_take_bit_int_eq_self)

lemma word_of_int_sint32: "word_of_int (sint (x::c_int)) = x"
  by (simp flip: scast_eq)

lemma sint_eq_iff: "x = y \<longleftrightarrow> sint (x::c_int) = sint y"
  by (auto simp: signed_word_eqI)

lemma unat_dec: "1 \<le> unat (n::c_int) \<Longrightarrow> unat (n - 1) = unat n - 1"
  by unat_arith

lemma shl_1: "push_bit k (1 :: c_int) = word_of_int (2 ^ k)"
  by (simp add: push_bit_of_1)

lemma div_pow_eq_0: "(a::int) div 2 ^ k = 0 \<longleftrightarrow> 0 \<le> a \<and> a < 2 ^ k"
proof -
  have "0 < (2::int) ^ k" by simp
  then show ?thesis unfolding zdiv_eq_0_iff by linarith
qed

lemma div_pow_eq_m1: "(a::int) div 2 ^ k = - 1 \<longleftrightarrow> a < 0 \<and> - (2 ^ k) \<le> a"
proof -
  have "(a + 2 ^ k) div 2 ^ k = a div 2 ^ k + 1"
    using div_add_self2 [of "2 ^ k" a] by simp
  then show ?thesis
    using div_pow_eq_0 [of "a + 2 ^ k" k] by linarith
qed

lemma sar_eq_0: "signed_drop_bit k (x::c_int) = 0 \<longleftrightarrow> 0 \<le> sint x \<and> sint x < 2 ^ k"
  by (simp add: sint_eq_iff [of _ 0] sint_signed_drop_bit_eq drop_bit_eq_div div_pow_eq_0)

lemma sar_eq_m1: "signed_drop_bit k (x::c_int) + 1 = 0 \<longleftrightarrow> sint x < 0 \<and> - (2 ^ k) \<le> sint x"
proof -
  have "signed_drop_bit k x + 1 = 0 \<longleftrightarrow> signed_drop_bit k x = -1"
    by (metis add.commute add.right_inverse add_left_cancel)
  also have "\<dots> \<longleftrightarrow> sint x div 2 ^ k = -1"
    by (simp add: sint_eq_iff [of _ "-1"] sint_signed_drop_bit_eq drop_bit_eq_div)
  finally show ?thesis by (simp add: div_pow_eq_m1)
qed

lemma take_bit_sint: "k \<le> 32 \<Longrightarrow> take_bit k (x::c_int) = 0 \<longleftrightarrow> sint x mod 2 ^ k = 0"
proof -
  assume k: "k \<le> 32"
  have "uint (take_bit k x) = take_bit k (uint x)"
    by (rule unsigned_take_bit_eq)
  also have "\<dots> = take_bit k (take_bit 32 (sint x))"
    using uint_sint [of x] by simp
  also have "\<dots> = take_bit k (sint x)" using k by (simp add: min_absorb1)
  finally show ?thesis by (simp add: take_bit_eq_mod uint_0_iff [symmetric])
qed

lemma sar_nonneg: "\<not> sint x < 0 \<Longrightarrow> signed_drop_bit n (x::c_int) = drop_bit n x"
proof (rule bit_word_eqI)
  fix m assume a: "\<not> sint x < 0"
  have "bit x (n + m) \<Longrightarrow> n + m < 32" by (drule bit_imp_le_length) simp
  then show "bit (signed_drop_bit n x) m = bit (drop_bit n x) m"
    using a bit31_iff [of x] bit_imp_le_length [of x m]
    by (cases "n + m < 32") (auto simp: bit_signed_drop_bit_iff bit_drop_bit_eq)
qed

lemma unat_shr: "unat (drop_bit k (x::c_int)) = unat x div 2 ^ k"
  by (metis unat_drop_bit_eq drop_bit_eq_div)

lemma sint_neg_unat: "sint (x::c_int) < 0 \<longleftrightarrow> 2147483648 \<le> unat x"
  using sint_neg_iff [of x] uint_nat [of x] by linarith

lemma and_1_eq: "(y::c_int) AND 1 = of_bool (bit y 0)"
  by (rule bit_word_eqI) (auto simp: bit_simps)

end
