(* ===== verification/Bits.thy ===== *)
theory Bits
  imports Base
begin

text \<open>
  The integer puzzles of \<open>datalab-handout/bits.c\<close>, one definition per function with the
  operators of the source, the reference functions of \<open>datalab-handout/tests.c\<close> that
  \<open>btest\<close> compares them with, and the theorems that every puzzle returns what its
  reference returns, on every input of the range \<open>decl.c\<close> states for it.
\<close>

subsection \<open>The solutions (bits.c)\<close>

definition bitAnd :: "c_int \<Rightarrow> c_int \<Rightarrow> c_int" where
  "bitAnd x y = NOT ((NOT x) OR (NOT y))"

definition getByte :: "c_int \<Rightarrow> c_int \<Rightarrow> c_int" where
  "getByte x n = (c_sar x (c_shl n 3)) AND 0xFF"

definition logicalShift :: "c_int \<Rightarrow> c_int \<Rightarrow> c_int" where
  "logicalShift x n =
    (let t = (c_sar x 31) AND 1;
         x = x XOR (c_shl t 31);
         x = c_sar x n;
         x = x XOR (c_shl t (32 + (NOT n)))
     in x)"

definition bitCount :: "c_int \<Rightarrow> c_int" where
  "bitCount x =
    (let ob = 0x55 OR (c_shl 0x55 8);
         m = ob OR (c_shl ob 16);
         x = (x AND m) + ((c_sar x 1) AND m);
         ob = 0x33 OR (c_shl 0x33 8);
         m = ob OR (c_shl ob 16);
         x = (x AND m) + ((c_sar x 2) AND m);
         ob = 0x0F OR (c_shl 0x0F 8);
         m = ob OR (c_shl ob 16);
         x = (x AND m) + ((c_sar x 4) AND m);
         m = 0xFF OR (c_shl 0xFF 16);
         x = (x AND m) + ((c_sar x 8) AND m);
         m = 0xFF OR (c_shl 0xFF 8);
         x = (x AND m) + ((c_sar x 16) AND m)
     in x)"

definition bang :: "c_int \<Rightarrow> c_int" where
  "bang x =
    (let x = NOT x;
         x = x AND (c_sar x 16);
         x = x AND (c_sar x 8);
         x = x AND (c_sar x 4);
         x = x AND (c_sar x 2);
         x = x AND (c_sar x 1)
     in x AND 1)"

definition tmin :: c_int where
  "tmin = c_shl 1 31"

definition fitsBits :: "c_int \<Rightarrow> c_int \<Rightarrow> c_int" where
  "fitsBits x n =
    (let x = c_sar x (n + (NOT 0))
     in (c_not x) OR (c_not (x + 1)))"

definition divpwr2 :: "c_int \<Rightarrow> c_int \<Rightarrow> c_int" where
  "divpwr2 x n =
    (let rb = x AND ((c_shl 1 n) + (NOT 0))
     in (c_sar x n) + ((c_sar x 31) AND (1 XOR (c_not rb))))"

definition negate :: "c_int \<Rightarrow> c_int" where
  "negate x = (NOT x) + 1"

definition isPositive :: "c_int \<Rightarrow> c_int" where
  "isPositive x = ((c_sar x 31) + 1) XOR (c_not x)"

definition isLessOrEqual :: "c_int \<Rightarrow> c_int \<Rightarrow> c_int" where
  "isLessOrEqual x y =
    (let ps = ((c_sar x 31) AND 1) AND ((c_sar y 31) + 1);
         ns = ((c_sar x 31) + 1) AND ((c_sar y 31) AND 1);
         ss = (c_sar ((NOT x) + y + 1) 31) + 1
     in (ps OR ss) AND (1 XOR ns))"

definition ilog2 :: "c_int \<Rightarrow> c_int" where
  "ilog2 x =
    (let c = 0;
         r = ((c_not (c_sar x 16)) + (NOT 0)) AND 16; c = c + r; x = c_sar x r;
         r = ((c_not (c_sar x 8)) + (NOT 0)) AND 8; c = c + r; x = c_sar x r;
         r = ((c_not (c_sar x 4)) + (NOT 0)) AND 4; c = c + r; x = c_sar x r;
         r = ((c_not (c_sar x 2)) + (NOT 0)) AND 2; c = c + r; x = c_sar x r;
         r = ((c_not (c_sar x 1)) + (NOT 0)) AND 1; c = c + r; x = c_sar x r
     in c)"

subsection \<open>The references (tests.c)\<close>

text \<open>
  The relational and arithmetic operators of the references read their operands as signed
  numbers; a result is wrapped back to 32 bits. \<open>/\<close> truncates towards zero.
\<close>

definition test_bitAnd :: "c_int \<Rightarrow> c_int \<Rightarrow> c_int" where
  "test_bitAnd x y = x AND y"

definition test_getByte :: "c_int \<Rightarrow> c_int \<Rightarrow> c_int" where
  "test_getByte x n =
    (let byte = (if n = 0 then ucast x
                 else if n = 1 then ucast (c_sar x 8)
                 else if n = 2 then ucast (c_sar x 16)
                 else ucast (c_sar x 24)) :: 8 word
     in ucast byte)"

definition test_logicalShift :: "c_int \<Rightarrow> c_int \<Rightarrow> c_int" where
  "test_logicalShift x n = (let u = x; shifted = c_shr u n in shifted)"

fun test_bitCount_loop :: "c_int \<Rightarrow> nat \<Rightarrow> nat \<Rightarrow> c_int \<Rightarrow> c_int" where
  "test_bitCount_loop x i 0 result = result"
| "test_bitCount_loop x i (Suc k) result =
     test_bitCount_loop x (Suc i) k (result + ((signed_drop_bit i x) AND 1))"

definition test_bitCount :: "c_int \<Rightarrow> c_int" where
  "test_bitCount x = test_bitCount_loop x 0 32 0"

definition test_bang :: "c_int \<Rightarrow> c_int" where
  "test_bang x = c_not x"

definition test_tmin :: c_int where
  "test_tmin = 0x80000000"

definition test_fitsBits :: "c_int \<Rightarrow> c_int \<Rightarrow> c_int" where
  "test_fitsBits x n =
    (let TMin_n = - (c_shl 1 (n - 1));
         TMax_n = (c_shl 1 (n - 1)) - 1
     in c_bool (TMin_n \<le>s x \<and> x \<le>s TMax_n))"

definition c_div :: "int \<Rightarrow> int \<Rightarrow> int" where
  "c_div a b = (if (a < 0) = (b < 0) then \<bar>a\<bar> div \<bar>b\<bar> else - (\<bar>a\<bar> div \<bar>b\<bar>))"

definition test_divpwr2 :: "c_int \<Rightarrow> c_int \<Rightarrow> c_int" where
  "test_divpwr2 x n =
    (let p2n = c_shl 1 n in word_of_int (c_div (sint x) (sint p2n)))"

definition test_negate :: "c_int \<Rightarrow> c_int" where
  "test_negate x = - x"

definition test_isPositive :: "c_int \<Rightarrow> c_int" where
  "test_isPositive x = c_bool (0 <s x)"

definition test_isLessOrEqual :: "c_int \<Rightarrow> c_int \<Rightarrow> c_int" where
  "test_isLessOrEqual x y = c_bool (x \<le>s y)"

text \<open>
  \<open>test_ilog2\<close> decrements \<open>result\<close> from 31 while the bit is clear; it does not return
  on 0, where the loop would run past the bits of the word (\<open>None\<close>).
\<close>

fun test_ilog2_loop :: "c_int \<Rightarrow> nat \<Rightarrow> c_int option" where
  "test_ilog2_loop x 0 = (if x AND 1 = 0 then None else Some 0)"
| "test_ilog2_loop x (Suc r) =
    (if x AND (push_bit (Suc r) 1) = 0 then test_ilog2_loop x r else Some (of_nat (Suc r)))"

definition test_ilog2 :: "c_int \<Rightarrow> c_int option" where
  "test_ilog2 x = test_ilog2_loop x 31"

subsection \<open>Bit-level facts\<close>

lemma bit_msb_int: "bit (2147483648 :: int) m \<longleftrightarrow> m = 31"
  using bit_exp_iff [where 'a = int, of 31 m] by simp

lemma unat_less_4: "unat (n::c_int) < 4 \<Longrightarrow> n = 0 \<or> n = 1 \<or> n = 2 \<or> n = 3"
  by unat_arith

lemma unat_31_minus: "unat (n::c_int) < 32 \<Longrightarrow> unat (32 + NOT n) = 31 - unat n"
  by (simp add: not_eq_complement) unat_arith

lemma and_255: "(x::c_int) AND 255 = take_bit 8 x"
  using take_bit_eq_mask [of 8 x] by (simp add: mask_eq_exp_minus_1)

lemma word32_zero_iff: "(x::c_int) = 0 \<longleftrightarrow> (\<forall>i\<in>set [0..<32]. \<not> bit x i)"
  by (auto simp: bit_eq_iff bit_simps dest: bit_imp_le_length)

subsection \<open>Each solution against its reference\<close>

lemma bitAnd_eq: "bitAnd x y = test_bitAnd x y"
  by (simp add: bitAnd_def test_bitAnd_def)

lemma getByte_eq: "unat n < 4 \<Longrightarrow> getByte x n = test_getByte x n"
  by (drule unat_less_4)
    (auto simp: getByte_def test_getByte_def c_ops Let_def and_255 bit_simps intro!: bit_word_eqI)

lemma bit_xor_msb: "bit ((x::c_int) XOR 0x80000000) i \<longleftrightarrow> (if i = 31 then \<not> bit x 31 else bit x i)"
  by (auto simp: bit_xor_iff bit_msb_int)

lemma logicalShift_eq: "unat n < 32 \<Longrightarrow> logicalShift x n = test_logicalShift x n"
proof (cases "sint x < 0")
  case False
  then show ?thesis
    by (simp add: logicalShift_def test_logicalShift_def c_ops Let_def sar31 sar_nonneg)
next
  case True
  assume n: "unat n < 32"
  define y where "y = x XOR 0x80000000"
  have y: "bit y i \<longleftrightarrow> (if i = 31 then \<not> bit x 31 else bit x i)" for i
    by (simp only: y_def bit_xor_msb)
  have "signed_drop_bit (unat n) y = drop_bit (unat n) y"
    using True y [of 31] by (intro sar_nonneg) (simp add: bit31_iff)
  then have "logicalShift x n = drop_bit (unat n) y XOR push_bit (31 - unat n) 1"
    using True n by (simp add: logicalShift_def c_ops Let_def sar31 unat_31_minus y_def)
  also have "\<dots> = drop_bit (unat n) x"
  proof (rule bit_word_eqI)
    fix i assume i: "i < LENGTH(32)"
    have "unat n + i = 31 \<longleftrightarrow> i = 31 - unat n" using n by linarith
    moreover have "bit (push_bit (31 - unat n) 1 :: c_int) i \<longleftrightarrow> i = 31 - unat n"
      using i by (simp add: bit_exp_iff)
    ultimately show "bit (drop_bit (unat n) y XOR push_bit (31 - unat n) 1) i = bit (drop_bit (unat n) x) i"
      using True y [of "unat n + i"] by (auto simp: bit_xor_iff bit_drop_bit_eq bit31_iff)
  qed
  finally show ?thesis by (simp add: test_logicalShift_def c_ops Let_def)
qed

lemma bang_bits: "bang x = of_bool (\<forall>i\<in>set [0..<32]. \<not> bit x i)"
  by (simp add: bang_def c_sar_def Let_def and_1_eq bit_and_iff bit_not_iff bit_signed_drop_bit_iff
      upt_rec flip: bit_0)
    (simp add: eval_nat_numeral flip: bit_0)

lemma bang_eq: "bang x = test_bang x"
  by (simp add: bang_bits test_bang_def c_ops word32_zero_iff)

lemma tmin_eq: "tmin = test_tmin"
  by (simp add: tmin_def test_tmin_def c_ops)

lemma negate_eq: "negate x = test_negate x"
  by (simp add: negate_def test_negate_def minus_eq_not_plus_1)

lemma isPositive_eq: "isPositive x = test_isPositive x"
  by (cases "x = 0")
    (auto simp: isPositive_def test_isPositive_def c_ops sar31 word_sless_alt sint_eq_iff [of x 0])

lemma isLessOrEqual_eq: "isLessOrEqual x y = test_isLessOrEqual x y"
proof -
  have e: "NOT x + y + 1 = y - x" by (simp add: not_eq_complement)
  have d: "sint (y - x) = sint y - sint x" if "(sint x < 0) = (sint y < 0)"
    using that sint32_bounds [of x] sint32_bounds [of y]
      sint_word_of_int32 [of "sint y - sint x"] by (auto simp: word_of_int_sint32)
  show ?thesis using d
    by (cases "sint x < 0"; cases "sint y < 0")
      (auto simp: isLessOrEqual_def test_isLessOrEqual_def Let_def c_sar_def c_bool_def sar31 e word_sle_eq)
qed

lemma fitsBits_eq: "1 \<le> unat n \<Longrightarrow> unat n \<le> 32 \<Longrightarrow> fitsBits x n = test_fitsBits x n"
proof -
  assume n: "1 \<le> unat n" "unat n \<le> 32"
  define k where "k = unat n - 1"
  have k: "k \<le> 31" "unat (n - 1) = k" "unat (n + NOT 0) = k"
    using n unat_dec [of n] by (simp_all add: k_def)
  have p: "(2::int) ^ k \<le> 2147483648" "0 < (2::int) ^ k"  using k(1) power_increasing [of k 31 "2::int"] by simp_all
  have mi: "sint (- (push_bit k (1::c_int))) = - (2 ^ k)"
    using sint_word_of_int32 [of "- (2 ^ k)", OF _ less_trans [of _ 0]] p by (simp add: shl_1)
  have ma: "sint (push_bit k (1::c_int) - 1) = 2 ^ k - 1"
    using sint_word_of_int32 [of "2 ^ k - 1", OF order_trans [of _ 0]] p by (simp add: shl_1)
  show ?thesis
    using k mi ma by (auto simp: fitsBits_def test_fitsBits_def Let_def c_sar_def c_shl_def c_not_def c_bool_def sar_eq_0 sar_eq_m1 word_sle_eq)
qed

lemma c_div_pos: "0 < b \<Longrightarrow> c_div a b = a div b + (if a < 0 \<and> a mod b \<noteq> 0 then 1 else 0)"
  by (auto simp: c_div_def zdiv_zminus1_eq_if)

lemma divpwr2_eq: "unat n \<le> 30 \<Longrightarrow> divpwr2 x n = test_divpwr2 x n"
proof -
  assume n: "unat n \<le> 30"
  define k where "k = unat n"
  have k: "k \<le> 30" using n by (simp add: k_def)
  have p: "0 < (2::int) ^ k" "(2::int) ^ k < 2147483648" using k power_strict_increasing [of k 31 "2::int"] by simp_all
  have s: "sint (push_bit k (1::c_int)) = 2 ^ k"
    using sint_word_of_int32 [of "2 ^ k", OF order_trans [of _ 0]] p by (simp add: shl_1)
  have sh: "signed_drop_bit k x = word_of_int (sint x div 2 ^ k)"
    by (metis sint_signed_drop_bit_eq drop_bit_eq_div word_of_int_sint32)
  have "divpwr2 x n = word_of_int (sint x div 2 ^ k + (if sint x < 0 \<and> sint x mod 2 ^ k \<noteq> 0 then 1 else 0))"
    using k take_bit_sint [of k x]
    by (simp add: divpwr2_def Let_def c_sar_def c_shl_def c_not_def k_def [symmetric] sar31 sh
        take_bit_eq_mask mask_eq_exp_minus_1)
  then show ?thesis
    using c_div_pos [OF p(1), of "sint x"] s
    by (simp add: test_divpwr2_def c_shl_def k_def [symmetric] split: if_splits)
qed

subsection \<open>ilog2: five halving stages\<close>

definition ilog2_stage :: "c_int \<Rightarrow> c_int \<times> c_int \<Rightarrow> c_int \<times> c_int" where
  "ilog2_stage w = (\<lambda>(c, x). let r = ((c_not (c_sar x w)) + (NOT 0)) AND w in (c + r, c_sar x r))"

lemma ilog2_stages:
  "ilog2 x = fst (ilog2_stage 1 (ilog2_stage 2 (ilog2_stage 4 (ilog2_stage 8 (ilog2_stage 16 (0, x))))))"
  by (simp add: ilog2_def ilog2_stage_def Let_def)

definition ilog2_inv :: "nat \<Rightarrow> c_int \<Rightarrow> c_int \<times> c_int \<Rightarrow> bool" where
  "ilog2_inv j x0 = (\<lambda>(c, x). unat x = unat x0 div 2 ^ unat c \<and> 0 < unat x \<and> unat x < 2 ^ j \<and>
     unat x < 2147483648 \<and> unat c + j \<le> 32)"

lemma ilog2_stage_eq:
  assumes "unat x < 2147483648" "unat w = k"
  shows "ilog2_stage w (c, x) = (if unat x < 2 ^ k then (c, x) else (c + w, drop_bit k x))"
proof -
  have "drop_bit k x = 0 \<longleftrightarrow> unat x < 2 ^ k"
    by (simp add: unat_eq_0 [symmetric] unat_shr div_eq_0_iff)
  then show ?thesis
    using assms by (auto simp: ilog2_stage_def Let_def c_sar_def c_not_def sar_nonneg sint_neg_unat)
qed

lemma ilog2_stage_inv:
  assumes "ilog2_inv (2 * k) x0 p" "unat w = k" "k \<le> 16"
  shows "ilog2_inv k x0 (ilog2_stage w p)"
proof -
  obtain c x where p: "p = (c, x)" by (cases p)
  have i: "unat x = unat x0 div 2 ^ unat c" "0 < unat x" "unat x < 2 ^ (2 * k)"
     "unat x < 2147483648" "unat c + 2 * k \<le> 32" using assms(1) by (simp_all add: ilog2_inv_def p)
  have a: "unat (c + w) = unat c + k" using i(5) assms(2,3) unat_add_lem [of c w] by simp
  have b: "unat x div 2 ^ k < 2 ^ k" using i(3) by (simp add: less_mult_imp_div_less mult_2 power_add)
  have c: "\<not> unat x < 2 ^ k \<Longrightarrow> 0 < unat x div 2 ^ k" by (simp add: div_greater_zero_iff)
  show ?thesis
    using i a b c ilog2_stage_eq [OF i(4) assms(2), of c] div_le_dividend [of "unat x" "2 ^ k"]
    by (auto simp: p ilog2_inv_def unat_shr power_add div_mult2_eq)
qed

lemma ilog2_bounds:
  assumes "0 <s x"
  shows "unat (ilog2 x) \<le> 31 \<and> 2 ^ unat (ilog2 x) \<le> unat x \<and> unat x < 2 ^ Suc (unat (ilog2 x))"
proof -
  have x: "0 < unat x" "unat x < 2147483648"
    using assms sint_neg_unat [of x] by (auto simp: word_sless_alt unat_gt_0)
  have "ilog2_inv 32 x (0, x)" using x by (simp add: ilog2_inv_def)
  then have "ilog2_inv 1 x (ilog2_stage 1 (ilog2_stage 2 (ilog2_stage 4 (ilog2_stage 8 (ilog2_stage 16 (0, x))))))"
    by (intro ilog2_stage_inv) simp_all
  then have "unat x div 2 ^ unat (ilog2 x) = 1" "unat (ilog2 x) \<le> 31"
    by (auto simp: ilog2_inv_def ilog2_stages split: prod.splits)
  moreover from this have "2 ^ unat (ilog2 x) * 1 \<le> unat x" "unat x < 2 ^ unat (ilog2 x) * (1 + 1)"
    using div_times_less_eq_dividend [of "unat x" "2 ^ unat (ilog2 x)"]
      dividend_less_div_times [of "2 ^ unat (ilog2 x)" "unat x"] by simp_all
  ultimately show ?thesis by simp
qed

lemma test_ilog2_loop_eq:
  assumes "2 ^ r \<le> unat x" "unat x < 2 ^ Suc r" "r \<le> m"
  shows "test_ilog2_loop x m = Some (of_nat r)"
proof -
  have b: "bit x n \<longleftrightarrow> n = r" if "r \<le> n" for n
  proof -
    have "unat x < 2 ^ n" if "n \<noteq> r"
      using assms(2) power_increasing [of "Suc r" n "2::nat"] that \<open>r \<le> n\<close> by simp
    moreover have "unat x div 2 ^ r = 1"
      using assms(1,2) by (intro div_nat_eqI) simp_all
    ultimately have "odd (unat x div 2 ^ n) \<longleftrightarrow> n = r" by (cases "n = r") simp_all
    then have "bit (unat x) n \<longleftrightarrow> n = r" by (simp add: bit_iff_odd)
    then show ?thesis by (simp add: bit_unsigned_iff bit_imp_possible_bit)
  qed
  show ?thesis using assms(3)
  proof (induction m)
    case 0
    then show ?case using b [of 0] bit_0 [of x] by (simp add: and_one_eq odd_iff_mod_2_eq_one [symmetric])
  next
    case (Suc m)
    have "x AND push_bit (Suc m) 1 = 0 \<longleftrightarrow> \<not> bit x (Suc m)"
      by (simp add: bit_iff_and_push_bit_not_eq_0)
    then show ?case using Suc b [of "Suc m"] by (cases "r = Suc m") (simp_all del: push_bit_Suc of_nat_Suc)
  qed
qed

subsection \<open>bitCount: adding neighbouring digits\<close>

text \<open>
  After \<open>j\<close> steps the word is a number in base \<open>2 ^ (2 ^ j)\<close> whose digits count the
  ones of the blocks of \<open>2 ^ j\<close> bits; a step adds neighbouring digits.
\<close>

lemma concat_and: "concat_bit j a b AND concat_bit j c d = concat_bit j (a AND c) (b AND d)"
  by (rule bit_eqI) (auto simp: bit_and_iff bit_concat_bit_iff)

lemma concat_take: "take_bit k (concat_bit k a b) = take_bit k a"
  by (rule bit_eqI) (auto simp: bit_concat_bit_iff bit_take_bit_iff)

primrec digits :: "nat \<Rightarrow> int list \<Rightarrow> int" where
  "digits k [] = 0"
| "digits k (d # ds) = concat_bit k d (digits k ds)"

fun pairs :: "int list \<Rightarrow> int list" where
  "pairs (a # b # ds) = (a + b) # pairs ds"
| "pairs ds = ds"

primrec dmask :: "nat \<Rightarrow> nat \<Rightarrow> int" where
  "dmask k 0 = 0"
| "dmask k (Suc n) = concat_bit (2 * k) (mask k) (dmask k n)"

lemma drop_bit_concat:
  "drop_bit k (concat_bit (2 * k) l h) AND concat_bit (2 * k) (mask k) m =
   concat_bit (2 * k) (drop_bit k l AND mask k) (drop_bit k h AND m)"
  by (rule bit_eqI) (auto simp: bit_and_iff bit_concat_bit_iff bit_drop_bit_eq bit_mask_iff)

lemma concat2: "concat_bit k a (concat_bit k b c) = concat_bit (2 * k) (concat_bit k a b) c"
  by (rule bit_eqI) (auto simp: bit_concat_bit_iff mult_2 diff_diff_left)

lemma fold_step:
  "length ds = 2 * n \<Longrightarrow> \<forall>d\<in>set ds. 0 \<le> d \<and> 2 * d < 2 ^ (2*k) \<and> d < 2 ^ k \<Longrightarrow>
   (digits k ds AND dmask k n) + (drop_bit k (digits k ds) AND dmask k n) = digits (2 * k) (pairs ds)"
proof (induction n arbitrary: ds)
  case 0
  then show ?case by simp
next
  case (Suc n)
  then obtain a b es where ds: "ds = a # b # es"
    by (cases ds; cases "tl ds") auto
  let ?E = "digits k es" and ?M = "dmask k n"
  have ab: "0 \<le> a" "a < 2 ^ k" "0 \<le> b" "b < 2 ^ k" using Suc.prems(2) by (auto simp: ds)
  have sum: "a < 2 ^ (2 * k)" "b < 2 ^ (2 * k)" "a + b < 2 ^ (2 * k)" using Suc.prems(2) by (auto simp: ds)
  have "concat_bit k a b AND mask k = a"
    using ab take_bit_int_eq_self [of a k] by (simp add: take_bit_eq_mask [symmetric] concat_take)
  moreover have "drop_bit k (concat_bit k a b) AND mask k = b"
  proof -
    have "drop_bit k (concat_bit k a b) = b"
      by (rule bit_eqI) (simp add: bit_concat_bit_iff bit_drop_bit_eq)
    then show ?thesis using ab take_bit_int_eq_self [of b k] by (simp add: take_bit_eq_mask [symmetric])
  qed
  moreover have "concat_bit (2 * k) a x + concat_bit (2 * k) b y = concat_bit (2 * k) (a + b) (x + y)" for x y
    using ab sum by (simp add: concat_bit_eq take_bit_int_eq_self push_bit_eq_mult algebra_simps)
  ultimately show ?case using Suc
    by (simp add: ds concat2 concat_and drop_bit_concat)
qed

lemma dmasks: "dmask 1 16 = 0x55555555" "dmask 2 8 = 0x33333333" "dmask 4 4 = 0x0F0F0F0F" "dmask 8 2 = 0x00FF00FF" "dmask 16 1 = 0x0000FFFF"
  by code_simp+

lemma count_step:
  fixes y m :: c_int
  assumes y: "uint y = digits k ds" and m: "uint m = dmask k n" and len: "length ds = 2 * n"
    and b: "\<forall>d\<in>set ds. 0 \<le> d \<and> 2 * d < 2 ^ (2*k) \<and> d < 2 ^ k"
    and mb: "2 * uint m < 2 ^ 32" "uint m < 2 ^ (32 - k)" and k: "k < 32"
  shows "uint ((y AND m) + (signed_drop_bit k y AND m)) = digits (2 * k) (pairs ds)"
proof -
  have "signed_drop_bit k y AND m = drop_bit k y AND m"
  proof (rule bit_word_eqI)
    fix i
    have "take_bit (32 - k) (uint m) = uint m"
      using mb(2) by (simp add: take_bit_int_eq_self)
    then have "bit (uint m) i \<Longrightarrow> i < 32 - k" by (metis bit_take_bit_iff)
    then have "32 - k \<le> i \<Longrightarrow> \<not> bit m i"
      using bit_imp_le_length [of m i] by (auto simp: bit_uint_iff)
    then show "bit (signed_drop_bit k y AND m) i = bit (drop_bit k y AND m) i"
      by (auto simp: bit_and_iff bit_signed_drop_bit_iff bit_drop_bit_eq)
  qed
  moreover have "uint (y AND m) = uint y AND uint m" by (simp add: unsigned_and_eq)
  moreover have "uint (drop_bit k y AND m) = drop_bit k (uint y) AND uint m"
    by (simp add: unsigned_and_eq unsigned_drop_bit_eq take_bit_int_eq_self uint32_less)
  moreover have "(uint y AND uint m) + (drop_bit k (uint y) AND uint m) < 4294967296"
  proof -
    have "2 * uint m < 4294967296" using mb(1) by simp
    then show ?thesis
      using AND_upper2 [of "uint m" "uint y", OF uint_ge_0]
        AND_upper2 [of "uint m" "drop_bit k (uint y)", OF uint_ge_0] by linarith
  qed
  ultimately have "uint ((y AND m) + (signed_drop_bit k y AND m)) = (uint y AND uint m) + (drop_bit k (uint y) AND uint m)"
    using uint_add_lem [of "y AND m" "drop_bit k y AND m"] by simp
  also have "\<dots> = digits (2 * k) (pairs ds)" using fold_step [OF len b] y m by simp
  finally show ?thesis .
qed

lemma int_digits: "0 \<le> v \<Longrightarrow> v < 2 ^ n \<Longrightarrow> v = digits 1 (map (\<lambda>i. of_bool (bit v i)) [0..<n])"
proof (induction n arbitrary: v)
  case 0
  then show ?case by simp
next
  case (Suc n)
  have "v div 2 = digits 1 (map (\<lambda>i. of_bool (bit (v div 2) i)) [0..<n])"
    using Suc by simp
  then have "v div 2 = digits 1 (map (\<lambda>i. of_bool (bit v (Suc i))) [0..<n])"
    by (simp add: bit_Suc)
  moreover have "v = of_bool (odd v) + 2 * (v div 2)" by (cases "even v") (auto elim: evenE oddE)
  ultimately show ?case
    by (simp add: upt_conv_Cons map_Suc_upt [symmetric] comp_def concat_bit_eq bit_0 del: upt_Suc split: if_splits)
qed

lemma pairs_props:
  assumes "length ds = 2 * n" "\<forall>d\<in>set ds. 0 \<le> d \<and> d \<le> c"
  shows "length (pairs ds) = n \<and> sum_list (pairs ds) = sum_list ds \<and> (\<forall>d\<in>set (pairs ds). 0 \<le> d \<and> d \<le> 2 * c)"
  using assms
proof (induction ds arbitrary: n rule: pairs.induct)
  case (1 a b ds)
  then show ?case by (cases n) (auto simp: add_mono)
qed auto

lemma uint_digits: "uint (x::c_int) = digits 1 (map (\<lambda>i. of_bool (bit x i)) [0..<32])"
proof -
  have e: "map (\<lambda>i. of_bool (bit (uint x) i)) [0..<32] = map (\<lambda>i. of_bool (bit x i) :: int) [0..<32]"
    by (simp add: bit_uint_iff)
  have "uint x = digits 1 (map (\<lambda>i. of_bool (bit (uint x) i)) [0..<32])"
    using int_digits [of "uint x" 32] uint32_less [of x] by simp
  then show ?thesis by (simp only: e)
qed

lemma bitCount_steps:
  "bitCount x =
    (let st = (\<lambda>k m y. (y AND m) + (signed_drop_bit k y AND m))
     in st 16 0x0000FFFF (st 8 0x00FF00FF (st 4 0x0F0F0F0F (st 2 0x33333333 (st 1 0x55555555 x)))))"
  by (simp add: bitCount_def Let_def c_ops)

lemma bitCount_sum: "uint (bitCount x) = (\<Sum>i\<leftarrow>[0..<32]. of_bool (bit x i))"
proof -
  define d0 :: "int list" where "d0 = map (\<lambda>i. of_bool (bit x i)) [0..<32]"
  define st where "st = (\<lambda>k m (y::c_int). (y AND m) + (signed_drop_bit k y AND m))"
  have d0: "length d0 = 32" "\<forall>d\<in>set d0. 0 \<le> d \<and> d \<le> 1" by (auto simp: d0_def)
  have d1: "length (pairs d0) = 16" "sum_list (pairs d0) = sum_list d0" "\<forall>d\<in>set (pairs d0). 0 \<le> d \<and> d \<le> 2"
    using pairs_props [of d0 16 1] d0 by simp_all
  have d2: "length (pairs (pairs d0)) = 8" "sum_list (pairs (pairs d0)) = sum_list d0" "\<forall>d\<in>set (pairs (pairs d0)). 0 \<le> d \<and> d \<le> 4"
    using pairs_props [of "pairs d0" 8 2] d1 by simp_all
  have d3: "length (pairs (pairs (pairs d0))) = 4" "sum_list (pairs (pairs (pairs d0))) = sum_list d0" "\<forall>d\<in>set (pairs (pairs (pairs d0))). 0 \<le> d \<and> d \<le> 8"
    using pairs_props [of "pairs (pairs d0)" 4 4] d2 by simp_all
  have d4: "length (pairs (pairs (pairs (pairs d0)))) = 2" "sum_list (pairs (pairs (pairs (pairs d0)))) = sum_list d0" "\<forall>d\<in>set (pairs (pairs (pairs (pairs d0)))). 0 \<le> d \<and> d \<le> 16"
    using pairs_props [of "pairs (pairs (pairs d0))" 2 8] d3 by simp_all
  have d5: "length (pairs (pairs (pairs (pairs (pairs d0))))) = 1" "sum_list (pairs (pairs (pairs (pairs (pairs d0))))) = sum_list d0" "\<forall>d\<in>set (pairs (pairs (pairs (pairs (pairs d0))))). 0 \<le> d \<and> d \<le> 32"
    using pairs_props [of "pairs (pairs (pairs (pairs d0)))" 1 16] d4 by simp_all
  have s1: "uint (st 1 0x55555555 x) = digits 2 (pairs d0)"
    using count_step [of x 1 d0 "0x55555555" 16] uint_digits [of x] d0 dmasks by (force simp: st_def d0_def)
  have s2: "uint (st 2 0x33333333 (st 1 0x55555555 x)) = digits 4 (pairs (pairs d0))"
    using count_step [OF s1, of "0x33333333" 8] d1 dmasks by (force simp: st_def)
  have s3: "uint (st 4 0x0F0F0F0F (st 2 0x33333333 (st 1 0x55555555 x))) = digits 8 (pairs (pairs (pairs d0)))"
    using count_step [OF s2, of "0x0F0F0F0F" 4] d2 dmasks by (force simp: st_def)
  have s4: "uint (st 8 0x00FF00FF (st 4 0x0F0F0F0F (st 2 0x33333333 (st 1 0x55555555 x)))) = digits 16 (pairs (pairs (pairs (pairs d0))))"
    using count_step [OF s3, of "0x00FF00FF" 2] d3 dmasks by (force simp: st_def)
  have s5: "uint (bitCount x) = digits 32 (pairs (pairs (pairs (pairs (pairs d0)))))"
    using count_step [OF s4, of "0x0000FFFF" 1] d4 dmasks by (force simp: st_def bitCount_steps Let_def)
  obtain s where "pairs (pairs (pairs (pairs (pairs d0)))) = [s]"
    using d5(1) by (metis length_Suc_conv One_nat_def length_0_conv)
  then have "uint (bitCount x) = sum_list d0"
    using d5 s5 by (simp add: concat_bit_eq take_bit_int_eq_self)
  then show ?thesis by (simp add: d0_def)
qed

lemma test_bitCount_loop_sum:
  "i + k \<le> 32 \<Longrightarrow> test_bitCount_loop x i k r = r + (\<Sum>j\<leftarrow>[i..<i + k]. of_bool (bit x j))"
proof (induction k arbitrary: i r)
  case 0
  then show ?case by simp
next
  case (Suc k)
  have "signed_drop_bit i x AND 1 = of_bool (bit x i)"
    using Suc.prems by (simp add: and_1_eq bit_signed_drop_bit_iff)
  then show ?case using Suc by (simp add: upt_conv_Cons algebra_simps del: upt_Suc)
qed

lemma bitCount_eq: "bitCount x = test_bitCount x"
proof -
  have "bitCount x = word_of_int (uint (bitCount x))" by simp
  also have "\<dots> = (\<Sum>j\<leftarrow>[0..<32]. of_bool (bit x j))"
    unfolding bitCount_sum by (simp add: upt_rec)
  finally show ?thesis using test_bitCount_loop_sum [of 0 32 x 0] by (simp add: test_bitCount_def)
qed

subsection \<open>The puzzles are solved\<close>

lemma ilog2_eq: "0 <s x \<Longrightarrow> test_ilog2 x = Some (ilog2 x)"
  using ilog2_bounds [of x] test_ilog2_loop_eq [of "unat (ilog2 x)" x 31] by (simp add: test_ilog2_def)

text \<open>C28: \<open>bitCount\<close> returns the number of ones of every word, as the loop of
  \<open>test_bitCount\<close> counts them.\<close>

theorem bitCount_correct:
  "bitCount x = test_bitCount x \<and> uint (bitCount x) = (\<Sum>i\<leftarrow>[0..<32]. of_bool (bit x i))"
  by (rule conjI [OF bitCount_eq bitCount_sum])

text \<open>C29: for a positive argument the loop of \<open>test_ilog2\<close> returns, and \<open>ilog2\<close>
  returns the same number, the position of the highest one.\<close>

theorem ilog2_correct:
  assumes "0 <s x"
  shows "test_ilog2 x = Some (ilog2 x) \<and> 2 ^ unat (ilog2 x) \<le> unat x \<and> unat x < 2 ^ Suc (unat (ilog2 x))"
  using ilog2_eq [OF assms] ilog2_bounds [OF assms] by simp

theorem ilog2_correct_witness:
  "test_ilog2 1000 = Some (ilog2 1000) \<and> 2 ^ unat (ilog2 1000) \<le> unat (1000 :: c_int) \<and>
   unat (1000 :: c_int) < 2 ^ Suc (unat (ilog2 1000))"
  by (rule ilog2_correct) (simp add: word_sless_alt)

end
