(* ===== verification/Floats.thy ===== *)
theory Floats
  imports Base
begin

text \<open>
  The floating point puzzles of \<open>datalab-handout/bits.c\<close>, which work on the bit patterns of
  single precision numbers, and the fields of such a pattern as \<open>datalab-handout/fshow.c\<close> reads
  them. The machine's floating point arithmetic is not modelled; the theorems compare the results
  with the value of a pattern, \<open>fmag\<close>, the magnitude of a finite number in units of the least
  denormalised one, \<open>2^(-149)\<close>, and with rounding to the nearest multiple, ties to even.
\<close>

subsection \<open>The fields (fshow.c)\<close>

definition get_exp :: "c_uint \<Rightarrow> c_uint" where
  "get_exp uf = drop_bit 23 uf AND (push_bit 8 1 - 1)"

definition get_frac :: "c_uint \<Rightarrow> c_uint" where
  "get_frac uf = uf AND (push_bit 23 1 - 1)"

definition get_sign :: "c_uint \<Rightarrow> c_uint" where
  "get_sign uf = drop_bit 31 uf AND 1"

subsection \<open>The solutions (bits.c)\<close>

definition float_neg :: "c_uint \<Rightarrow> c_uint" where
  "float_neg uf = (if NOT uf AND 0x7F800000 \<noteq> 0 \<or> uf AND 0x007FFFFF = 0 then uf XOR push_bit 31 1 else uf)"

text \<open>The two loops of \<open>float_i2f\<close>: the digits of \<open>t\<close>, and the digits lost from \<open>f\<close>.\<close>

function i2f_digits :: "c_int \<Rightarrow> c_uint \<Rightarrow> c_int" where
  "i2f_digits b t = (if t \<noteq> 0 then i2f_digits (b + 1) (drop_bit 1 t) else b)"
  by pat_completeness auto
termination
proof (relation "measure (\<lambda>(b, t). unat t)")
  fix b t :: "32 word"
  assume "t \<noteq> 0"
  then have "0 < unat t" by (simp add: unat_gt_0)
  then show "((b + 1, drop_bit 1 t), b, t) \<in> measure (\<lambda>(b, t). unat t)" by (simp add: unat_shr)
qed simp

function i2f_lose :: "c_uint \<Rightarrow> c_int \<Rightarrow> c_uint \<times> c_int" where
  "i2f_lose f c = (if drop_bit 25 f \<noteq> 0 then i2f_lose (drop_bit 1 f) (c OR (f AND 1)) else (f, c))"
  by pat_completeness auto
termination
proof (relation "measure (\<lambda>(f, c). unat f)")
  fix f c :: "32 word"
  assume "drop_bit 25 f \<noteq> 0"
  then have "f \<noteq> 0" by auto
  then have "0 < unat f" by (simp add: unat_gt_0)
  then show "((drop_bit 1 f, c OR (f AND 1)), f, c) \<in> measure (\<lambda>(f, c). unat f)" by (simp add: unat_shr)
qed simp

declare i2f_digits.simps [simp del] i2f_lose.simps [simp del]

text \<open>\<open>x >> 31\<close> is an arithmetic shift of an \<open>int\<close>; those of \<open>t\<close> and \<open>f\<close> are logical.\<close>

definition float_i2f :: "c_int \<Rightarrow> c_uint" where
  "float_i2f x =
    (let (r, t) = (if c_sar x 31 \<noteq> 0 then (0x80000000, NOT x + 1) else (0, x));
         f = t;
         b = i2f_digits 0 t;
         s = 24 - b;
         (s, f, b) =
           (if s <s 0
            then let (f, c) = i2f_lose f 0;
                     f = drop_bit 1 f + (f AND (c OR drop_bit 1 f) AND 1)
                 in (0, f, if drop_bit 24 f \<noteq> 0 then b + 1 else b)
            else (s, f, b));
         b = (if b = 0 then - 126 else b);
         r = r OR (c_shl f s AND 0x007FFFFF)
     in r OR c_shl (b + 126) 23)"

definition float_twice :: "c_uint \<Rightarrow> c_uint" where
  "float_twice uf =
    (let e = drop_bit 23 uf AND 0xFF;
         (e, uf) = (if e = 0 then (0xFF, (uf AND 0x80000000) OR push_bit 1 uf) else (e, uf));
         (e, uf) = (if e XOR 0xFE = 0 then (0xFF, (uf AND 0x80000000) OR push_bit 23 0xFF) else (e, uf))
     in if e XOR 0xFF \<noteq> 0 then uf + push_bit 23 1 else uf)"

subsection \<open>A pattern as its three fields\<close>

definition fields :: "nat \<Rightarrow> nat \<Rightarrow> nat \<Rightarrow> c_uint" where
  "fields s e f = of_nat (s * 2147483648 + e * 8388608 + f)"

definition fexp :: "c_uint \<Rightarrow> nat" where
  "fexp uf = unat (get_exp uf)"

definition ffrac :: "c_uint \<Rightarrow> nat" where
  "ffrac uf = unat (get_frac uf)"

definition fsign :: "c_uint \<Rightarrow> nat" where
  "fsign uf = unat (get_sign uf)"

definition fmag :: "c_uint \<Rightarrow> nat" where
  "fmag uf = (if fexp uf = 0 then ffrac uf else (ffrac uf + 8388608) * 2 ^ (fexp uf - 1))"

lemma unat_mask: "unat ((x :: c_uint) AND mask n) = unat x mod 2 ^ n"
  by (metis take_bit_eq_mask take_bit_eq_mod unsigned_take_bit_eq)

lemma field_unat:
  "fexp uf = unat uf div 8388608 mod 256" "ffrac uf = unat uf mod 8388608" "fsign uf = unat uf div 2147483648"
proof -
  have m: "push_bit 8 1 - 1 = (mask 8 :: c_uint)" "push_bit 23 1 - 1 = (mask 23 :: c_uint)" "(1 :: c_uint) = mask 1"
    by (simp_all add: mask_eq_exp_minus_1)
  show "fexp uf = unat uf div 8388608 mod 256" unfolding fexp_def get_exp_def m(1) by (simp add: unat_mask unat_shr)
  show "ffrac uf = unat uf mod 8388608" unfolding ffrac_def get_frac_def m(2) by (simp add: unat_mask)
  have "drop_bit 31 uf AND 1 = drop_bit 31 uf AND mask 1" using m(3) by (simp only:)
  then have "fsign uf = unat uf div 2147483648 mod 2" unfolding fsign_def get_sign_def by (simp only: unat_mask unat_shr) simp
  moreover have "unat uf div 2147483648 < 2" using unat32_less [of uf] by linarith
  ultimately show "fsign uf = unat uf div 2147483648" by simp
qed

lemma fields_unat: "s < 2 \<Longrightarrow> e < 256 \<Longrightarrow> f < 8388608 \<Longrightarrow> unat (fields s e f) = s * 2147483648 + e * 8388608 + f"
  unfolding fields_def by (simp add: unat_of_nat take_bit_nat_eq_self del: of_nat_add of_nat_mult)

lemma fields_get:
  assumes "s < 2" "e < 256" "f < 8388608"
  shows "fexp (fields s e f) = e" "ffrac (fields s e f) = f" "fsign (fields s e f) = s"
proof -
  have u: "unat (fields s e f) = f + (s * 256 + e) * 8388608" using fields_unat [OF assms] by simp
  have "f + (s * 256 + e) * 8388608 = (f + e * 8388608) + s * 2147483648" by simp
  moreover have "((f + e * 8388608) + s * 2147483648) div 2147483648 = s" using assms by (subst div_mult_self1) simp_all
  ultimately show "fsign (fields s e f) = s" by (simp add: field_unat u)
  have "(f + (s * 256 + e) * 8388608) div 8388608 = s * 256 + e" using assms(3) by (subst div_mult_self1) simp_all
  then show "fexp (fields s e f) = e" using assms(2) unfolding field_unat u by simp
  show "ffrac (fields s e f) = f" using assms(3) unfolding field_unat u by (simp only: mod_mult_self1) simp
qed

lemma fields_cases:
  obtains s e f where "uf = fields s e f" "s < 2" "e < 256" "f < 8388608" "s = fsign uf" "e = fexp uf" "f = ffrac uf"
proof -
  have u: "unat uf < 4294967296" by (rule unat32_less)
  have "unat uf = fsign uf * 2147483648 + fexp uf * 8388608 + ffrac uf"
  proof -
    let ?u = "unat uf" and ?q = "unat uf div 8388608"
    have "?u = ?q * 8388608 + ?u mod 8388608" by simp
    moreover have "?q = ?q div 256 * 256 + ?q mod 256" by simp
    moreover have "?q div 256 = ?u div 2147483648" by (simp add: div_mult2_eq [symmetric])
    ultimately show ?thesis unfolding field_unat by linarith
  qed
  moreover have "of_nat (unat uf) = uf" by simp
  ultimately have "uf = fields (fsign uf) (fexp uf) (ffrac uf)" unfolding fields_def by (simp del: of_nat_unat)
  moreover have "fsign uf < 2" "fexp uf < 256" "ffrac uf < 8388608" using u by (simp_all add: field_unat)
  ultimately show ?thesis using that by blast
qed

lemma c_consts:
  "(0x7F800000 :: c_uint) = push_bit 23 (mask 8)" "(0x007FFFFF :: c_uint) = mask 23" "(0xFF :: c_uint) = mask 8"
  "(0x80000000 :: c_uint) = push_bit 31 1"
  by (simp_all add: mask_eq_exp_minus_1)

lemma bit_consts:
  "bit (0xFF :: c_uint) n \<longleftrightarrow> n < 8" "bit (0x007FFFFF :: c_uint) n \<longleftrightarrow> n < 23"
  "bit (0x80000000 :: c_uint) n \<longleftrightarrow> n = 31" "bit (0x7F800000 :: c_uint) n \<longleftrightarrow> 23 \<le> n \<and> n < 31"
  unfolding c_consts bit_mask_iff bit_push_bit_iff bit_1_iff by auto

lemma get_alt: "get_exp uf = drop_bit 23 uf AND 0xFF" "get_frac uf = uf AND 0x007FFFFF" "push_bit 31 1 = (0x80000000 :: c_uint)"
  by (simp_all add: get_exp_def get_frac_def)

lemma bit_1_word: "bit (1 :: c_uint) n \<longleftrightarrow> n = 0"
  by (simp add: bit_1_iff)

lemmas bit_rules = bit_and_iff bit_or_iff bit_xor_iff bit_not_iff_eq bit_drop_bit_eq bit_push_bit_iff bit_consts bit_1_word

lemma word_zero: "(x :: 32 word) = 0 \<longleftrightarrow> (\<forall>n < 32. \<not> bit x n)"
proof
  assume "\<forall>n < 32. \<not> bit x n"
  then show "x = 0" by (intro bit_word_eqI) simp
qed simp

subsection \<open>float_neg\<close>

lemma exp_all_ones: "NOT uf AND 0x7F800000 = 0 \<longleftrightarrow> fexp uf = 255"
proof -
  have "NOT uf AND 0x7F800000 = 0 \<longleftrightarrow> (\<forall>n. 23 \<le> n \<and> n < 31 \<longrightarrow> bit uf n)"
  proof -
    have "NOT uf AND 0x7F800000 = 0 \<longleftrightarrow> (\<forall>n < 32. \<not> bit (NOT uf AND 0x7F800000) n)"
      by (rule word_zero)
    also have "\<dots> \<longleftrightarrow> (\<forall>n. 23 \<le> n \<and> n < 31 \<longrightarrow> bit uf n)"
    proof
      assume a: "\<forall>n < 32. \<not> bit (NOT uf AND 0x7F800000) n"
      show "\<forall>n. 23 \<le> n \<and> n < 31 \<longrightarrow> bit uf n"
      proof (intro allI impI)
        fix n :: nat assume n: "23 \<le> n \<and> n < 31"
        then have "n < 32" by simp
        with a have "\<not> (bit (NOT uf) n \<and> 23 \<le> n \<and> n < 31)" unfolding bit_and_iff bit_consts(4) by blast
        then show "bit uf n" using n \<open>n < 32\<close> by (simp add: bit_not_iff)
      qed
    next
      assume a: "\<forall>n. 23 \<le> n \<and> n < 31 \<longrightarrow> bit uf n"
      show "\<forall>n < 32. \<not> bit (NOT uf AND 0x7F800000) n"
        unfolding bit_and_iff bit_consts(4) bit_not_iff using a by blast
    qed
    finally show ?thesis .
  qed
  also have "\<dots> \<longleftrightarrow> (\<forall>n < 8. bit uf (23 + n))"
  proof
    assume a: "\<forall>n < 8. bit uf (23 + n)"
    show "\<forall>n. 23 \<le> n \<and> n < 31 \<longrightarrow> bit uf n"
    proof (intro allI impI)
      fix n :: nat assume "23 \<le> n \<and> n < 31"
      then have "n - 8 < 31" "23 + (n - 23) = n" "n - 23 < 8" by auto
      then show "bit uf n" using a by metis
    qed
  qed auto
  also have "\<dots> \<longleftrightarrow> get_exp uf = 0xFF"
  proof
    assume "\<forall>n < 8. bit uf (23 + n)"
    then show "get_exp uf = 0xFF" unfolding get_alt by (intro bit_word_eqI) (auto simp only: bit_rules o_def)
  next
    assume e: "get_exp uf = 0xFF"
    show "\<forall>n < 8. bit uf (23 + n)"
    proof (intro allI impI)
      fix n :: nat assume "n < 8"
      then have "bit (get_exp uf) n" unfolding e bit_consts .
      then show "bit uf (23 + n)" unfolding get_alt by (simp only: bit_and_iff bit_drop_bit_eq o_def)
    qed
  qed
  also have "\<dots> \<longleftrightarrow> fexp uf = 255" unfolding fexp_def by (simp add: word_unat_eq_iff)
  finally show ?thesis .
qed

lemma xor_sign:
  "get_exp (uf XOR 0x80000000) = get_exp uf" "get_frac (uf XOR 0x80000000) = get_frac uf"
  "get_sign (uf XOR 0x80000000) = get_sign uf XOR 1"
proof -
  show "get_exp (uf XOR 0x80000000) = get_exp uf"
    unfolding get_alt by (rule bit_word_eqI) (auto simp only: bit_rules o_def)
  show "get_frac (uf XOR 0x80000000) = get_frac uf"
    unfolding get_alt by (rule bit_word_eqI) (auto simp only: bit_rules o_def)
  show "get_sign (uf XOR 0x80000000) = get_sign uf XOR 1"
    unfolding get_sign_def by (rule bit_word_eqI) (auto simp only: bit_rules o_def)
qed

text \<open>\<open>float_neg\<close> returns a NaN as it is, and otherwise a number of the same
  magnitude, so with the same exponent and fraction, and the opposite sign.\<close>

lemma float_neg_correct:
  "if fexp uf = 255 \<and> ffrac uf \<noteq> 0 then float_neg uf = uf
   else fexp (float_neg uf) = fexp uf \<and> ffrac (float_neg uf) = ffrac uf \<and> fsign (float_neg uf) = 1 - fsign uf"
proof -
  have f: "uf AND 0x007FFFFF = 0 \<longleftrightarrow> ffrac uf = 0"
    unfolding ffrac_def get_alt by (simp add: unat_eq_zero)
  have "get_sign uf = 0 \<or> get_sign uf = 1" unfolding get_sign_def by (simp add: and_1_eq)
  then have s: "unat (get_sign uf XOR 1) = 1 - unat (get_sign uf)" by auto
  have n: "float_neg uf = (if fexp uf = 255 \<and> ffrac uf \<noteq> 0 then uf else uf XOR 0x80000000)"
    unfolding float_neg_def get_alt(3) using f exp_all_ones [of uf] by auto
  show ?thesis unfolding n using s by (auto simp: fexp_def ffrac_def fsign_def xor_sign)
qed

subsection \<open>float_twice\<close>

lemma xor_zero: "(x :: c_uint) XOR y = 0 \<longleftrightarrow> x = y"
  by (metis xor.left_neutral xor.right_neutral xor.assoc xor_self_eq)

lemma of_nat_wrap: "(of_nat (4294967296 * k + n) :: 32 word) = of_nat n"
  by (simp add: word_unat_eq_iff unat_of_nat take_bit_eq_mod del: of_nat_add of_nat_mult)

lemma sign_part: "uf AND 0x80000000 = fields (fsign uf) 0 0"
proof -
  have "uf AND 0x80000000 = push_bit 31 (get_sign uf)"
    unfolding get_sign_def
  proof (rule bit_word_eqI)
    fix n assume "n < LENGTH(32)"
    then show "bit (uf AND 0x80000000) n = bit (push_bit 31 (drop_bit 31 uf AND 1)) n"
      by (cases "n = 31") (auto simp only: bit_rules o_def possible_bit_word, simp_all)
  qed
  also have "\<dots> = push_bit 31 (of_nat (fsign uf))" by (simp add: fsign_def)
  also have "\<dots> = fields (fsign uf) 0 0" by (simp add: fields_def push_bit_eq_mult mult.commute)
  finally show ?thesis .
qed

lemma or_low:
  assumes "unat y < 2147483648"
  shows "fields s 0 0 OR y = fields s 0 0 + y"
proof (rule disjunctive_add [symmetric])
  fix n
  have "unat (take_bit 31 y) = unat y" using assms by (simp add: unsigned_take_bit_eq take_bit_nat_eq_self)
  then have "take_bit 31 y = y" by (simp add: word_unat_eq_iff)
  then have "bit y n \<Longrightarrow> n < 31" by (metis bit_take_bit_iff)
  moreover have "fields s 0 0 = push_bit 31 (of_nat s)" by (simp add: fields_def push_bit_eq_mult mult.commute)
  ultimately show "\<not> bit (fields s 0 0) n \<or> \<not> bit y n" by (auto simp: bit_simps)
qed

lemma fields_eq: "n = e * 8388608 + f \<Longrightarrow> fields s 0 0 + of_nat n = fields s e f"
  by (simp add: fields_def)

lemma low_unat: "n < 2147483648 \<Longrightarrow> unat (of_nat n :: c_uint) = n"
  by (simp add: unat_of_nat take_bit_nat_eq_self)

lemma twice_denorm:
  assumes "s < 2" "f < 8388608"
  shows "(fields s 0 f AND 0x80000000) OR push_bit 1 (fields s 0 f) = fields s (2 * f div 8388608) (2 * f mod 8388608)"
proof -
  have "push_bit 1 (fields s 0 f) = of_nat (4294967296 * s + 2 * f)" by (simp add: fields_def push_bit_eq_mult)
  then have p: "push_bit 1 (fields s 0 f) = of_nat (2 * f)" by (simp only: of_nat_wrap)
  have "unat (of_nat (2 * f) :: c_uint) = 2 * f" using assms(2) by (intro low_unat) simp
  then have "fields s 0 0 OR of_nat (2 * f) = fields s 0 0 + of_nat (2 * f)" using assms(2) by (intro or_low) simp
  also have "\<dots> = fields s (2 * f div 8388608) (2 * f mod 8388608)"
    by (intro fields_eq) (rule div_mult_mod_eq [symmetric])
  finally show ?thesis using p sign_part [of "fields s 0 f"] fields_get(3) [OF assms(1) _ assms(2), of 0] by simp
qed

lemma float_twice_spec:
  "if fexp uf = 255 then float_twice uf = uf
   else fsign (float_twice uf) = fsign uf \<and>
     (if fexp uf = 254 then fexp (float_twice uf) = 255 \<and> ffrac (float_twice uf) = 0
      else fexp (float_twice uf) \<noteq> 255 \<and> fmag (float_twice uf) = 2 * fmag uf)"
proof -
  obtain s e f where u: "uf = fields s e f" "s < 2" "e < 256" "f < 8388608" by (rule fields_cases)
  note g = fields_get [OF u(2-4)]
  have eu: "unat (drop_bit 23 uf AND 0xFF) = e" using g(1) unfolding u(1) fexp_def get_alt .
  consider "e = 0" | "e \<noteq> 0" "e < 254" | "e = 254" | "e = 255" using u(3) by linarith
  then show ?thesis
  proof cases
    case 1
    then have "drop_bit 23 uf AND 0xFF = 0" using eu by (simp add: unat_eq_zero)
    then have t: "float_twice uf = fields s (2 * f div 8388608) (2 * f mod 8388608)"
      using twice_denorm [OF u(2,4)] 1 u(1) by (simp add: float_twice_def)
    have "2 * f div 8388608 = 0 \<and> f < 4194304 \<or> 2 * f div 8388608 = 1 \<and> 4194304 \<le> f" using u(4) by linarith
    moreover have "2 * f mod 8388608 = 2 * f - 8388608 * (2 * f div 8388608)" by (rule minus_mult_div_eq_mod [symmetric])
    ultimately show ?thesis
      using t fields_get [OF u(2), of "2 * f div 8388608" "2 * f mod 8388608"] g 1 u(1) by (auto simp: fmag_def)
  next
    case 2
    then have x: "drop_bit 23 uf AND 0xFF \<noteq> 0" "(drop_bit 23 uf AND 0xFF) XOR 0xFE \<noteq> 0" "(drop_bit 23 uf AND 0xFF) XOR 0xFF \<noteq> 0"
      using eu unfolding xor_zero by auto
    have "float_twice uf = uf + 0x00800000" using x by (simp add: float_twice_def)
    also have "\<dots> = fields s (e + 1) f" by (simp add: u(1) fields_def algebra_simps)
    finally have t: "float_twice uf = fields s (e + 1) f" .
    have "(2::nat) ^ e = 2 * 2 ^ (e - 1)" using 2(1) by (cases e) simp_all
    then show ?thesis using t fields_get [OF u(2), of "e + 1" f] g 2 u(1,4) by (simp add: fmag_def)
  next
    case 3
    then have x: "drop_bit 23 uf AND 0xFF = 0xFE" using eu by (simp add: word_unat_eq_iff)
    have "fields s 0 0 OR of_nat (255 * 8388608) = fields s 0 0 + of_nat (255 * 8388608)"
      by (rule or_low) (simp add: low_unat)
    also have "\<dots> = fields s 255 0" by (rule fields_eq) simp
    finally have "float_twice uf = fields s 255 0"
      using x sign_part [of uf] g(3) u(1) by (simp add: float_twice_def)
    then show ?thesis using fields_get [OF u(2), of 255 0] g 3 u(1) by simp
  next
    case 4
    then have x: "drop_bit 23 uf AND 0xFF = 0xFF" using eu by (simp add: word_unat_eq_iff)
    then show ?thesis using g 4 u(1) by (simp add: float_twice_def)
  qed
qed

subsection \<open>float_i2f\<close>

fun ndigits :: "nat \<Rightarrow> nat" where
  "ndigits a = (if a = 0 then 0 else Suc (ndigits (a div 2)))"

declare ndigits.simps [simp del]

text \<open>The multiple of \<open>2^k\<close> next to \<open>a\<close>, the even one of two that are as near.\<close>

definition round_even :: "nat \<Rightarrow> nat \<Rightarrow> nat" where
  "round_even k a =
    (let q = a div 2 ^ k; r = a mod 2 ^ k
     in (q + (if 2 ^ k < 2 * r \<or> 2 * r = 2 ^ k \<and> odd q then 1 else 0)) * 2 ^ k)"

lemma ndigits_bounds: "a < 2 ^ ndigits a" "0 < a \<Longrightarrow> 2 ^ (ndigits a - 1) \<le> a" "ndigits a = 0 \<longleftrightarrow> a = 0"
proof -
  have "a < 2 ^ ndigits a \<and> (0 < a \<longrightarrow> 2 ^ (ndigits a - 1) \<le> a \<and> 0 < ndigits a)"
  proof (induction a rule: ndigits.induct)
    case (1 a)
    show ?case
    proof (cases "a = 0")
      case False
      then have n: "ndigits a = Suc (ndigits (a div 2))" by (subst ndigits.simps) simp
      note IH = 1 [OF False]
      have "(2::nat) ^ ndigits (a div 2) \<le> a"
      proof (cases "a div 2 = 0")
        case True
        then show ?thesis using False by (simp add: ndigits.simps [of 0])
      next
        case d: False
        then obtain m where m: "ndigits (a div 2) = Suc m" using IH by (cases "ndigits (a div 2)") auto
        then have "2 * 2 ^ m \<le> 2 * (a div 2)" using IH d by simp
        then show ?thesis using m by simp
      qed
      moreover have "a < 2 * 2 ^ ndigits (a div 2)" using IH by linarith
      ultimately show ?thesis by (simp add: n)
    qed simp
  qed
  then show "a < 2 ^ ndigits a" "0 < a \<Longrightarrow> 2 ^ (ndigits a - 1) \<le> a" "ndigits a = 0 \<longleftrightarrow> a = 0"
    by (auto simp: ndigits.simps [of 0])
qed

lemma i2f_digits_eq: "i2f_digits b t = b + of_nat (ndigits (unat t))"
proof (induction b t rule: i2f_digits.induct)
  case (1 b t)
  show ?case
  proof (cases "t = 0")
    case True
    then show ?thesis by (simp add: i2f_digits.simps [of b 0] ndigits.simps [of 0])
  next
    case False
    then have n: "ndigits (unat t) = Suc (ndigits (unat t div 2))" by (subst ndigits.simps) (simp add: unat_eq_zero)
    have "i2f_digits b t = i2f_digits (b + 1) (drop_bit 1 t)" using False by (subst i2f_digits.simps) simp
    then show ?thesis using 1 [OF False] n by (simp add: unat_shr)
  qed
qed

text \<open>The second loop drops \<open>k\<close> digits and remembers whether one of them was 1.\<close>

lemma i2f_lose_eq:
  "2 ^ (24 + k) \<le> unat f \<Longrightarrow> unat f < 2 ^ (25 + k) \<Longrightarrow>
   i2f_lose f c = (drop_bit k f, c OR (if unat f mod 2 ^ k = 0 then 0 else 1))"
proof (induction k arbitrary: f c)
  case 0
  then have "drop_bit 25 f = 0" by (simp add: word_unat_eq_iff unat_shr)
  then show ?case by (simp add: i2f_lose.simps [of f])
next
  case (Suc k)
  have "unat f div 2 ^ 25 \<noteq> 0"
  proof -
    have "(2::nat) ^ 25 \<le> 2 ^ (24 + Suc k)" by (intro power_increasing) simp_all
    then show ?thesis using Suc.prems(1) by simp
  qed
  then have ne: "drop_bit 25 f \<noteq> 0" by (simp add: word_unat_eq_iff unat_shr)
  let ?g = "drop_bit 1 f"
  have g: "unat ?g = unat f div 2" by (simp add: unat_shr)
  have p: "(2::nat) ^ (24 + Suc k) = 2 * 2 ^ (24 + k)" "(2::nat) ^ (25 + Suc k) = 2 * 2 ^ (25 + k)" by (simp_all only: add_Suc_right power_Suc)
  have "2 ^ (24 + k) \<le> unat ?g" "unat ?g < 2 ^ (25 + k)" using Suc.prems unfolding g p by linarith+
  note IH = Suc.IH [OF this, of "c OR (f AND 1)"]
  have m: "unat f mod 2 ^ Suc k = unat f mod 2 + 2 * (unat f div 2 mod 2 ^ k)"
    using mod_mult2_eq [of "unat f" 2 "2 ^ k"] by simp
  have b: "f AND 1 = (if unat f mod 2 = 0 then 0 else 1)"
  proof -
    have "unat (f AND 1) = unat f mod 2" using unat_mask [of f 1] by simp
    then show ?thesis by (auto simp: word_unat_eq_iff)
  qed
  have "i2f_lose f c = i2f_lose ?g (c OR (f AND 1))" using ne by (subst i2f_lose.simps) simp
  also have "\<dots> = (drop_bit k ?g, (c OR (f AND 1)) OR (if unat f div 2 mod 2 ^ k = 0 then 0 else 1))"
    using IH unfolding g .
  also have "\<dots> = (drop_bit (Suc k) f, c OR (if unat f mod 2 ^ Suc k = 0 then 0 else 1))"
    unfolding b m by (auto simp: or.assoc)
  finally show ?case .
qed

lemma bit0_odd: "bit (x :: c_uint) 0 \<longleftrightarrow> odd (unat x)"
  using bit_unsigned_iff [where 'a = nat, of x 0] by (simp add: bit_0 [of "unat x"])

text \<open>The rounded quotient of the case with too many digits.\<close>

lemma i2f_round:
  assumes "unat f = a" "2 ^ (24 + k) \<le> a" "a < 2 ^ (25 + k)"
  defines "q \<equiv> a div 2 ^ Suc k" and "r \<equiv> a mod 2 ^ Suc k"
  defines "m \<equiv> q + (if 2 ^ Suc k < 2 * r \<or> 2 * r = 2 ^ Suc k \<and> odd q then 1 else 0)"
  shows "(let (f, c) = i2f_lose f 0 in drop_bit 1 f + (f AND (c OR drop_bit 1 f) AND 1)) = of_nat m"
    and "8388608 \<le> m \<and> m \<le> 16777216"
proof -
  let ?g = "drop_bit k f" and ?c = "if a mod 2 ^ k = 0 then 0 else 1 :: c_uint"
  have g: "unat ?g = a div 2 ^ k" using assms(1) by (simp add: unat_shr)
  have q: "q = a div 2 ^ k div 2" unfolding q_def by (simp only: power_Suc2 div_mult2_eq)
  have r: "r = 2 ^ k * (a div 2 ^ k mod 2) + a mod 2 ^ k"
    unfolding r_def using mod_mult2_eq [of a "2 ^ k" 2] by (simp add: mult.commute)
  have lt: "a mod 2 ^ k < 2 ^ k" by simp
  have up: "(2 ^ Suc k < 2 * r \<or> 2 * r = 2 ^ Suc k \<and> odd q) \<longleftrightarrow> odd (a div 2 ^ k) \<and> (a mod 2 ^ k \<noteq> 0 \<or> odd q)"
  proof (cases "odd (a div 2 ^ k)")
    case True
    then have "r = 2 ^ k + a mod 2 ^ k" unfolding r by (simp add: odd_iff_mod_2_eq_one)
    then show ?thesis using True by auto
  next
    case False
    then have "r < 2 ^ k" using lt unfolding r by simp
    then show ?thesis using False by auto
  qed
  have l: "i2f_lose f 0 = (?g, ?c)" using i2f_lose_eq [of k f 0] assms(1-3) by simp
  have b: "?g AND (?c OR drop_bit 1 ?g) AND 1 = of_bool (odd (a div 2 ^ k) \<and> (a mod 2 ^ k \<noteq> 0 \<or> odd q))"
  proof -
    have "bit ?g 0 \<longleftrightarrow> odd (a div 2 ^ k)" by (simp only: bit0_odd g)
    moreover have "bit (drop_bit 1 ?g) 0 \<longleftrightarrow> odd q" by (simp only: bit0_odd unat_shr assms(1) q power_one_right)
    moreover have "bit ?c 0 \<longleftrightarrow> a mod 2 ^ k \<noteq> 0" by simp
    ultimately have "bit (?g AND (?c OR drop_bit 1 ?g)) 0 \<longleftrightarrow> odd (a div 2 ^ k) \<and> (a mod 2 ^ k \<noteq> 0 \<or> odd q)"
      unfolding bit_and_iff bit_or_iff by blast
    then show ?thesis using and_1_eq [of "?g AND (?c OR drop_bit 1 ?g)"] by (simp only: and.assoc)
  qed
  have d: "drop_bit 1 ?g = of_nat q"
  proof (rule word_unat_eq_iff [THEN iffD2])
    have "unat (drop_bit 1 ?g) = q" by (simp only: unat_shr assms(1) q power_one_right)
    then show "unat (drop_bit 1 ?g) = unat (of_nat q :: c_uint)" by (metis of_nat_unat ucast_id)
  qed
  show "(let (f, c) = i2f_lose f 0 in drop_bit 1 f + (f AND (c OR drop_bit 1 f) AND 1)) = of_nat m"
    unfolding l Let_def case_prod_conv b unfolding d m_def up by simp
  have "a div 2 ^ Suc k < 2 ^ 24" using assms(3) by (intro less_mult_imp_div_less) (simp add: power_add)
  moreover have "2 ^ 23 \<le> a div 2 ^ Suc k" using assms(2) by (simp add: less_eq_div_iff_mult_less_eq power_add)
  ultimately show "8388608 \<le> m \<and> m \<le> 16777216" unfolding m_def q_def by simp
qed

text \<open>The last two statements put the fields together.\<close>

lemma i2f_pack:
  assumes "e < 256" "m < 4294967296"
  shows "fields s 0 0 OR (of_nat m AND 0x007FFFFF) OR push_bit 23 (of_nat e) = fields s e (m mod 8388608)"
proof -
  let ?f = "of_nat m AND 0x007FFFFF :: c_uint"
  have "unat ?f = m mod 8388608"
    unfolding c_consts unat_mask using assms(2) by (simp add: unat_of_nat take_bit_nat_eq_self)
  then have f: "?f = of_nat (m mod 8388608)" by (metis of_nat_unat ucast_id)
  have "?f OR push_bit 23 (of_nat e) = ?f + push_bit 23 (of_nat e)"
    by (rule disjunctive_add [symmetric]) (auto simp only: bit_rules)
  also have "\<dots> = of_nat (e * 8388608 + m mod 8388608)" unfolding f by (simp add: push_bit_eq_mult)
  finally have fe: "?f OR push_bit 23 (of_nat e) = of_nat (e * 8388608 + m mod 8388608)" .
  have "m mod 8388608 < 8388608" by simp
  then have "unat (of_nat (e * 8388608 + m mod 8388608) :: c_uint) < 2147483648"
    using assms(1) by (subst low_unat) linarith+
  then show ?thesis unfolding or.assoc fe by (simp only: or_low) (rule fields_eq, rule refl)
qed

lemma sword_neg: "x <s 0 \<longleftrightarrow> sint (x :: c_int) < 0"
  by (simp add: word_sless_alt)

lemma abs_unat: "unat (if sint x < 0 then NOT x + 1 else x) = nat \<bar>sint (x :: c_int)\<bar>"
proof -
  have "NOT x + 1 = - x" by (simp add: minus_eq_not_plus_1)
  moreover have "uint (- x) = - sint x" if "sint x < 0"
  proof -
    have "- x = word_of_int (- sint x)" using word_of_int_sint32 [of x] by (simp only: wi_hom_neg [symmetric])
    then have "uint (- x) = take_bit 32 (- sint x)" by (simp only: uint_word_of_int_eq) simp
    also have "\<dots> = - sint x" using that sint32_bounds [of x] by (intro take_bit_int_eq_self) simp_all
    finally show ?thesis .
  qed
  moreover have "uint x = sint x" if "\<not> sint x < 0"
  proof -
    have "(of_bool (sint x < 0) :: int) = 0" using that by (simp only: of_bool_eq)
    then show ?thesis using sint32_eq [of x] by linarith
  qed
  ultimately show ?thesis unfolding unat_eq_nat_uint by (cases "sint x < 0") (simp_all only: if_True if_False, simp_all)
qed

text \<open>\<open>float_i2f\<close> in terms of the significand \<open>m\<close> and the number of digits \<open>b\<close> it settles for.\<close>

definition i2f_sig :: "nat \<Rightarrow> nat \<times> nat" where
  "i2f_sig a =
    (let n = ndigits a
     in if n \<le> 24 then (a * 2 ^ (24 - n), n)
        else let m = round_even (n - 24) a div 2 ^ (n - 24) in (m, if m = 16777216 then n + 1 else n))"

lemma i2f_sig_small:
  assumes "i2f_sig a = (m, b)" "0 < a" "ndigits a \<le> 24"
  shows "b = ndigits a" "m = a * 2 ^ (24 - b)" "8388608 \<le> m" "m < 16777216"
proof -
  show b: "b = ndigits a" and m: "m = a * 2 ^ (24 - b)" using assms by (auto simp: i2f_sig_def Let_def)
  have n: "0 < b" "2 ^ (b - 1) \<le> a" "a < 2 ^ b" using ndigits_bounds [of a] assms(2) unfolding b by auto
  have "2 ^ (b - 1) * 2 ^ (24 - b) \<le> m" "m < 2 ^ b * 2 ^ (24 - b)" using n unfolding m by simp_all
  moreover have "b - 1 + (24 - b) = 23" "b + (24 - b) = 24" using n(1) assms(3) b by simp_all
  ultimately show "8388608 \<le> m" "m < 16777216" unfolding power_add [symmetric] by simp_all
qed

lemma i2f_sig_large:
  assumes "i2f_sig a = (m, b)" "24 < ndigits a" "unat f = a"
  shows "(let (f, c) = i2f_lose f 0 in drop_bit 1 f + (f AND (c OR drop_bit 1 f) AND 1)) = of_nat m"
    and "8388608 \<le> m \<and> m \<le> 16777216" and "m * 2 ^ (ndigits a - 24) = round_even (ndigits a - 24) a"
    and "b = (if m = 16777216 then ndigits a + 1 else ndigits a)"
proof -
  obtain k where k: "ndigits a = 25 + k" using assms(2) by (metis Suc_leI le_Suc_ex eval_nat_numeral(3))
  then have e: "ndigits a - 24 = Suc k" by simp
  have "0 < a" using assms(2) ndigits_bounds(3) [of a] by linarith
  then have "2 ^ (24 + k) \<le> a" "a < 2 ^ (25 + k)" using ndigits_bounds(1,2) [of a] unfolding k by simp_all
  note r = i2f_round [OF assms(3) this]
  have m: "m = a div 2 ^ Suc k + (if 2 ^ Suc k < 2 * (a mod 2 ^ Suc k) \<or> 2 * (a mod 2 ^ Suc k) = 2 ^ Suc k \<and> odd (a div 2 ^ Suc k) then 1 else 0)"
    and b: "b = (if m = 16777216 then ndigits a + 1 else ndigits a)"
    using assms(1,2) unfolding i2f_sig_def Let_def e round_even_def by (auto simp del: power_Suc)
  show "(let (f, c) = i2f_lose f 0 in drop_bit 1 f + (f AND (c OR drop_bit 1 f) AND 1)) = of_nat m"
    unfolding m by (rule r(1))
  show "8388608 \<le> m \<and> m \<le> 16777216" unfolding m by (rule r(2))
  show "m * 2 ^ (ndigits a - 24) = round_even (ndigits a - 24) a" unfolding m e round_even_def Let_def ..
  show "b = (if m = 16777216 then ndigits a + 1 else ndigits a)" by (rule b)
qed

lemma i2f_eq:
  assumes "0 < a" "a < 4294967296" "a = nat \<bar>sint x\<bar>" "i2f_sig a = (m, b)"
  shows "float_i2f x = fields (of_bool (sint x < 0)) (b + 126) (m mod 8388608)"
proof -
  let ?t = "if sint x < 0 then NOT x + 1 else x" and ?s = "of_bool (sint x < 0) :: nat"
  define n where "n = ndigits a"
  have t: "unat ?t = a" using abs_unat [of x] assms(3) by (simp only:)
  have n: "0 < n" "2 ^ (n - 1) \<le> a" "a < 2 ^ n" using ndigits_bounds [of a] assms(1) unfolding n_def by auto
  have "(2::nat) ^ (n - 1) < 2 ^ 32" using n(2) assms(2) by simp
  then have n32: "n \<le> 32" using power_less_imp_less_exp [of "2::nat" "n - 1" 32] by simp
  have dig: "i2f_digits 0 ?t = of_nat n" using i2f_digits_eq [of 0 ?t] t unfolding n_def by simp
  have b: "0 < b \<and> b \<le> 33 \<and> m < 4294967296"
  proof (cases "n \<le> 24")
    case True
    then show ?thesis using i2f_sig_small [OF assms(4,1)] n(1) unfolding n_def by linarith
  next
    case False
    then have g: "24 < ndigits a" unfolding n_def by simp
    have "m < 4294967296" using i2f_sig_large(2) [OF assms(4) g t] by linarith
    moreover have "b = n \<or> b = n + 1" using i2f_sig_large(4) [OF assms(4) g t] unfolding n_def by metis
    ultimately show ?thesis using n(1) n32 by linarith
  qed
  have "c_sar x 31 \<noteq> 0 \<longleftrightarrow> sint x < 0" by (simp add: c_ops sar31)
  then have st: "(if c_sar x 31 \<noteq> 0 then (0x80000000, NOT x + 1) else (0, x)) = (fields ?s 0 0, ?t)"
    by (simp add: fields_def)
  have end': "(fields ?s 0 0 OR (of_nat m AND 0x007FFFFF)) OR c_shl (of_nat b + 126) 23 = fields ?s (b + 126) (m mod 8388608)"
    using i2f_pack [of "b + 126" m ?s] b by (simp add: c_ops or.assoc)
  have b0: "(if of_nat b = (0 :: c_int) then - 126 else of_nat b) = (of_nat b :: c_int)"
  proof -
    have "unat (of_nat b :: c_int) = b" using b by (intro low_unat) linarith
    then have "of_nat b \<noteq> (0 :: c_int)" using b by (metis less_irrefl unat_0)
    then show ?thesis by simp
  qed
  have "24 - of_nat n = (word_of_int (24 - int n) :: c_int)" by simp
  then have s: "24 - of_nat n <s (0 :: c_int) \<longleftrightarrow> 24 < n"
    using sint_word_of_int32 [of "24 - int n"] n32 unfolding sword_neg by (simp only:) linarith
  show ?thesis
  proof (cases "n \<le> 24")
    case True
    note sm = i2f_sig_small [OF assms(4,1), folded n_def, OF True]
    have "unat (24 - of_nat n :: c_int) = 24 - n"
      using True by (simp add: unat_sub_if' unat_of_nat take_bit_nat_eq_self)
    moreover have "?t = of_nat a" using t [symmetric] by (simp only: of_nat_unat ucast_id)
    ultimately have sh: "c_shl ?t (24 - of_nat n) = of_nat m" unfolding sm(2) sm(1) by (simp add: c_ops push_bit_eq_mult)
    show ?thesis
      unfolding float_i2f_def st Let_def case_prod_conv dig using s True sh b0 end' sm(1)
      by (simp only: not_le [symmetric] if_False case_prod_conv refl not_True_eq_False)
  next
    case False
    then have g: "24 < ndigits a" unfolding n_def by simp
    note lg = i2f_sig_large [OF assms(4) g t, folded n_def]
    have sF: "24 - of_nat n <s (0 :: c_int)" using s False by linarith
    obtain f c where fc: "i2f_lose ?t 0 = (f, c)" by fastforce
    then have m: "drop_bit 1 f + (f AND (c OR drop_bit 1 f) AND 1) = of_nat m" using lg(1) by (simp only: Let_def case_prod_conv)
    have "unat (of_nat m :: c_uint) = m" using lg(2) by (intro low_unat) linarith
    then have "unat (drop_bit 24 (of_nat m :: c_uint)) = m div 16777216" by (simp add: unat_shr)
    then have d: "drop_bit 24 (of_nat m :: c_uint) \<noteq> 0 \<longleftrightarrow> m = 16777216"
      using lg(2) by (simp add: unat_eq_zero [symmetric] div_eq_0_iff del: unat_eq_zero) auto
    have bb: "(if m = 16777216 then of_nat n + 1 else of_nat n) = (of_nat b :: c_int)" using lg(4) by simp
    have sh: "c_shl (of_nat m) 0 = of_nat m" by (simp add: c_ops)
    show ?thesis
      unfolding float_i2f_def st Let_def case_prod_conv dig
      by (simp only: sF if_True case_prod_conv refl not_False_eq_True fc m d bb b0 sh end')
  qed
qed

lemma float_i2f_spec:
  "let r = float_i2f x; a = nat \<bar>sint x\<bar>
   in fsign r = of_bool (sint x < 0) \<and> fexp r < 255 \<and> fmag r = round_even (ndigits a - 24) a * 2 ^ 149"
proof -
  define a where "a = nat \<bar>sint x\<bar>"
  obtain m b where mb: "i2f_sig a = (m, b)" by fastforce
  have a: "a < 4294967296" using sint32_bounds [of x] unfolding a_def by linarith
  have s2: "(of_bool (sint x < 0) :: nat) < 2" by simp
  show ?thesis
  proof (cases "a = 0")
    case True
    then have "x = 0" using sint_eq_iff [of x 0] unfolding a_def by simp
    then have "float_i2f x = fields 0 0 0"
      using i2f_digits_eq [of 0 0] by (simp add: float_i2f_def c_ops fields_def ndigits.simps [of 0] sword_neg)
    then show ?thesis using fields_get [of 0 0 0] True unfolding a_def
      by (simp add: Let_def fmag_def round_even_def ndigits.simps [of 0] del: zero_less_abs_iff)
  next
    case False
    then have p: "0 < a" by simp
    note r = i2f_eq [OF p a a_def mb]
    have "8388608 \<le> m \<and> m \<le> 16777216 \<and> 0 < b \<and> b + 126 < 255 \<and>
      (if m = 16777216 then 2 ^ (b + 148) else m * 2 ^ (b + 125)) = round_even (ndigits a - 24) a * 2 ^ 149"
    proof (cases "ndigits a \<le> 24")
      case True
      note sm = i2f_sig_small [OF mb p True]
      have "0 < b" using p ndigits_bounds(3) [of a] unfolding sm(1) by simp
      moreover have "round_even 0 a = a" by (simp add: round_even_def)
      moreover have "m * 2 ^ (b + 125) = a * 2 ^ 149"
      proof -
        have "24 - b + (b + 125) = 149" using True sm(1) by simp
        then have "(2::nat) ^ (24 - b) * 2 ^ (b + 125) = 2 ^ 149" by (metis power_add)
        then show ?thesis unfolding sm(2) mult.assoc by (simp only:)
      qed
      ultimately show ?thesis using sm True by simp
    next
      case False
      then have g: "24 < ndigits a" by simp
      have u: "unat (if sint x < 0 then NOT x + 1 else x) = a" using abs_unat [of x] unfolding a_def .
      note lg = i2f_sig_large [OF mb g u]
      have "ndigits a \<le> 32"
      proof -
        have "(2::nat) ^ (ndigits a - 1) < 2 ^ 32" using ndigits_bounds(2) [OF p] a by simp
        then show ?thesis using power_less_imp_less_exp [of "2::nat" "ndigits a - 1" 32] by simp
      qed
      moreover have "m * 2 ^ (ndigits a + 125) = round_even (ndigits a - 24) a * 2 ^ 149"
      proof -
        have "ndigits a - 24 + 149 = ndigits a + 125" using g by simp
        then have "(2::nat) ^ (ndigits a - 24) * 2 ^ 149 = 2 ^ (ndigits a + 125)" by (metis power_add)
        then show ?thesis unfolding lg(3) [symmetric] mult.assoc by (simp only:)
      qed
      moreover have "(16777216::nat) * 2 ^ (ndigits a + 125) = 2 ^ (ndigits a + 1 + 148)"
        by (simp add: power_add)
      ultimately show ?thesis using lg(2,4) g by (auto simp del: power_add)
    qed
    then have m: "8388608 \<le> m \<and> m \<le> 16777216" "0 < b" "b + 126 < 255"
      and v: "(if m = 16777216 then 2 ^ (b + 148) else m * 2 ^ (b + 125)) = round_even (ndigits a - 24) a * 2 ^ 149"
      by (simp_all only:)
    have mm: "m mod 8388608 + 8388608 = (if m = 16777216 then 8388608 else m)"
      using m(1) by (auto simp: mod_if)
    have g: "fexp (float_i2f x) = b + 126" "ffrac (float_i2f x) = m mod 8388608"
      "fsign (float_i2f x) = of_bool (sint x < 0)"
      unfolding r by (rule fields_get [OF s2]; use m in simp)+
    have "fmag (float_i2f x) = (m mod 8388608 + 8388608) * 2 ^ (b + 125)" unfolding fmag_def g by simp
    also have "\<dots> = (if m = 16777216 then 2 ^ (b + 148) else m * 2 ^ (b + 125))"
      unfolding mm by (simp add: power_add)
    also have "\<dots> = round_even (ndigits a - 24) a * 2 ^ 149" by (rule v)
    finally show ?thesis unfolding Let_def a_def [symmetric] using g m(3) by (simp only:)
  qed
qed

subsection \<open>The properties\<close>

text \<open>C37: \<open>float_i2f\<close> converts every \<open>int\<close>: the result is a finite number with the
  sign of the argument, and its magnitude is that of the argument, rounded to 24 significant binary
  digits, to the nearest and a tie to even.\<close>

theorem float_i2f_correct:
  "let r = float_i2f x; a = nat \<bar>sint x\<bar>
   in fsign r = of_bool (sint x < 0) \<and> fexp r < 255 \<and> fmag r = round_even (ndigits a - 24) a * 2 ^ 149"
  by (rule float_i2f_spec)

text \<open>\<open>float_twice\<close> keeps the sign and doubles the magnitude of every number
  whose double is representable, denormalised numbers and those that become normalised included;
  the numbers with the largest exponent become infinite, infinities and NaNs stay as they are.\<close>

lemma float_twice_correct:
  "if fexp uf = 255 then float_twice uf = uf
   else fsign (float_twice uf) = fsign uf \<and>
     (if fexp uf = 254 then fexp (float_twice uf) = 255 \<and> ffrac (float_twice uf) = 0
      else fexp (float_twice uf) \<noteq> 255 \<and> fmag (float_twice uf) = 2 * fmag uf)"
  by (rule float_twice_spec)

end
