(* ===== verification/Ieee.thy ===== *)
theory Ieee
  imports Floats
begin

text \<open>
  The references of the floating point puzzles, \<open>datalab-handout/tests.c\<close>. They compute with C's
  \<open>float\<close>, single precision numbers of IEEE 754 in the default rounding mode: the exact result is
  rounded to 24 significant binary digits, to the nearest and a tie to even, and is infinite when
  it is too large. A finite number is its sign and its magnitude in units of \<open>2^-149\<close>, the
  smallest positive one. The puzzles return what the references return.
\<close>

subsection \<open>Numbers\<close>

datatype ieee = NaN | Infinite nat | Finite nat nat

definition u2f :: "c_uint \<Rightarrow> ieee" where
  "u2f uf = (if fexp uf = 255 then (if ffrac uf = 0 then Infinite (fsign uf) else NaN) else Finite (fsign uf) (fmag uf))"

fun f2u :: "ieee \<Rightarrow> c_uint" where
  "f2u NaN = fields 0 255 4194304"
| "f2u (Infinite s) = fields s 255 0"
| "f2u (Finite s m) =
    (if m < 8388608 then fields s 0 m
     else fields s (ndigits m - 23) (m div 2 ^ (ndigits m - 24) - 8388608))"

definition rounded :: "nat \<Rightarrow> nat \<Rightarrow> ieee" where
  "rounded s a = (let m = round_even (ndigits a - 24) a in if 2 ^ 277 \<le> m then Infinite s else Finite s m)"

fun f_neg :: "ieee \<Rightarrow> ieee" where
  "f_neg NaN = NaN"
| "f_neg (Infinite s) = Infinite (1 - s)"
| "f_neg (Finite s m) = Finite (1 - s) m"

fun f_twice :: "ieee \<Rightarrow> ieee" where
  "f_twice NaN = NaN"
| "f_twice (Infinite s) = Infinite s"
| "f_twice (Finite s m) = rounded s (2 * m)"

definition f_of_int :: "int \<Rightarrow> ieee" where
  "f_of_int i = rounded (of_bool (i < 0)) (nat \<bar>i\<bar> * 2 ^ 149)"

subsection \<open>The references\<close>

definition test_float_neg :: "c_uint \<Rightarrow> c_uint" where
  "test_float_neg uf = (let f = u2f uf; nf = f_neg f in if f = NaN then uf else f2u nf)"

definition test_float_i2f :: "c_int \<Rightarrow> c_uint" where
  "test_float_i2f x = (let f = f_of_int (sint x) in f2u f)"

definition test_float_twice :: "c_uint \<Rightarrow> c_uint" where
  "test_float_twice uf = (let f = u2f uf; tf = f_twice f in if f = NaN then uf else f2u tf)"

subsection \<open>Numbers that need no rounding\<close>

lemma ndigits_unique:
  assumes "2 ^ n \<le> a" "a < 2 ^ Suc n"
  shows "ndigits a = Suc n"
proof -
  have p: "0 < a" using assms(1) by (metis less_le_trans zero_less_numeral zero_less_power)
  have "2 ^ (ndigits a - 1) < (2::nat) ^ Suc n" using ndigits_bounds(2) [OF p] assms(2) by linarith
  then have "ndigits a - 1 < Suc n" by (rule power_less_imp_less_exp [rotated]) simp
  moreover have "(2::nat) ^ n < 2 ^ ndigits a" using ndigits_bounds(1) [of a] assms(1) by linarith
  then have "n < ndigits a" by (rule power_less_imp_less_exp [rotated]) simp
  ultimately show ?thesis by linarith
qed

lemma ndigits_shift: "0 < a \<Longrightarrow> ndigits (a * 2 ^ k) = ndigits a + k"
proof -
  assume a: "0 < a"
  obtain n where n: "ndigits a = Suc n" using ndigits_bounds(3) [of a] a by (cases "ndigits a") auto
  have b: "2 ^ n \<le> a" "a < 2 ^ Suc n" using ndigits_bounds(2) [OF a] ndigits_bounds(1) [of a] unfolding n by simp_all
  have "2 ^ (n + k) \<le> a * 2 ^ k" unfolding power_add using b(1) by (rule mult_le_mono1)
  moreover have "a * 2 ^ k < 2 ^ Suc (n + k)" unfolding add_Suc [symmetric] power_add using b(2) by (simp del: power_Suc)
  ultimately have "ndigits (a * 2 ^ k) = Suc (n + k)" by (rule ndigits_unique)
  then show ?thesis using n by simp
qed

lemma round_exact: "2 ^ k dvd a \<Longrightarrow> round_even k a = a"
  by (simp add: round_even_def)

lemma round_shift: "round_even (k + j) (a * 2 ^ j) = round_even k a * 2 ^ j"
proof -
  have d: "(a * 2 ^ j) div 2 ^ (k + j) = a div 2 ^ k" by (simp add: power_add)
  have m: "(a * 2 ^ j) mod 2 ^ (k + j) = a mod 2 ^ k * 2 ^ j" by (simp add: power_add mult_mod_left)
  have "2 ^ (k + j) < 2 * (a mod 2 ^ k * 2 ^ j) \<longleftrightarrow> 2 ^ k < 2 * (a mod 2 ^ k)"
    "2 * (a mod 2 ^ k * 2 ^ j) = 2 ^ (k + j) \<longleftrightarrow> 2 * (a mod 2 ^ k) = 2 ^ k"
    by (simp_all add: power_add mult.assoc [symmetric])
  then show ?thesis unfolding round_even_def d m Let_def by (simp add: power_add)
qed

lemma normal_digits:
  assumes "f < 8388608"
  shows "ndigits ((f + 8388608) * 2 ^ k) = 24 + k"
proof -
  have "ndigits (f + 8388608) = Suc 23" using assms by (intro ndigits_unique) simp_all
  then show ?thesis using ndigits_shift [of "f + 8388608" k] by simp
qed

lemma f2u_u2f: "u2f uf \<noteq> NaN \<Longrightarrow> f2u (u2f uf) = uf"
proof -
  assume nn: "u2f uf \<noteq> NaN"
  obtain s e f where u: "uf = fields s e f" "s < 2" "e < 256" "f < 8388608" by (rule fields_cases)
  note g = fields_get [OF u(2-4)]
  consider "e = 255" | "e = 0" | "0 < e" "e \<noteq> 255" by linarith
  then show ?thesis
  proof cases
    case 1
    then show ?thesis using nn g unfolding u(1) by (auto simp: u2f_def split: if_splits)
  next
    case 2
    then show ?thesis using g u(4) unfolding u(1) by (simp add: u2f_def fmag_def)
  next
    case 3
    let ?m = "(f + 8388608) * 2 ^ (e - 1)"
    have m: "u2f uf = Finite s ?m" using 3 g unfolding u(1) by (simp add: u2f_def fmag_def)
    have n: "ndigits ?m = 24 + (e - 1)" by (rule normal_digits [OF u(4)])
    have "8388608 * 1 \<le> ?m" by (rule mult_le_mono) simp_all
    then have "\<not> ?m < 8388608" by simp
    then have "f2u (Finite s ?m) = fields s (ndigits ?m - 23) (?m div 2 ^ (ndigits ?m - 24) - 8388608)" by simp
    also have "\<dots> = fields s e f" using 3(1) unfolding n by simp
    finally show ?thesis using m u(1) by simp
  qed
qed

subsection \<open>The puzzles against the references\<close>

lemma float_neg_eq: "float_neg uf = test_float_neg uf"
proof (cases "u2f uf = NaN")
  case True
  then have "fexp uf = 255 \<and> ffrac uf \<noteq> 0" by (simp add: u2f_def split: if_splits)
  then show ?thesis using True float_neg_correct [of uf] by (simp add: test_float_neg_def)
next
  case False
  then have "\<not> (fexp uf = 255 \<and> ffrac uf \<noteq> 0)" by (auto simp: u2f_def split: if_splits)
  then have n: "fexp (float_neg uf) = fexp uf" "ffrac (float_neg uf) = ffrac uf" "fsign (float_neg uf) = 1 - fsign uf"
    using float_neg_correct [of uf] by (simp_all split: if_splits)
  then have "u2f (float_neg uf) = f_neg (u2f uf)" by (simp add: u2f_def fmag_def)
  moreover have "f_neg (u2f uf) \<noteq> NaN" using False by (cases "u2f uf") simp_all
  ultimately show ?thesis using False f2u_u2f [of "float_neg uf"] by (simp add: test_float_neg_def)
qed

lemma twice_exact: "fexp uf \<noteq> 255 \<Longrightarrow> round_even (ndigits (2 * fmag uf) - 24) (2 * fmag uf) = 2 * fmag uf"
proof -
  obtain s e f where u: "uf = fields s e f" "s < 2" "e < 256" "f < 8388608" by (rule fields_cases)
  note g = fields_get [OF u(2-4)]
  show ?thesis
  proof (cases "e = 0")
    case True
    then have "2 * fmag uf < 2 ^ 24" using g u(1,4) by (simp add: fmag_def)
    then have "ndigits (2 * fmag uf) \<le> 24"
    proof (cases "2 * fmag uf = 0")
      case False
      then have "2 ^ (ndigits (2 * fmag uf) - 1) < (2::nat) ^ 24"
        using ndigits_bounds(2) [of "2 * fmag uf"] \<open>2 * fmag uf < 2 ^ 24\<close> by linarith
      then have "ndigits (2 * fmag uf) - 1 < 24" by (rule power_less_imp_less_exp [rotated]) simp
      then show ?thesis by linarith
    qed (simp add: ndigits.simps [of 0])
    then show ?thesis by (intro round_exact) simp
  next
    case False
    then have "2 ^ e = (2 * 2 ^ (e - 1) :: nat)" by (cases e) simp_all
    then have m: "2 * fmag uf = (f + 8388608) * 2 ^ e" using g u(1) False by (simp add: fmag_def)
    show ?thesis unfolding m normal_digits [OF u(4)] by (intro round_exact) simp
  qed
qed

lemma mag_small: "fexp uf \<noteq> 255 \<Longrightarrow> fexp uf \<noteq> 254 \<Longrightarrow> 2 * fmag uf < 2 ^ 277"
proof -
  assume e: "fexp uf \<noteq> 255" "fexp uf \<noteq> 254"
  have b: "fexp uf < 256" "ffrac uf < 8388608" unfolding field_unat by simp_all
  then have "fexp uf - 1 \<le> 252" using e by simp
  then have "(2::nat) ^ (fexp uf - 1) \<le> 2 ^ 252" by (rule power_increasing) simp
  then have "(ffrac uf + 8388608) * 2 ^ (fexp uf - 1) \<le> (ffrac uf + 8388608) * 2 ^ 252" by (rule mult_le_mono2)
  also have "\<dots> < 16777216 * 2 ^ 252" using b(2) by simp
  finally show ?thesis using b(2) unfolding fmag_def by simp
qed

lemma mag_large: "fexp uf = 254 \<Longrightarrow> 2 ^ 277 \<le> 2 * fmag uf"
  unfolding fmag_def by simp

lemma float_twice_eq: "float_twice uf = test_float_twice uf"
proof (cases "fexp uf = 255")
  case True
  then have t: "float_twice uf = uf" using float_twice_spec [of uf] by simp
  show ?thesis
  proof (cases "ffrac uf = 0")
    case f: True
    then have "u2f uf = Infinite (fsign uf)" using True by (simp add: u2f_def)
    then show ?thesis using t f2u_u2f [of uf] by (simp add: test_float_twice_def)
  next
    case False
    then have "u2f uf = NaN" using True by (simp add: u2f_def)
    then show ?thesis using t by (simp add: test_float_twice_def)
  qed
next
  case False
  then have u: "u2f uf = Finite (fsign uf) (fmag uf)" by (simp add: u2f_def)
  have r: "rounded (fsign uf) (2 * fmag uf) = (if 2 ^ 277 \<le> 2 * fmag uf then Infinite (fsign uf) else Finite (fsign uf) (2 * fmag uf))"
    unfolding rounded_def twice_exact [OF False] Let_def ..
  have "u2f (float_twice uf) = f_twice (u2f uf)"
    using float_twice_spec [of uf] False mag_small [of uf] mag_large [of uf] unfolding u f_twice.simps r
    by (cases "fexp uf = 254") (simp_all add: u2f_def not_le)
  moreover have "f_twice (u2f uf) \<noteq> NaN" unfolding u f_twice.simps r by simp
  ultimately show ?thesis using f2u_u2f [of "float_twice uf"] u by (simp add: test_float_twice_def)
qed

lemma float_i2f_eq: "float_i2f x = test_float_i2f x"
proof -
  let ?r = "float_i2f x" and ?a = "nat \<bar>sint x\<bar>" and ?s = "of_bool (sint x < 0) :: nat"
  have i: "fsign ?r = ?s" "fexp ?r < 255" "fmag ?r = round_even (ndigits ?a - 24) ?a * 2 ^ 149"
    using float_i2f_spec [of x] by (simp_all add: Let_def)
  have e: "round_even (ndigits (?a * 2 ^ 149) - 24) (?a * 2 ^ 149) = round_even (ndigits ?a - 24) ?a * 2 ^ 149"
  proof (cases "24 \<le> ndigits ?a")
    case True
    then have "0 < ?a" using ndigits_bounds(3) [of ?a] by (cases "?a = 0") auto
    then have "ndigits (?a * 2 ^ 149) - 24 = (ndigits ?a - 24) + 149" using True ndigits_shift [of ?a 149] by linarith
    then show ?thesis by (simp only: round_shift)
  next
    case False
    have "ndigits (?a * 2 ^ 149) - 24 \<le> 149"
      using False ndigits_shift [of ?a 149] by (cases "?a = 0") (simp_all add: ndigits.simps [of 0])
    then have "(2::nat) ^ (ndigits (?a * 2 ^ 149) - 24) dvd ?a * 2 ^ 149" by (intro dvd_mult le_imp_power_dvd)
    moreover have "round_even (ndigits ?a - 24) ?a = ?a" using False by (intro round_exact) simp
    ultimately show ?thesis using round_exact by simp
  qed
  have b: "fmag ?r < 2 ^ 277"
  proof -
    have f: "ffrac ?r < 8388608" unfolding field_unat by simp
    have "(2::nat) ^ (fexp ?r - 1) \<le> 2 ^ 253" using i(2) by (intro power_increasing) simp_all
    then have "(ffrac ?r + 8388608) * 2 ^ (fexp ?r - 1) \<le> (ffrac ?r + 8388608) * 2 ^ 253" by (rule mult_le_mono2)
    also have "\<dots> < 16777216 * 2 ^ 253" using f by simp
    finally show ?thesis using f unfolding fmag_def by simp
  qed
  have "f_of_int (sint x) = Finite ?s (fmag ?r)"
    unfolding f_of_int_def rounded_def e Let_def i(3) [symmetric] using b by (simp del: of_bool_eq)
  also have "\<dots> = u2f ?r" using i(1,2) by (simp add: u2f_def)
  finally show ?thesis using f2u_u2f [of ?r] i(2) by (simp add: test_float_i2f_def u2f_def)
qed

end
