(* ===== verification/CLib.thy ===== *)
theory CLib
  imports Main "HOL-Library.Word"
begin

text \<open>
  What the programs use of the C library on strings, shared by the shell and the proxy. A string
  is the list of its characters before the terminating NUL. \<open>cut c s\<close> is \<open>strchr\<close> as the programs
  use it, with the NUL they write over the delimiter: the text before the first \<open>c\<close> and the text
  behind it. \<open>dec\<close> is the \<open>%d\<close> conversion of \<open>printf\<close>, \<open>strtol\<close> the conversion in base 10 with the
  64-bit \<open>long\<close> of the hosts these two programs are built for (their Makefiles do not ask for
  \<open>-m32\<close>), and \<open>to_int\<close> the conversion of a \<open>long\<close> to \<open>int\<close>.
\<close>

subsection \<open>strchr\<close>

fun cut :: "char \<Rightarrow> string \<Rightarrow> (string \<times> string) option" where
  "cut c [] = None"
| "cut c (x # xs) = (if x = c then Some ([], xs) else map_option (\<lambda>(w, r). (x # w, r)) (cut c xs))"

fun skip :: "char \<Rightarrow> string \<Rightarrow> string" where
  "skip c [] = []"
| "skip c (x # xs) = (if x = c then skip c xs else x # xs)"

lemma cut_length: "cut c s = Some (w, r) \<Longrightarrow> length s = Suc (length w + length r)"
  by (induction s arbitrary: w) (auto split: if_splits)

lemma cut_some: "cut c s = Some (w, r) \<Longrightarrow> s = w @ c # r \<and> c \<notin> set w"
  by (induction s arbitrary: w) (auto split: if_splits)

lemma cut_none: "cut c s = None \<longleftrightarrow> c \<notin> set s"
  by (induction s) auto

lemma cut_append [simp]: "c \<notin> set w \<Longrightarrow> cut c (w @ c # r) = Some (w, r)"
  by (induction w) auto

lemma skip_length: "length (skip c s) \<le> length s"
  by (induction s) auto

lemma skip_replicate [simp]: "skip c (replicate n c @ s) = skip c s"
  by (induction n) auto

lemma skip_id: "s = [] \<or> hd s \<noteq> c \<Longrightarrow> skip c s = s"
  by (cases s) auto

subsection \<open>Numbers in decimal\<close>

definition digit :: "nat \<Rightarrow> char" where
  "digit n = char_of (48 + n)"

fun dec_nat :: "nat \<Rightarrow> string" where
  "dec_nat n = (if n < 10 then [digit n] else dec_nat (n div 10) @ [digit (n mod 10)])"

declare dec_nat.simps [simp del]

definition dec :: "int \<Rightarrow> string" where
  "dec i = (if i < 0 then CHR ''-'' # dec_nat (nat (- i)) else dec_nat (nat i))"

definition is_digit :: "char \<Rightarrow> bool" where
  "is_digit c \<longleftrightarrow> 48 \<le> (of_char c :: nat) \<and> (of_char c :: nat) \<le> 57"

definition is_space :: "char \<Rightarrow> bool" where
  "is_space c \<longleftrightarrow> (of_char c :: nat) = 32 \<or> 9 \<le> (of_char c :: nat) \<and> (of_char c :: nat) \<le> 13"

text \<open>The digits at the head of a string, as a number, and the rest.\<close>

fun digits :: "nat \<Rightarrow> string \<Rightarrow> nat \<times> string" where
  "digits acc [] = (acc, [])"
| "digits acc (c # s) = (if is_digit c then digits (10 * acc + (of_char c - 48)) s else (acc, c # s))"

definition clamp :: "int \<Rightarrow> int" where
  "clamp i = max (- (2 ^ 63)) (min (2 ^ 63 - 1) i)"

definition to_int :: "int \<Rightarrow> int" where
  "to_int i = signed_take_bit 31 i"

text \<open>The number and the rest behind it; without digits the number is 0 and the rest the whole string.\<close>

definition strtol :: "string \<Rightarrow> int \<times> string" where
  "strtol s =
    (let t = dropWhile is_space s;
         neg = (t \<noteq> [] \<and> hd t = CHR ''-'');
         u = (if t \<noteq> [] \<and> (hd t = CHR ''-'' \<or> hd t = CHR ''+'') then tl t else t)
     in if u = [] \<or> \<not> is_digit (hd u) then (0, s)
        else let (n, r) = digits 0 u in (clamp (if neg then - int n else int n), r))"

lemma digit_facts:
  assumes "n < 10"
  shows "is_digit (digit n)" "of_char (digit n) = 48 + n"
  using assms by (simp_all add: is_digit_def digit_def)

lemma digit_table:
  "digit 0 = CHR ''0''" "digit (Suc 0) = CHR ''1''" "digit 2 = CHR ''2''" "digit 3 = CHR ''3''" "digit 4 = CHR ''4''"
  "digit 5 = CHR ''5''" "digit 6 = CHR ''6''" "digit 7 = CHR ''7''" "digit 8 = CHR ''8''" "digit 9 = CHR ''9''"
  by (simp_all add: digit_def char_of_def bit_0)

lemma digits_append: "\<forall>c\<in>set ds. is_digit c \<Longrightarrow> digits acc (ds @ r) = digits (fst (digits acc ds)) r"
  by (induction ds arbitrary: acc) auto

lemma dec_nat_digits: "\<forall>c\<in>set (dec_nat n). is_digit c"
proof (induction n rule: dec_nat.induct)
  case (1 n)
  then show ?case by (subst dec_nat.simps) (auto simp: digit_facts)
qed

lemma dec_nat_ne [simp]: "dec_nat n \<noteq> []"
  by (subst dec_nat.simps) simp

lemma digits_dec: "fst (digits 0 (dec_nat n)) = n"
proof (induction n rule: dec_nat.induct)
  case (1 n)
  show ?case
  proof (cases "n < 10")
    case True
    then show ?thesis by (subst dec_nat.simps) (simp add: digit_facts)
  next
    case False
    have d: "n mod 10 < 10" by simp
    have "digits 0 (dec_nat (n div 10) @ [digit (n mod 10)]) = digits (n div 10) [digit (n mod 10)]"
      using digits_append [OF dec_nat_digits] 1 [OF False] by simp
    then show ?thesis using False digit_facts [OF d] by (subst dec_nat.simps) simp
  qed
qed

text \<open>\<open>strtol\<close> reads back what \<open>%d\<close> prints.\<close>

lemma strtol_dec:
  assumes "- (2 ^ 63) \<le> i" "i < 2 ^ 63"
  shows "strtol (dec i) = (i, [])"
proof -
  have D: "digits 0 (dec_nat n) = (n, [])" for n
  proof -
    have "snd (digits acc ds) = []" if "\<forall>c\<in>set ds. is_digit c" for acc ds
      using that by (induction ds arbitrary: acc) auto
    then show ?thesis using digits_dec [of n] dec_nat_digits [of n] by (metis prod.collapse)
  qed
  have H: "is_digit (hd (dec_nat n))" for n using dec_nat_digits [of n] dec_nat_ne [of n] hd_in_set by blast
  have ns: "is_digit c \<Longrightarrow> \<not> is_space c \<and> c \<noteq> CHR ''-'' \<and> c \<noteq> CHR ''+''" for c
    by (auto simp: is_digit_def is_space_def)
  have W: "dropWhile is_space (dec_nat n) = dec_nat n" for n
    using H [of n] ns by (cases "dec_nat n") auto
  have "\<not> is_space CHR ''-''" by (simp add: is_space_def)
  then show ?thesis
    using assms H [of "nat i"] H [of "nat (- i)"] ns [OF H [of "nat i"]] D W
    by (auto simp: strtol_def dec_def Let_def clamp_def)
qed

subsection \<open>getopt\<close>

text \<open>The options of a command line as \<open>getopt\<close> finds them, each with its argument: \<open>sp c\<close> tells
  whether \<open>c\<close> is an option and takes an argument. Words that are no options are passed over, as GNU
  does, and \<open>--\<close> ends the options; a character that is no option and an argument that is missing
  give \<open>?\<close>. \<open>cluster\<close> reads one word, with the words behind it.\<close>

fun cluster :: "(char \<Rightarrow> bool option) \<Rightarrow> string \<Rightarrow> string list \<Rightarrow> (char \<times> string) list \<times> string list" where
  "cluster sp [] ws = ([], ws)"
| "cluster sp (c # cs) ws = (case sp c of
     None \<Rightarrow> (case cluster sp cs ws of (os, ws) \<Rightarrow> ((CHR ''?'', []) # os, ws))
   | Some False \<Rightarrow> (case cluster sp cs ws of (os, ws) \<Rightarrow> ((c, []) # os, ws))
   | Some True \<Rightarrow>
       if cs \<noteq> [] then ([(c, cs)], ws)
       else (case ws of [] \<Rightarrow> ([(CHR ''?'', [])], []) | w # ws \<Rightarrow> ([(c, w)], ws)))"

lemma cluster_length: "length (snd (cluster sp cs ws)) \<le> length ws"
  by (induction sp cs ws rule: cluster.induct) (auto split: option.split bool.split prod.split list.split)

function getopt :: "(char \<Rightarrow> bool option) \<Rightarrow> string list \<Rightarrow> (char \<times> string) list" where
  "getopt sp [] = []"
| "getopt sp (w # ws) =
    (if w = ''--'' then []
     else if 1 < length w \<and> hd w = CHR ''-''
     then fst (cluster sp (tl w) ws) @ getopt sp (snd (cluster sp (tl w) ws))
     else getopt sp ws)"
  by pat_completeness auto
termination
  by (relation "measure (\<lambda>(sp, ws). length ws)") (auto simp: le_imp_less_Suc [OF cluster_length])

text \<open>The specification \<open>"f:t:hv"\<close>.\<close>

fun optstring :: "string \<Rightarrow> char \<Rightarrow> bool option" where
  "optstring [] c = None"
| "optstring (d # ds) c =
    (if d = c \<and> c \<noteq> CHR '':'' then Some (ds \<noteq> [] \<and> hd ds = CHR '':'') else optstring ds c)"

end
