(* ===== verification/Btest.thy ===== *)
theory Btest
  imports Complex_Main Bits Ieee CLib
begin

text \<open>
  The test harness of the bit puzzles: \<open>datalab-handout/btest.c\<close> with the table of \<open>decl.c\<close> and the
  types of \<open>btest.h\<close>. A function under test takes the list of its arguments; it may not return
  (\<open>None\<close>). The results of \<open>rand\<close> are a function of the number of the call, \<open>strtof\<close> is an
  argument, and \<open>alarms\<close> says when alarms come: before which tests are done (\<open>slow\<close>), and, since nothing
  cancels the alarm of a test that is done, in which tests that of an earlier one before they have set
  their own (\<open>stale\<close>). \<open>rand\<close> is divided exactly, where C computes with \<open>double\<close>. A run ends, or the program exits, or it
  does something undefined or hangs (\<open>Fails\<close>).
\<close>

datatype 'a run = Done 'a | Exits | Fails

subsection \<open>The table of the puzzles\<close>

type_synonym funct = "c_int list \<Rightarrow> c_int option"

record test_rec =
  t_name :: string
  t_solution :: funct
  t_test :: funct
  t_args :: int
  t_ops :: string
  t_op_limit :: int
  t_rating :: int
  t_ranges :: "(int \<times> int) list"

definition TMin :: int where "TMin = - 2147483648"
definition TMax :: int where "TMax = 2147483647"

definition fun0 :: "c_int \<Rightarrow> funct" where "fun0 c = (\<lambda>_. Some c)"
definition fun1 :: "(c_int \<Rightarrow> c_int) \<Rightarrow> funct" where "fun1 f = (\<lambda>xs. Some (f (xs ! 0)))"
definition fun2 :: "(c_int \<Rightarrow> c_int \<Rightarrow> c_int) \<Rightarrow> funct" where "fun2 f = (\<lambda>xs. Some (f (xs ! 0) (xs ! 1)))"

definition puzzle :: "string \<Rightarrow> funct \<Rightarrow> funct \<Rightarrow> int \<Rightarrow> string \<Rightarrow> int \<Rightarrow> int \<Rightarrow> (int \<times> int) list \<Rightarrow> test_rec" where
  "puzzle name f ft args ops op_limit rating ranges =
    \<lparr>t_name = name, t_solution = f, t_test = ft, t_args = args, t_ops = ops, t_op_limit = op_limit,
     t_rating = rating, t_ranges = ranges\<rparr>"

definition test_set :: "test_rec list" where
  "test_set =
    (let any = (TMin, TMax)
     in [puzzle ''bitAnd'' (fun2 bitAnd) (fun2 test_bitAnd) 2 ''| ~'' 8 1 [any, any, any],
         puzzle ''getByte'' (fun2 getByte) (fun2 test_getByte) 2 ''! ~ & ^ | + << >>'' 6 2 [any, (0, 3), any],
         puzzle ''logicalShift'' (fun2 logicalShift) (fun2 test_logicalShift) 2 ''! ~ & ^ | + << >>'' 20 3 [any, (0, 31), any],
         puzzle ''bitCount'' (fun1 bitCount) (fun1 test_bitCount) 1 ''! ~ & ^ | + << >>'' 40 4 [any, any, any],
         puzzle ''bang'' (fun1 bang) (fun1 test_bang) 1 ''~ & ^ | + << >>'' 12 4 [any, any, any],
         puzzle ''tmin'' (fun0 tmin) (fun0 test_tmin) 0 ''! ~ & ^ | + << >>'' 4 1 [any, any, any],
         puzzle ''fitsBits'' (fun2 fitsBits) (fun2 test_fitsBits) 2 ''! ~ & ^ | + << >>'' 15 2 [any, (1, 32), any],
         puzzle ''divpwr2'' (fun2 divpwr2) (fun2 test_divpwr2) 2 ''! ~ & ^ | + << >>'' 15 2 [any, (0, 30), any],
         puzzle ''negate'' (fun1 negate) (fun1 test_negate) 1 ''! ~ & ^ | + << >>'' 5 2 [any, any, any],
         puzzle ''isPositive'' (fun1 isPositive) (fun1 test_isPositive) 1 ''! ~ & ^ | + << >>'' 8 3 [any, any, any],
         puzzle ''isLessOrEqual'' (fun2 isLessOrEqual) (fun2 test_isLessOrEqual) 2 ''! ~ & ^ | + << >>'' 24 3 [any, any, any],
         puzzle ''ilog2'' (fun1 ilog2) (\<lambda>xs. test_ilog2 (xs ! 0)) 1 ''! ~ & ^ | + << >>'' 90 4 [(1, TMax), any, any],
         puzzle ''float_neg'' (fun1 float_neg) (fun1 test_float_neg) 1 ''$'' 10 2 [(1, 1), (1, 1), (1, 1)],
         puzzle ''float_i2f'' (fun1 float_i2f) (fun1 test_float_i2f) 1 ''$'' 30 4 [(1, 1), (1, 1), (1, 1)],
         puzzle ''float_twice'' (fun1 float_twice) (fun1 test_float_twice) 1 ''$'' 30 4 [(1, 1), (1, 1), (1, 1)]])"

subsection \<open>The settings of the command line\<close>

record btest =
  grade :: bool
  timeout_limit :: int
  test_fname :: "string option"
  has_arg :: "bool list"
  argval :: "c_uint list"
  global_rating :: int

definition TIMEOUT_LIMIT :: int where "TIMEOUT_LIMIT = 10"
definition TEST_RANGE :: nat where "TEST_RANGE = 500000"
definition MAX_TEST_VALS :: int where "MAX_TEST_VALS = 13 * 500000"

definition defaults :: btest where
  "defaults = \<lparr>grade = False, timeout_limit = TIMEOUT_LIMIT, test_fname = None,
     has_arg = [False, False, False], argval = [0, 0, 0], global_rating = 0\<rparr>"

subsection \<open>The values to test\<close>

definition trunc :: "real \<Rightarrow> int" where
  "trunc x = (if x < 0 then \<lceil>x\<rceil> else \<lfloor>x\<rfloor>)"

definition random_val :: "nat \<Rightarrow> nat \<Rightarrow> int \<Rightarrow> int \<Rightarrow> int" where
  "random_val r RAND_MAX mn mx =
    (let weight = real r / real RAND_MAX
     in trunc (real_of_int mn * (1 - weight) + real_of_int mx * weight))"

definition float_vals :: "c_uint \<Rightarrow> c_uint list" where
  "float_vals i =
    (let smallest_norm = 0x00800000; one = 0x3f800000; largest_norm = 0x7f000000; sign = 0x80000000
     in [i, sign OR i,
         smallest_norm + i, smallest_norm - i, sign OR (smallest_norm + i), sign OR (smallest_norm - i),
         one + i, one - i, sign OR (one + i), sign OR (one - i),
         largest_norm - i, sign OR (largest_norm - i)])"

definition float_specials :: "c_uint list" where
  "float_specials =
    (let inf = 0x7f800000; nan = 0x7fc00000; sign = 0x80000000 in [inf, sign OR inf, nan, sign OR nan])"

definition int_vals :: "int \<Rightarrow> int \<Rightarrow> int \<Rightarrow> int \<Rightarrow> int list" where
  "int_vals mn mx rv i =
    [mn + i, mx - i] @ (if i \<ge> mn \<and> i \<le> mx then [i] else []) @
    (if - i \<ge> mn \<and> - i \<le> mx then [- i] else []) @ [rv]"

text \<open>The values and the number of the next call of \<open>rand\<close>. \<open>None\<close>: an addition overflows, the loop
  runs past the largest \<open>int\<close>, or the array is too short.\<close>

definition fits :: "c_int list \<Rightarrow> nat \<Rightarrow> (c_int list \<times> nat) option" where
  "fits vs k = (if int (length vs) \<le> MAX_TEST_VALS then Some (vs, k) else None)"

definition gen_vals :: "btest \<Rightarrow> (nat \<Rightarrow> nat) \<Rightarrow> nat \<Rightarrow> nat \<Rightarrow> int \<times> int \<Rightarrow> nat \<Rightarrow> nat \<Rightarrow> (c_int list \<times> nat) option" where
  "gen_vals c rnd RAND_MAX k bounds test_range arg =
    (let (mn, mx) = bounds
     in if has_arg c ! arg then fits [argval c ! arg] k
        else if mn = 1 \<and> mx = 1
        then let test_range = (if test_range > 2 ^ 23 then 2 ^ 23 else test_range)
             in fits (concat (map (\<lambda>i. float_vals (of_nat i)) [0..<test_range]) @ float_specials) k
        else if mx - MAX_TEST_VALS < TMin then None
        else if mx - MAX_TEST_VALS \<le> mn
        then (if mx = TMax then None else fits (map word_of_int [mn..mx]) k)
        else fits (concat (map (\<lambda>i. map word_of_int (int_vals mn mx (random_val (rnd (k + i)) RAND_MAX mn mx) (int i)))
               [0..<test_range])) (k + test_range))"

subsection \<open>Testing a function\<close>

definition test_0_arg :: "funct \<Rightarrow> funct \<Rightarrow> nat option" where
  "test_0_arg f ft = do { r \<leftarrow> f []; rt \<leftarrow> ft []; Some (if r \<noteq> rt then 1 else 0) }"

definition test_1_arg :: "funct \<Rightarrow> funct \<Rightarrow> c_int \<Rightarrow> nat option" where
  "test_1_arg f ft a1 = do { r \<leftarrow> f [a1]; rt \<leftarrow> ft [a1]; Some (if r \<noteq> rt then 1 else 0) }"

definition test_2_arg :: "funct \<Rightarrow> funct \<Rightarrow> c_int \<Rightarrow> c_int \<Rightarrow> nat option" where
  "test_2_arg f ft a1 a2 = do { r \<leftarrow> f [a1, a2]; rt \<leftarrow> ft [a1, a2]; Some (if r \<noteq> rt then 1 else 0) }"

definition test_3_arg :: "funct \<Rightarrow> funct \<Rightarrow> c_int \<Rightarrow> c_int \<Rightarrow> c_int \<Rightarrow> nat option" where
  "test_3_arg f ft a1 a2 a3 =
    do { r \<leftarrow> f [a1, a2, a3]; rt \<leftarrow> ft [a1, a2, a3]; Some (if r \<noteq> rt then 1 else 0) }"

text \<open>A loop over test values, which stops at the first error.\<close>

fun until_error :: "('a \<Rightarrow> nat option) \<Rightarrow> 'a list \<Rightarrow> nat option" where
  "until_error g [] = Some 0"
| "until_error g (v # vs) = do { e \<leftarrow> g v; if e \<noteq> 0 then Some e else until_error g vs }"

text \<open>The powers 0.5 and 0.333 of \<open>TEST_RANGE\<close>, 707.1... and 79.02..., as the conversion to \<open>int\<close>
  leaves them.\<close>

definition test_range_of :: "int \<Rightarrow> nat" where
  "test_range_of args = (if args = 1 then TEST_RANGE else if args = 2 then 707 else 79)"

fun gen_args :: "btest \<Rightarrow> (nat \<Rightarrow> nat) \<Rightarrow> nat \<Rightarrow> nat \<Rightarrow> (int \<times> int) list \<Rightarrow> nat \<Rightarrow> nat list \<Rightarrow> (c_int list list \<times> nat) option" where
  "gen_args c rnd RAND_MAX k ranges test_range [] = Some ([], k)"
| "gen_args c rnd RAND_MAX k ranges test_range (i # is) = do {
     (vs, k) \<leftarrow> gen_vals c rnd RAND_MAX k (ranges ! i) test_range i;
     (vss, k) \<leftarrow> gen_args c rnd RAND_MAX k ranges test_range is;
     Some (vs # vss, k) }"

definition test_loops :: "funct \<Rightarrow> funct \<Rightarrow> int \<Rightarrow> c_int list list \<Rightarrow> nat option" where
  "test_loops f ft args vals =
    (if args = 0 then test_0_arg f ft
     else until_error (\<lambda>a1.
       if args = 1 then test_1_arg f ft a1
       else until_error (\<lambda>a2.
         if args = 2 then test_2_arg f ft a1 a2
         else until_error (\<lambda>a3. test_3_arg f ft a1 a2 a3) (vals ! 2)) (vals ! 1)) (vals ! 0))"

record alarms =
  slow :: "string \<Rightarrow> bool"
  stale :: "string \<Rightarrow> bool"

text \<open>An alarm of an earlier test jumps into a call of \<open>test_function\<close> that has returned.\<close>

definition test_function :: "btest \<Rightarrow> (nat \<Rightarrow> nat) \<Rightarrow> nat \<Rightarrow> alarms \<Rightarrow> nat \<Rightarrow> test_rec \<Rightarrow> (nat \<times> nat) run" where
  "test_function c rnd RAND_MAX al k t =
    (if t_args t < 0 \<or> 3 < t_args t then Exits
     else case gen_args c rnd RAND_MAX k (t_ranges t) (test_range_of (t_args t)) [0..<nat (t_args t)] of
       None \<Rightarrow> Fails
     | Some (vals, k) \<Rightarrow>
         let r = test_loops (t_solution t) (t_test t) (t_args t) vals
         in if timeout_limit c > 0 \<and> stale al (t_name t) then Fails
            else if timeout_limit c > 0 \<and> (r = None \<or> slow al (t_name t)) then Done (1, k)
            else case r of None \<Rightarrow> Fails | Some e \<Rightarrow> Done (e, k))"

subsection \<open>Running the tests\<close>

record score =
  s_errors :: nat
  s_points :: int
  s_max_points :: int
  s_lines :: "(int \<times> int \<times> nat \<times> string) list"

fun run_tests_loop :: "btest \<Rightarrow> (nat \<Rightarrow> nat) \<Rightarrow> nat \<Rightarrow> alarms \<Rightarrow> nat \<Rightarrow> test_rec list \<Rightarrow> score \<Rightarrow> score run" where
  "run_tests_loop c rnd RAND_MAX al k [] s = Done s"
| "run_tests_loop c rnd RAND_MAX al k (t # ts) s =
    (if test_fname c = None \<or> test_fname c = Some (t_name t)
     then let rating = (if global_rating c \<noteq> 0 then global_rating c else t_rating t)
       in case test_function c rnd RAND_MAX al k t of
         Exits \<Rightarrow> Exits
       | Fails \<Rightarrow> Fails
       | Done (terrors, k) \<Rightarrow>
           let tscore = (if terrors = 0 then 1 else 0);
               tpoints = rating * tscore
           in run_tests_loop c rnd RAND_MAX al k ts
                \<lparr>s_errors = s_errors s + terrors, s_points = s_points s + tpoints,
                 s_max_points = s_max_points s + rating,
                 s_lines = s_lines s @ (if grade c \<or> terrors < 1 then [(tpoints, rating, terrors, t_name t)] else [])\<rparr>
     else run_tests_loop c rnd RAND_MAX al k ts s)"

definition run_tests :: "btest \<Rightarrow> (nat \<Rightarrow> nat) \<Rightarrow> nat \<Rightarrow> alarms \<Rightarrow> score run" where
  "run_tests c rnd RAND_MAX al =
    run_tests_loop c rnd RAND_MAX al 0 test_set \<lparr>s_errors = 0, s_points = 0, s_max_points = 0, s_lines = []\<rparr>"

subsection \<open>The command line\<close>

text \<open>\<open>strtoll\<close> in base 0 and \<open>atoi\<close> of a 32-bit host, whose \<open>long\<close> has 32 bits.\<close>

definition digit_of :: "char \<Rightarrow> nat" where
  "digit_of ch =
    (let n = (of_char ch :: nat)
     in if 48 \<le> n \<and> n \<le> 57 then n - 48 else if 97 \<le> n \<and> n \<le> 122 then n - 87
        else if 65 \<le> n \<and> n \<le> 90 then n - 55 else 99)"

fun digits_in :: "nat \<Rightarrow> nat \<Rightarrow> string \<Rightarrow> nat \<times> string" where
  "digits_in b acc [] = (acc, [])"
| "digits_in b acc (ch # s) = (if digit_of ch < b then digits_in b (b * acc + digit_of ch) s else (acc, ch # s))"

definition strtoll :: "string \<Rightarrow> int \<times> string" where
  "strtoll s =
    (let t = dropWhile is_space s;
         neg = (t \<noteq> [] \<and> hd t = CHR ''-'');
         u = (if t \<noteq> [] \<and> (hd t = CHR ''-'' \<or> hd t = CHR ''+'') then tl t else t);
         hex = (2 < length u \<and> hd u = CHR ''0'' \<and> (u ! 1 = CHR ''x'' \<or> u ! 1 = CHR ''X'') \<and> digit_of (u ! 2) < 16);
         b = (if hex then 16 else if u \<noteq> [] \<and> hd u = CHR ''0'' then 8 else 10);
         u = (if hex then drop 2 u else u)
     in if u = [] \<or> \<not> digit_of (hd u) < b then (0, s)
        else let (n, r) = digits_in b 0 u in (clamp (if neg then - int n else int n), r))"

definition atoi32 :: "string \<Rightarrow> int" where
  "atoi32 s = max TMin (min TMax (fst (strtol s)))"

definition get_num_val :: "(string \<Rightarrow> c_uint \<times> string) \<Rightarrow> string \<Rightarrow> c_uint \<Rightarrow> bool \<times> c_uint" where
  "get_num_val strtof sval val =
    (let (ishex, isfloat) = foldl (\<lambda>(ishex, isfloat) ch.
           if ch = CHR ''x'' \<or> ch = CHR ''X'' then (True, isfloat)
           else if ch = CHR ''e'' \<or> ch = CHR ''E'' then (ishex, isfloat \<or> \<not> ishex)
           else if ch = CHR ''.'' then (ishex, True)
           else (ishex, isfloat)) (False, False) sval
     in if isfloat
        then (case strtof sval of (fval, endp) \<Rightarrow> if endp = [] then (True, fval) else (False, val))
        else let (llval, endp) = strtoll sval; upperbits = drop_bit 31 llval
             in if val = 0 \<and> (upperbits = 0 \<or> upperbits = - 1 \<or> upperbits = 1)
                then (True, word_of_int llval) else (False, val))"

text \<open>The options as \<open>getopt\<close> finds them; \<open>None\<close> when the program exits with a message.\<close>

definition set_arg :: "(string \<Rightarrow> c_uint \<times> string) \<Rightarrow> nat \<Rightarrow> string \<Rightarrow> btest \<Rightarrow> btest option" where
  "set_arg strtof i optarg c =
    (case get_num_val strtof optarg (argval c ! i) of (has, val) \<Rightarrow>
       let c = c\<lparr>argval := (argval c)[i := val], has_arg := (has_arg c)[i := has]\<rparr>
       in if has then Some c else None)"

fun parse_options :: "(string \<Rightarrow> c_uint \<times> string) \<Rightarrow> (char \<times> string) list \<Rightarrow> btest \<Rightarrow> btest option" where
  "parse_options strtof [] c = Some c"
| "parse_options strtof ((opt, optarg) # os) c =
    (if opt = CHR ''h'' then None
     else if opt = CHR ''g'' then parse_options strtof os (c\<lparr>grade := True\<rparr>)
     else if opt = CHR ''f'' then parse_options strtof os (c\<lparr>test_fname := Some optarg\<rparr>)
     else if opt = CHR ''r''
     then if atoi32 optarg < 0 then None else parse_options strtof os (c\<lparr>global_rating := atoi32 optarg\<rparr>)
     else if opt = CHR ''1'' then do { c \<leftarrow> set_arg strtof 0 optarg c; parse_options strtof os c }
     else if opt = CHR ''2'' then do { c \<leftarrow> set_arg strtof 1 optarg c; parse_options strtof os c }
     else if opt = CHR ''3'' then do { c \<leftarrow> set_arg strtof 2 optarg c; parse_options strtof os c }
     else if opt = CHR ''T'' then parse_options strtof os (c\<lparr>timeout_limit := atoi32 optarg\<rparr>)
     else None)"

definition btest_main :: "(string \<Rightarrow> c_uint \<times> string) \<Rightarrow> (nat \<Rightarrow> nat) \<Rightarrow> nat \<Rightarrow> alarms \<Rightarrow> string list \<Rightarrow> score run" where
  "btest_main strtof rnd RAND_MAX al args =
    (case parse_options strtof (getopt (optstring ''hgf:r:T:1:2:3:'') args) defaults of
       None \<Rightarrow> Exits | Some c \<Rightarrow> run_tests c rnd RAND_MAX al)"

end
