(* ===== verification/Show.thy ===== *)
theory Show
  imports Btest
begin

text \<open>
  The two programs that display 32-bit patterns, \<open>datalab-handout/ishow.c\<close> and \<open>fshow.c\<close>. A program
  is the text it prints for its arguments; its name, \<open>argv[0]\<close>, is an argument too. Their
  \<open>get_num_val\<close> are copies of the one of the test harness (\<open>Btest\<close>) that test the pointer \<open>valp\<close>,
  never null here, where that one tests \<open>*valp\<close>; the variable \<open>uf\<close> is read only when it has been set.
  Of the C library, \<open>strtof\<close> is an argument as in the harness, and the conversions \<open>%x\<close>, \<open>%u\<close>, \<open>%d\<close>,
  \<open>%.10f\<close> and \<open>%.10g\<close> of \<open>printf\<close> are defined here, the last two on the exact value of the number.

  What the theorems show: each of the three forms in which \<open>ishow\<close> prints a pattern is read back as
  that pattern, by both programs; \<open>ishow\<close> refuses exactly what it says it refuses; the sign, mantissa
  and exponent that \<open>fshow\<close> prints make up the number of the pattern, and its division is exact.
\<close>

subsection \<open>printf\<close>

text \<open>\<open>%x\<close>, and a number with at least \<open>k\<close> digits, as the precision of \<open>%.8x\<close> asks.\<close>

definition hex_digit :: "nat \<Rightarrow> char" where
  "hex_digit n = char_of (if n < 10 then 48 + n else 87 + n)"

fun hex_nat :: "nat \<Rightarrow> string" where
  "hex_nat n = (if n < 16 then [hex_digit n] else hex_nat (n div 16) @ [hex_digit (n mod 16)])"

declare hex_nat.simps [simp del]

definition pad :: "nat \<Rightarrow> string \<Rightarrow> string" where
  "pad k s = replicate (k - length s) CHR ''0'' @ s"

text \<open>The quotient rounded to the nearest number, a tie to the even one; and \<open>%.10f\<close> of the magnitude
  \<open>m * 2^-149\<close>.\<close>

definition round_div :: "nat \<Rightarrow> nat \<Rightarrow> nat" where
  "round_div n d = (let q = n div d; r = n mod d in if d < 2 * r \<or> 2 * r = d \<and> odd q then q + 1 else q)"

definition print_f10 :: "nat \<Rightarrow> string" where
  "print_f10 m =
    (let q = round_div (m * 10 ^ 10) (2 ^ 149)
     in dec_nat (q div 10 ^ 10) @ ''.'' @ pad 10 (dec_nat (q mod 10 ^ 10)))"

text \<open>\<open>%.10g\<close>. \<open>significant\<close> gives the decimal exponent, not less than -45 for a positive number of
  single precision, and the ten digits; \<open>print_g10\<close> prints them with or without an exponent and
  without zeros at the end.\<close>

definition significant :: "nat \<Rightarrow> int \<times> nat" where
  "significant m =
    (let x = int (length (dec_nat (m * 10 ^ 45 div 2 ^ 149))) - 46;
         q = (if x \<le> 9 then round_div (m * 10 ^ nat (9 - x)) (2 ^ 149) else round_div m (2 ^ 149 * 10 ^ nat (x - 9)))
     in if q = 10 ^ 10 then (x + 1, 10 ^ 9) else (x, q))"

definition strip0 :: "string \<Rightarrow> string" where
  "strip0 s = rev (dropWhile (\<lambda>c. c = CHR ''0'') (rev s))"

definition with_point :: "string \<Rightarrow> string \<Rightarrow> string" where
  "with_point i f = (if strip0 f = [] then i else i @ ''.'' @ strip0 f)"

definition print_g10 :: "nat \<Rightarrow> string" where
  "print_g10 m =
    (if m = 0 then ''0''
     else case significant m of (x, q) \<Rightarrow> let ds = dec_nat q in
       if x < - 4 \<or> 10 \<le> x
       then with_point (take 1 ds) (drop 1 ds) @ ''e'' @ (if x < 0 then ''-'' else ''+'') @ pad 2 (dec_nat (nat \<bar>x\<bar>))
       else if 0 \<le> x then with_point (take (Suc (nat x)) ds) (drop (Suc (nat x)) ds)
       else with_point ''0'' (replicate (nat (- x) - 1) CHR ''0'' @ ds))"

definition print_float :: "c_uint \<Rightarrow> string" where
  "print_float uf =
    (if fsign uf = 1 then ''-'' else [])
     @ (case u2f uf of NaN \<Rightarrow> ''nan'' | Infinite _ \<Rightarrow> ''inf'' | Finite _ m \<Rightarrow> print_g10 m)"

definition NL :: string where "NL = [CHR 0x0A]"
definition TAB :: string where "TAB = [CHR 0x09]"

subsection \<open>ishow\<close>

text \<open>The first loop of \<open>get_num_val\<close>, the same in both programs: is it hexadecimal, is it a float.\<close>

definition looks_float :: "string \<Rightarrow> bool" where
  "looks_float sval = snd (foldl (\<lambda>(ishex, isfloat) ch.
     if ch = CHR ''x'' \<or> ch = CHR ''X'' then (True, isfloat)
     else if ch = CHR ''e'' \<or> ch = CHR ''E'' then (ishex, isfloat \<or> \<not> ishex)
     else if ch = CHR ''.'' then (ishex, True)
     else (ishex, isfloat)) (False, False) sval)"

definition int_val :: "string \<Rightarrow> c_uint option" where
  "int_val sval =
    (let (llval, endp) = strtoll sval; upperbits = drop_bit 31 llval
     in if upperbits = 0 \<or> upperbits = - 1 \<or> upperbits = 1 then Some (word_of_int llval) else None)"

definition ishow_num_val :: "string \<Rightarrow> c_uint option" where
  "ishow_num_val sval = (if looks_float sval then None else int_val sval)"

definition show_int :: "c_uint \<Rightarrow> string" where
  "show_int uf =
    ''Hex = 0x'' @ pad 8 (hex_nat (unat uf)) @ '','' @ TAB @ ''Signed = '' @ dec (sint (uf :: c_int)) @ '','' @ TAB
     @ ''Unsigned = '' @ dec_nat (unat uf) @ NL"

definition ishow_usage :: "string \<Rightarrow> string" where
  "ishow_usage fname = ''Usage: '' @ fname @ '' val1 val2 ...'' @ NL @ ''Values may be given in hex or decimal'' @ NL"

definition ishow_main :: "string \<Rightarrow> string list \<Rightarrow> string" where
  "ishow_main fname args =
    (if args = [] then ishow_usage fname
     else concat (map (\<lambda>sval. case ishow_num_val sval of
       Some uf \<Rightarrow> show_int uf
     | None \<Rightarrow> ''Cannot convert '' @ [CHR 0x27] @ sval @ [CHR 0x27] @ '' to 32-bit number'' @ NL) args))"

subsection \<open>fshow\<close>

definition fshow_num_val :: "(string \<Rightarrow> c_uint \<times> string) \<Rightarrow> string \<Rightarrow> c_uint option" where
  "fshow_num_val strtof sval =
    (if looks_float sval
     then (case strtof sval of (fval, endp) \<Rightarrow> if endp = [] then Some fval else None)
     else int_val sval)"

text \<open>\<open>(float) mantissa / (float) (1<<FRAC_SIZE)\<close>: a conversion rounds; the division by a power of two
  divides the magnitude of a converted integer, a multiple of \<open>2^149\<close>, without a remainder.\<close>

fun over_frac :: "ieee \<Rightarrow> ieee" where
  "over_frac (Finite s m) = rounded s (m div 2 ^ 23)"
| "over_frac f = f"

definition show_uexp :: "c_uint \<Rightarrow> c_int" where
  "show_uexp uf = (if get_exp uf = 0 then 1 - 127 else get_exp uf - 127)"

definition show_mantissa :: "c_uint \<Rightarrow> c_int" where
  "show_mantissa uf = (if get_exp uf = 0 then get_frac uf else get_frac uf + push_bit 23 1)"

definition show_float :: "c_uint \<Rightarrow> string" where
  "show_float uf =
    (let exp = get_exp uf; frac = get_frac uf; sign = get_sign uf;
         pm = (if sign \<noteq> 0 then ''-'' else ''+'')
     in NL @ ''Floating point value '' @ print_float uf @ NL
        @ ''Bit Representation 0x'' @ pad 8 (hex_nat (unat uf)) @ '', sign = '' @ hex_nat (unat sign)
        @ '', exponent = 0x'' @ pad 2 (hex_nat (unat exp)) @ '', fraction = 0x'' @ pad 6 (hex_nat (unat frac)) @ NL
        @ (if exp = push_bit 8 1 - 1
           then if frac = 0 then pm @ ''Infinity'' @ NL else ''Not-A-Number'' @ NL
           else (if exp = 0 then ''Denormalized'' else ''Normalized'') @ ''.  '' @ pm
             @ (case over_frac (f_of_int (sint (show_mantissa uf))) of Finite _ m \<Rightarrow> print_f10 m | _ \<Rightarrow> [])
             @ '' X 2^('' @ dec (sint (show_uexp uf)) @ '')'' @ NL))"

definition fshow_usage :: "string \<Rightarrow> string" where
  "fshow_usage fname =
    ''Usage: '' @ fname @ '' val1 val2 ...'' @ NL
     @ ''Values may be given as hex patterns or as floating point numbers'' @ NL"

text \<open>The loop of \<open>main\<close>, which ends the program at the first argument that is no number.\<close>

fun fshow_loop :: "(string \<Rightarrow> c_uint \<times> string) \<Rightarrow> string \<Rightarrow> string list \<Rightarrow> string" where
  "fshow_loop strtof fname [] = []"
| "fshow_loop strtof fname (sval # args) = (case fshow_num_val strtof sval of
     Some uf \<Rightarrow> show_float uf @ fshow_loop strtof fname args
   | None \<Rightarrow> ''Invalid 32-bit number: '' @ [CHR 0x27] @ sval @ [CHR 0x27] @ NL @ fshow_usage fname)"

definition fshow_main :: "(string \<Rightarrow> c_uint \<times> string) \<Rightarrow> string \<Rightarrow> string list \<Rightarrow> string" where
  "fshow_main strtof fname args = (if args = [] then fshow_usage fname else fshow_loop strtof fname args)"

subsection \<open>Numbers in hexadecimal and decimal are read back\<close>

lemma hex_digit_facts: "n < 16 \<Longrightarrow> digit_of (hex_digit n) = n" "n < 16 \<Longrightarrow> hex_digit n \<noteq> CHR ''.''"
proof -
  assume n: "n < 16"
  have c: "(of_char (hex_digit n) :: nat) = (if n < 10 then 48 + n else 87 + n)" using n by (simp add: hex_digit_def)
  show "digit_of (hex_digit n) = n" using n by (simp add: digit_of_def c)
  have "(of_char (hex_digit n) :: nat) \<noteq> of_char CHR ''.''" using n by (simp add: c)
  then show "hex_digit n \<noteq> CHR ''.''" by auto
qed

lemma digits_in_append:
  "\<forall>c\<in>set ds. digit_of c < b \<Longrightarrow> digits_in b acc (ds @ r) = digits_in b (fst (digits_in b acc ds)) r"
  by (induction ds arbitrary: acc) auto

lemma digits_in_all: "\<forall>c\<in>set ds. digit_of c < b \<Longrightarrow> snd (digits_in b acc ds) = []"
  by (induction ds arbitrary: acc) auto

lemma hex_nat_digits: "\<forall>c\<in>set (hex_nat n). digit_of c < 16 \<and> c \<noteq> CHR ''.''"
proof (induction n rule: hex_nat.induct)
  case (1 n)
  then show ?case by (subst (1) hex_nat.simps) (auto simp: hex_digit_facts)
qed

lemma hex_nat_ne [simp]: "hex_nat n \<noteq> []"
  by (subst hex_nat.simps) simp

lemma hex_nat_value: "fst (digits_in 16 0 (hex_nat n)) = n"
proof (induction n rule: hex_nat.induct)
  case (1 n)
  show ?case
  proof (cases "n < 16")
    case False
    have "digits_in 16 0 (hex_nat (n div 16) @ [hex_digit (n mod 16)]) = digits_in 16 (n div 16) [hex_digit (n mod 16)]"
      using digits_in_append hex_nat_digits 1 [OF False] by metis
    then show ?thesis using False by (subst hex_nat.simps) (simp add: hex_digit_facts)
  qed (subst hex_nat.simps, simp add: hex_digit_facts)
qed

lemma digit_of_digit: "is_digit c \<Longrightarrow> digit_of c = of_char c - 48 \<and> digit_of c < 10"
  by (auto simp: is_digit_def digit_of_def)

lemma digits_in_10: "\<forall>c\<in>set ds. is_digit c \<Longrightarrow> digits_in 10 acc ds = digits acc ds"
proof (induction ds arbitrary: acc)
  case (Cons c ds)
  then have "digit_of c = of_char c - 48" "digit_of c < 10" using digit_of_digit [of c] by simp_all
  then show ?case using Cons by simp
qed simp

lemma dec_nat_head: "0 < n \<Longrightarrow> hd (dec_nat n) \<noteq> CHR ''0''"
proof (induction n rule: dec_nat.induct)
  case (1 n)
  have "hd (dec_nat n) = (if n < 10 then digit n else hd (dec_nat (n div 10)))" by (subst dec_nat.simps) simp
  moreover have "digit n \<noteq> CHR ''0''" if "n < 10"
  proof
    assume "digit n = CHR ''0''"
    then have "(of_char (digit n) :: nat) = 48" by simp
    then show False using that 1(2) by (simp add: digit_facts)
  qed
  ultimately show ?case using 1 by simp
qed

lemma strtoll_hex:
  assumes "n < 2 ^ 63"
  shows "strtoll (''0x'' @ pad k (hex_nat n)) = (int n, [])"
proof -
  let ?u = "pad k (hex_nat n)"
  have z0: "digit_of CHR ''0'' = 0" by (simp add: digit_of_def)
  have d: "\<forall>c\<in>set ?u. digit_of c < 16"
  proof
    fix c
    assume "c \<in> set ?u"
    then have "c = CHR ''0'' \<or> c \<in> set (hex_nat n)" unfolding pad_def set_append by (auto simp only: in_set_replicate Un_iff)
    then show "digit_of c < 16" using hex_nat_digits [of n] z0 by (elim disjE) simp_all
  qed
  have ne: "?u \<noteq> []" by (simp add: pad_def)
  then have h: "digit_of (hd ?u) < 16" using d by simp
  have z: "digits_in 16 0 (replicate j CHR ''0'' @ s) = digits_in 16 0 s" for j s
    by (induction j) (simp_all add: z0)
  have v: "digits_in 16 0 ?u = (n, [])"
    using hex_nat_value [of n] digits_in_all [of "hex_nat n" 16 0] hex_nat_digits [of n]
    by (simp add: pad_def z) (metis prod.collapse)
  obtain c s where u: "?u = c # s" using ne by (cases ?u) auto
  show ?thesis using h v assms unfolding u
    by (simp add: strtoll_def is_space_def clamp_def Let_def)
qed

lemma strtoll_dec_nat:
  assumes "n < 2 ^ 63"
  shows "strtoll (dec_nat n) = (int n, [])" "strtoll (CHR ''-'' # dec_nat n) = (- int n, [])"
proof -
  have d: "\<forall>c\<in>set (dec_nat n). is_digit c" by (rule dec_nat_digits)
  obtain c s where u: "dec_nat n = c # s" using dec_nat_ne by (meson neq_Nil_conv)
  have c: "is_digit c" "\<not> is_space c" "c \<noteq> CHR ''-''" "c \<noteq> CHR ''+''"
    using d u by (auto simp: is_digit_def is_space_def)
  have v: "digits_in 10 0 (dec_nat n) = (n, [])"
    using digits_in_10 [OF d] digits_dec [of n] digits_in_all [of "dec_nat n" 10 0] digit_of_digit d
    by (metis prod.collapse)
  have z: "dec_nat n = ''0'' \<and> n = 0" if "c = CHR ''0''"
    using dec_nat_head [of n] u that by (cases n) (simp_all add: dec_nat.simps digit_table)
  have sm: "\<not> is_space CHR ''-''" by (simp add: is_space_def)
  have "strtoll (dec_nat n) = (int n, []) \<and> strtoll (CHR ''-'' # dec_nat n) = (- int n, [])"
  proof (cases "c = CHR ''0''")
    case True
    then have d0: "dec_nat n = ''0''" "n = 0" using z by blast+
    have "strtoll ''0'' = (0, []) \<and> strtoll ''-0'' = (0, [])" by (simp add: strtoll_def clamp_def digit_of_def is_space_def)
    then show ?thesis unfolding d0(1) by (simp add: d0(2))
  next
    case False
    have "digit_of c < 10" using digit_of_digit [OF c(1)] by simp
    then show ?thesis using c(2-4) False v assms sm unfolding u by (simp add: strtoll_def clamp_def Let_def)
  qed
  then show "strtoll (dec_nat n) = (int n, [])" "strtoll (CHR ''-'' # dec_nat n) = (- int n, [])" by simp_all
qed

lemma looks_float_dec: "\<forall>c\<in>set s. c \<noteq> CHR ''.'' \<and> c \<noteq> CHR ''e'' \<and> c \<noteq> CHR ''E'' \<Longrightarrow> \<not> looks_float s"
proof -
  have "\<not> snd (foldl (\<lambda>(ishex, isfloat) ch.
     if ch = CHR ''x'' \<or> ch = CHR ''X'' then (True, isfloat)
     else if ch = CHR ''e'' \<or> ch = CHR ''E'' then (ishex, isfloat \<or> \<not> ishex)
     else if ch = CHR ''.'' then (ishex, True)
     else (ishex, isfloat)) (h, False) s)"
    if "\<forall>c\<in>set s. c \<noteq> CHR ''.'' \<and> c \<noteq> CHR ''e'' \<and> c \<noteq> CHR ''E''" for h
    using that by (induction s arbitrary: h) simp_all
  then show "\<forall>c\<in>set s. c \<noteq> CHR ''.'' \<and> c \<noteq> CHR ''e'' \<and> c \<noteq> CHR ''E'' \<Longrightarrow> \<not> looks_float s"
    unfolding looks_float_def by blast
qed

lemma looks_float_hex: "\<forall>c\<in>set s. c \<noteq> CHR ''.'' \<Longrightarrow> \<not> looks_float (''0x'' @ s)"
proof -
  have "\<not> snd (foldl (\<lambda>(ishex, isfloat) ch.
     if ch = CHR ''x'' \<or> ch = CHR ''X'' then (True, isfloat)
     else if ch = CHR ''e'' \<or> ch = CHR ''E'' then (ishex, isfloat \<or> \<not> ishex)
     else if ch = CHR ''.'' then (ishex, True)
     else (ishex, isfloat)) (True, False) s)"
    if "\<forall>c\<in>set s. c \<noteq> CHR ''.''"
    using that by (induction s) simp_all
  then show "\<forall>c\<in>set s. c \<noteq> CHR ''.'' \<Longrightarrow> \<not> looks_float (''0x'' @ s)"
    unfolding looks_float_def by simp
qed

lemma int_val_exact:
  assumes "strtoll s = (i, r)"
  shows "int_val s = (if - (2 ^ 31) \<le> i \<and> i < 2 ^ 32 then Some (word_of_int i) else None)"
proof -
  have "drop_bit 31 i = i div 2147483648" by (simp add: drop_bit_eq_div)
  moreover have "q = 0 \<or> q = - 1 \<or> q = 1 \<longleftrightarrow> - 2147483648 \<le> i \<and> i < 4294967296"
    if "i = q * 2147483648 + m" "0 \<le> m" "m < 2147483648" for q m :: int using that by linarith
  then have "i div 2147483648 = 0 \<or> i div 2147483648 = - 1 \<or> i div 2147483648 = 1
      \<longleftrightarrow> - 2147483648 \<le> i \<and> i < 4294967296" by (metis div_mult_mod_eq pos_mod_bound pos_mod_sign zero_less_numeral)
  ultimately show ?thesis using assms by (simp add: int_val_def)
qed

lemma dec_plain: "\<forall>c\<in>set (dec i). c \<noteq> CHR ''.'' \<and> c \<noteq> CHR ''e'' \<and> c \<noteq> CHR ''E''"
proof
  fix c
  assume "c \<in> set (dec i)"
  then have "c = CHR ''-'' \<or> is_digit c" using dec_nat_digits by (auto simp: dec_def split: if_splits)
  then show "c \<noteq> CHR ''.'' \<and> c \<noteq> CHR ''e'' \<and> c \<noteq> CHR ''E''" by (auto simp: is_digit_def)
qed

lemma strtoll_dec: "\<bar>i\<bar> < 2 ^ 63 \<Longrightarrow> strtoll (dec i) = (i, [])"
  using strtoll_dec_nat [of "nat \<bar>i\<bar>"] by (auto simp: dec_def)

lemma show_int_forms:
  "int_val (''0x'' @ pad 8 (hex_nat (unat uf))) = Some uf"
  "int_val (dec (sint (uf :: 32 word))) = Some uf"
  "int_val (dec (uint uf)) = Some uf"
proof -
  have u: "unat uf < 4294967296" by (rule unat32_less)
  then have U: "0 \<le> uint uf" "uint uf < 4294967296" using uint32_less by simp_all
  have s: "- 2147483648 \<le> sint uf" "sint uf < 2147483648" using sint32_bounds by simp_all
  show "int_val (dec (sint uf)) = Some uf" using s by (subst int_val_exact [OF strtoll_dec]) auto
  have p: "(2 :: int) ^ 31 = 2147483648" "(2 :: int) ^ 32 = 4294967296" "(2 :: int) ^ 63 = 9223372036854775808" by simp_all
  have c: "- (2 ^ 31) \<le> uint uf" "uint uf < 2 ^ 32" unfolding p using U by linarith+
  have b: "\<bar>uint uf\<bar> < 2 ^ 63" unfolding p using U by linarith
  have "unat uf < 2 ^ 63" using u by simp
  from int_val_exact [OF strtoll_hex [OF this]] show "int_val (''0x'' @ pad 8 (hex_nat (unat uf))) = Some uf"
    using c by (simp only: uint_nat [symmetric] if_True word_of_int_uint simp_thms)
  show "int_val (dec (uint uf)) = Some uf" using c by (simp only: int_val_exact [OF strtoll_dec [OF b]] if_True word_of_int_uint simp_thms)
qed

text \<open>Each of the three forms \<open>show_int\<close> prints is accepted by both programs and stands for the
  pattern; \<open>ishow\<close> shows a number exactly if it fits into 32 bits, signed or unsigned.\<close>

lemma show_reads_back:
  assumes "s \<in> {''0x'' @ pad 8 (hex_nat (unat uf)), dec (sint uf), dec (uint uf)}"
  shows "ishow_num_val s = Some uf \<and> fshow_num_val strtof s = Some uf"
proof -
  have "\<forall>c\<in>set (pad 8 (hex_nat (unat uf))). c \<noteq> CHR ''.''"
  proof
    fix c
    assume "c \<in> set (pad 8 (hex_nat (unat uf)))"
    then have "c = CHR ''0'' \<or> c \<in> set (hex_nat (unat uf))" unfolding pad_def set_append by (auto simp only: in_set_replicate Un_iff)
    then show "c \<noteq> CHR ''.''" using hex_nat_digits [of "unat uf"] by (elim disjE) simp_all
  qed
  then have "\<not> looks_float s" using assms looks_float_hex looks_float_dec [OF dec_plain] by blast
  then show ?thesis using assms show_int_forms [of uf] by (auto simp: ishow_num_val_def fshow_num_val_def)
qed

lemma ishow_accepts:
  assumes "\<bar>i\<bar> < 2 ^ 63"
  shows "ishow_main fname [dec i] =
    (if - (2 ^ 31) \<le> i \<and> i < 2 ^ 32 then show_int (word_of_int i)
     else ''Cannot convert '' @ [CHR 0x27] @ dec i @ [CHR 0x27] @ '' to 32-bit number'' @ NL)"
proof -
  have "ishow_num_val (dec i) = (if - (2 ^ 31) \<le> i \<and> i < 2 ^ 32 then Some (word_of_int i) else None)"
    using looks_float_dec [OF dec_plain] int_val_exact [OF strtoll_dec [OF assms]] unfolding ishow_num_val_def by simp
  then show ?thesis unfolding ishow_main_def by simp
qed

subsection \<open>The number fshow prints\<close>

lemma round_div_near: "0 < d \<Longrightarrow> 2 * \<bar>int n - int (round_div n d) * int d\<bar> \<le> int d"
proof -
  assume d: "0 < d"
  have m: "int n = int (n div d) * int d + int (n mod d)" by (metis div_mult_mod_eq of_nat_add of_nat_mult)
  have r: "int (n mod d) < int d" using d by simp
  show ?thesis using m r by (auto simp: round_div_def Let_def distrib_right abs_if)
qed

lemma over_frac_exact:
  assumes "m < 2 ^ 24"
  shows "over_frac (f_of_int (int m)) = Finite 0 (m * 2 ^ 126)"
proof -
  have n: "ndigits m \<le> 24"
  proof (cases "m = 0")
    case False
    then have "(2::nat) ^ (ndigits m - 1) < 2 ^ 24" using ndigits_bounds(2) [of m] assms by linarith
    then have "ndigits m - 1 < 24" by (rule power_less_imp_less_exp [rotated]) simp
    then show ?thesis by linarith
  qed (simp add: ndigits.simps [of 0])
  have R: "rounded 0 (m * 2 ^ k) = Finite 0 (m * 2 ^ k)" if "k \<le> 149" for k
  proof -
    have l: "m * 2 ^ k < 2 ^ 277"
    proof -
      have "m * 2 ^ k < 2 ^ 24 * 2 ^ k" using assms by simp
      also have "\<dots> \<le> 2 ^ 24 * 2 ^ 149" using that by (intro mult_left_mono power_increasing) simp_all
      also have "\<dots> < (2::nat) ^ 277" by simp
      finally show ?thesis .
    qed
    have "round_even (ndigits (m * 2 ^ k) - 24) (m * 2 ^ k) = m * 2 ^ k"
    proof (cases "m = 0")
      case False
      then have "ndigits (m * 2 ^ k) - 24 \<le> k" using ndigits_shift [of m k] n by simp
      then show ?thesis by (intro round_exact dvd_mult le_imp_power_dvd)
    qed (simp add: round_even_def)
    then show ?thesis using l by (simp add: rounded_def Let_def del: One_nat_def)
  qed
  have "f_of_int (int m) = Finite 0 (m * 2 ^ 149)" using R [of 149] by (simp add: f_of_int_def)
  moreover have "m * 2 ^ 149 div 2 ^ 23 = m * 2 ^ 126" by simp
  ultimately show ?thesis using R [of 126] by (simp del: power_numeral)
qed

text \<open>The mantissa and the exponent of \<open>show_float\<close>: the magnitude of the pattern is
  \<open>mantissa / 2^23 * 2^uexp\<close>, and the quotient that is printed is exact (\<open>over_frac_exact\<close>).\<close>

lemma show_float_parts:
  shows "sint (show_uexp uf) = (if fexp uf = 0 then - 126 else int (fexp uf) - 127)"
    "sint (show_mantissa uf) = int (unat (show_mantissa uf))"
    "unat (show_mantissa uf) < 2 ^ 24" "fexp uf \<noteq> 0 \<Longrightarrow> 2 ^ 23 \<le> unat (show_mantissa uf)"
    "fmag uf = unat (show_mantissa uf) * 2 ^ nat (sint (show_uexp uf) + 126)"
proof -
  have e: "fexp uf < 256" and f: "ffrac uf < 8388608" unfolding field_unat by simp_all
  have e0: "get_exp uf = 0 \<longleftrightarrow> fexp uf = 0" by (simp add: fexp_def unat_eq_0)
  have E: "sint (get_exp uf - 127) = int (fexp uf) - 127"
  proof -
    have "get_exp uf - 127 = word_of_int (int (fexp uf) - 127)" by (simp add: fexp_def)
    then show ?thesis using e sint_word_of_int32 [of "int (fexp uf) - 127"] by simp
  qed
  show U: "sint (show_uexp uf) = (if fexp uf = 0 then - 126 else int (fexp uf) - 127)"
    using E by (simp add: show_uexp_def e0)
  have M: "unat (show_mantissa uf) = (if fexp uf = 0 then ffrac uf else ffrac uf + 8388608)"
    using f by (simp add: show_mantissa_def e0 ffrac_def unat_word_ariths)
  show "unat (show_mantissa uf) < 2 ^ 24" using M f by simp
  then show "sint (show_mantissa uf) = int (unat (show_mantissa uf))"
    using sint_neg_unat [of "show_mantissa uf"] sint32_eq [of "show_mantissa uf"] by simp
  show "fexp uf \<noteq> 0 \<Longrightarrow> 2 ^ 23 \<le> unat (show_mantissa uf)" using M by simp
  have "nat (int (fexp uf) - 127 + 126) = fexp uf - 1" by simp
  then show "fmag uf = unat (show_mantissa uf) * 2 ^ nat (sint (show_uexp uf) + 126)"
    unfolding U M fmag_def by simp
qed

text \<open>Both programs take text behind a number, and text that is no number at all as 0.\<close>

lemma show_garbage: "ishow_num_val ''12zz'' = Some 12" "ishow_num_val ''zz'' = Some 0" "fshow_num_val strtof ''zz'' = Some 0"
  by (simp_all add: ishow_num_val_def fshow_num_val_def looks_float_def int_val_def strtoll_def is_space_def digit_of_def clamp_def)

end
