(* ===== verification/Wrappers.thy ===== *)
theory Wrappers
  imports CLib
begin

text \<open>
  The error functions of \<open>proxylab-handout/csapp.c\<close> and its wrappers around the functions of the
  system and of libc; those of the Rio package are in \<open>Rio\<close>, those of the client/server helpers in
  \<open>Proxy\<close>. What the system does is an argument, a record of the function that answers a call in a
  state of the world (which holds the memory that pointers among the arguments lead to) and of what
  a program can ask of that state: \<open>errno\<close>, \<open>h_errno\<close>, the error indicator of a stream, and the
  structure \<open>sigaction\<close> has filled in. A call is its name with its arguments as numbers, a pointer
  by its address; an answer is the number the function returns. A wrapper returns, or ends the
  program with a text and an exit status, or ends the thread; where the C function is \<open>void\<close> the
  number it returns is not looked at. The shell, \<open>shlab-handout/tsh.c\<close>, has its own copies of three
  of these functions, which are here too (\<open>tsh_\<close>).

  What the lemmas show: what makes a wrapper end the program, for the wrappers whose test is not the
  common one; that no error at all ends it in some; and that the exit status is 0 in every case.
\<close>

subsection \<open>The system\<close>

type_synonym call = "string \<times> int list"

record 's system =
  answer :: "call \<Rightarrow> 's \<Rightarrow> int \<times> 's"
  errno :: "'s \<Rightarrow> int"
  h_errno :: "'s \<Rightarrow> int"
  strerror :: "int \<Rightarrow> string"
  ferror :: "int \<Rightarrow> 's \<Rightarrow> bool"
  old_handler :: "'s \<Rightarrow> int"

datatype 's outcome = Returns int 's | Ends string int 's | Ends_thread int 's

subsection \<open>Error functions\<close>

definition unix_error :: "'s system \<Rightarrow> string \<Rightarrow> 's \<Rightarrow> 's outcome" where
  "unix_error sy msg s = Ends (msg @ '': '' @ strerror sy (errno sy s) @ [CHR 0x0A]) 0 s"

definition posix_error :: "'s system \<Rightarrow> int \<Rightarrow> string \<Rightarrow> 's \<Rightarrow> 's outcome" where
  "posix_error sy code msg s = Ends (msg @ '': '' @ strerror sy code @ [CHR 0x0A]) 0 s"

definition dns_error :: "'s system \<Rightarrow> string \<Rightarrow> 's \<Rightarrow> 's outcome" where
  "dns_error sy msg s = Ends (msg @ '': DNS error '' @ dec (h_errno sy s) @ [CHR 0x0A]) 0 s"

definition app_error :: "string \<Rightarrow> 's \<Rightarrow> 's outcome" where
  "app_error msg s = Ends (msg @ [CHR 0x0A]) 0 s"

text \<open>The common shapes: no test, a negative result, a null pointer, a result that is an error code.\<close>

definition plain :: "'s system \<Rightarrow> call \<Rightarrow> 's \<Rightarrow> 's outcome" where
  "plain sy c s = (case answer sy c s of (r, s) \<Rightarrow> Returns r s)"

definition unless_negative :: "'s system \<Rightarrow> string \<Rightarrow> call \<Rightarrow> 's \<Rightarrow> 's outcome" where
  "unless_negative sy msg c s = (case answer sy c s of (r, s) \<Rightarrow> if r < 0 then unix_error sy msg s else Returns r s)"

definition unless_null :: "'s system \<Rightarrow> string \<Rightarrow> call \<Rightarrow> 's \<Rightarrow> 's outcome" where
  "unless_null sy msg c s = (case answer sy c s of (p, s) \<Rightarrow> if p = 0 then unix_error sy msg s else Returns p s)"

definition unless_code :: "'s system \<Rightarrow> string \<Rightarrow> call \<Rightarrow> 's \<Rightarrow> 's outcome" where
  "unless_code sy msg c s = (case answer sy c s of (rc, s) \<Rightarrow> if rc \<noteq> 0 then posix_error sy rc msg s else Returns rc s)"

subsection \<open>Process control\<close>

definition Fork :: "'s system \<Rightarrow> 's \<Rightarrow> 's outcome" where
  "Fork sy = unless_negative sy ''Fork error'' (''fork'', [])"

definition Execve :: "'s system \<Rightarrow> int \<Rightarrow> int \<Rightarrow> int \<Rightarrow> 's \<Rightarrow> 's outcome" where
  "Execve sy filename argv envp = unless_negative sy ''Execve error'' (''execve'', [filename, argv, envp])"

definition Wait :: "'s system \<Rightarrow> int \<Rightarrow> 's \<Rightarrow> 's outcome" where
  "Wait sy status = unless_negative sy ''Wait error'' (''wait'', [status])"

definition Waitpid :: "'s system \<Rightarrow> int \<Rightarrow> int \<Rightarrow> int \<Rightarrow> 's \<Rightarrow> 's outcome" where
  "Waitpid sy pid iptr options = unless_negative sy ''Waitpid error'' (''waitpid'', [pid, iptr, options])"

definition Kill :: "'s system \<Rightarrow> int \<Rightarrow> int \<Rightarrow> 's \<Rightarrow> 's outcome" where
  "Kill sy pid signum = unless_negative sy ''Kill error'' (''kill'', [pid, signum])"

definition Pause :: "'s system \<Rightarrow> 's \<Rightarrow> 's outcome" where
  "Pause sy = plain sy (''pause'', [])"

text \<open>The result of \<open>sleep\<close> is tested as an \<open>unsigned\<close>.\<close>

definition Sleep :: "'s system \<Rightarrow> int \<Rightarrow> 's \<Rightarrow> 's outcome" where
  "Sleep sy secs s = (case answer sy (''sleep'', [secs]) s of (r, s) \<Rightarrow>
     let rc = (word_of_int r :: 32 word) in if rc < 0 then unix_error sy ''Sleep error'' s else Returns (uint rc) s)"

definition Alarm :: "'s system \<Rightarrow> int \<Rightarrow> 's \<Rightarrow> 's outcome" where
  "Alarm sy seconds = plain sy (''alarm'', [seconds])"

definition Setpgid :: "'s system \<Rightarrow> int \<Rightarrow> int \<Rightarrow> 's \<Rightarrow> 's outcome" where
  "Setpgid sy pid pgid = unless_negative sy ''Setpgid error'' (''setpgid'', [pid, pgid])"

definition Getpgrp :: "'s system \<Rightarrow> 's \<Rightarrow> 's outcome" where
  "Getpgrp sy = plain sy (''getpgrp'', [])"

subsection \<open>Signals\<close>

text \<open>The action is a local structure, so it is passed by its content: the handler, the empty mask, the
  flag that restarts interrupted calls.\<close>

definition SA_RESTART :: int where "SA_RESTART = 0x10000000"

definition Signal :: "'s system \<Rightarrow> int \<Rightarrow> int \<Rightarrow> 's \<Rightarrow> 's outcome" where
  "Signal sy signum handler s =
    (let empty_mask = 0
     in case answer sy (''sigaction'', [signum, handler, empty_mask, SA_RESTART]) s of (r, s) \<Rightarrow>
       if r < 0 then unix_error sy ''Signal error'' s else Returns (old_handler sy s) s)"

definition Sigprocmask :: "'s system \<Rightarrow> int \<Rightarrow> int \<Rightarrow> int \<Rightarrow> 's \<Rightarrow> 's outcome" where
  "Sigprocmask sy how sigset oldset = unless_negative sy ''Sigprocmask error'' (''sigprocmask'', [how, sigset, oldset])"

definition Sigemptyset :: "'s system \<Rightarrow> int \<Rightarrow> 's \<Rightarrow> 's outcome" where
  "Sigemptyset sy sigset = unless_negative sy ''Sigemptyset error'' (''sigemptyset'', [sigset])"

definition Sigfillset :: "'s system \<Rightarrow> int \<Rightarrow> 's \<Rightarrow> 's outcome" where
  "Sigfillset sy sigset = unless_negative sy ''Sigfillset error'' (''sigfillset'', [sigset])"

definition Sigaddset :: "'s system \<Rightarrow> int \<Rightarrow> int \<Rightarrow> 's \<Rightarrow> 's outcome" where
  "Sigaddset sy sigset signum = unless_negative sy ''Sigaddset error'' (''sigaddset'', [sigset, signum])"

definition Sigdelset :: "'s system \<Rightarrow> int \<Rightarrow> int \<Rightarrow> 's \<Rightarrow> 's outcome" where
  "Sigdelset sy sigset signum = unless_negative sy ''Sigdelset error'' (''sigdelset'', [sigset, signum])"

definition Sigismember :: "'s system \<Rightarrow> int \<Rightarrow> int \<Rightarrow> 's \<Rightarrow> 's outcome" where
  "Sigismember sy sigset signum = unless_negative sy ''Sigismember error'' (''sigismember'', [sigset, signum])"

subsection \<open>Input and output\<close>

definition Open :: "'s system \<Rightarrow> int \<Rightarrow> int \<Rightarrow> int \<Rightarrow> 's \<Rightarrow> 's outcome" where
  "Open sy pathname flags mode = unless_negative sy ''Open error'' (''open'', [pathname, flags, mode])"

definition Read :: "'s system \<Rightarrow> int \<Rightarrow> int \<Rightarrow> int \<Rightarrow> 's \<Rightarrow> 's outcome" where
  "Read sy fd buf count = unless_negative sy ''Read error'' (''read'', [fd, buf, count])"

definition csapp_Write :: "'s system \<Rightarrow> int \<Rightarrow> int \<Rightarrow> int \<Rightarrow> 's \<Rightarrow> 's outcome" where
  "csapp_Write sy fd buf count = unless_negative sy ''Write error'' (''write'', [fd, buf, count])"

definition Lseek :: "'s system \<Rightarrow> int \<Rightarrow> int \<Rightarrow> int \<Rightarrow> 's \<Rightarrow> 's outcome" where
  "Lseek sy fildes offset whence = unless_negative sy ''Lseek error'' (''lseek'', [fildes, offset, whence])"

definition Close :: "'s system \<Rightarrow> int \<Rightarrow> 's \<Rightarrow> 's outcome" where
  "Close sy fd = unless_negative sy ''Close error'' (''close'', [fd])"

definition Select :: "'s system \<Rightarrow> int \<Rightarrow> int \<Rightarrow> int \<Rightarrow> int \<Rightarrow> int \<Rightarrow> 's \<Rightarrow> 's outcome" where
  "Select sy n readfds writefds exceptfds timeout = unless_negative sy ''Select error'' (''select'', [n, readfds, writefds, exceptfds, timeout])"

definition Dup2 :: "'s system \<Rightarrow> int \<Rightarrow> int \<Rightarrow> 's \<Rightarrow> 's outcome" where
  "Dup2 sy fd1 fd2 = unless_negative sy ''Dup2 error'' (''dup2'', [fd1, fd2])"

definition Stat :: "'s system \<Rightarrow> int \<Rightarrow> int \<Rightarrow> 's \<Rightarrow> 's outcome" where
  "Stat sy filename buf = unless_negative sy ''Stat error'' (''stat'', [filename, buf])"

definition Fstat :: "'s system \<Rightarrow> int \<Rightarrow> int \<Rightarrow> 's \<Rightarrow> 's outcome" where
  "Fstat sy fd buf = unless_negative sy ''Fstat error'' (''fstat'', [fd, buf])"

subsection \<open>Memory\<close>

text \<open>\<open>mmap\<close> fails with the pointer whose bits are all ones.\<close>

definition Mmap :: "'s system \<Rightarrow> int \<Rightarrow> int \<Rightarrow> int \<Rightarrow> int \<Rightarrow> int \<Rightarrow> int \<Rightarrow> 's \<Rightarrow> 's outcome" where
  "Mmap sy addr len prot flags fd offset s =
    (case answer sy (''mmap'', [addr, len, prot, flags, fd, offset]) s of (ptr, s) \<Rightarrow>
       if (word_of_int ptr :: 64 word) = - 1 then unix_error sy ''mmap error'' s else Returns ptr s)"

definition Munmap :: "'s system \<Rightarrow> int \<Rightarrow> int \<Rightarrow> 's \<Rightarrow> 's outcome" where
  "Munmap sy start len = unless_negative sy ''munmap error'' (''munmap'', [start, len])"

definition csapp_Malloc :: "'s system \<Rightarrow> int \<Rightarrow> 's \<Rightarrow> 's outcome" where
  "csapp_Malloc sy sz = unless_null sy ''Malloc error'' (''malloc'', [sz])"

definition csapp_Realloc :: "'s system \<Rightarrow> int \<Rightarrow> int \<Rightarrow> 's \<Rightarrow> 's outcome" where
  "csapp_Realloc sy ptr sz = unless_null sy ''Realloc error'' (''realloc'', [ptr, sz])"

definition Calloc :: "'s system \<Rightarrow> int \<Rightarrow> int \<Rightarrow> 's \<Rightarrow> 's outcome" where
  "Calloc sy nmemb sz = unless_null sy ''Calloc error'' (''calloc'', [nmemb, sz])"

definition csapp_Free :: "'s system \<Rightarrow> int \<Rightarrow> 's \<Rightarrow> 's outcome" where
  "csapp_Free sy ptr = plain sy (''free'', [ptr])"

subsection \<open>Streams\<close>

definition Fclose :: "'s system \<Rightarrow> int \<Rightarrow> 's \<Rightarrow> 's outcome" where
  "Fclose sy fp s = (case answer sy (''fclose'', [fp]) s of (r, s) \<Rightarrow>
     if r \<noteq> 0 then unix_error sy ''Fclose error'' s else Returns r s)"

definition Fdopen :: "'s system \<Rightarrow> int \<Rightarrow> int \<Rightarrow> 's \<Rightarrow> 's outcome" where
  "Fdopen sy fd mode = unless_null sy ''Fdopen error'' (''fdopen'', [fd, mode])"

definition Fgets :: "'s system \<Rightarrow> int \<Rightarrow> int \<Rightarrow> int \<Rightarrow> 's \<Rightarrow> 's outcome" where
  "Fgets sy ptr n stream s = (case answer sy (''fgets'', [ptr, n, stream]) s of (rptr, s) \<Rightarrow>
     if rptr = 0 \<and> ferror sy stream s then app_error ''Fgets error'' s else Returns rptr s)"

definition Fopen :: "'s system \<Rightarrow> int \<Rightarrow> int \<Rightarrow> 's \<Rightarrow> 's outcome" where
  "Fopen sy filename mode = unless_null sy ''Fopen error'' (''fopen'', [filename, mode])"

definition Fputs :: "'s system \<Rightarrow> int \<Rightarrow> int \<Rightarrow> 's \<Rightarrow> 's outcome" where
  "Fputs sy ptr stream s = (case answer sy (''fputs'', [ptr, stream]) s of (r, s) \<Rightarrow>
     if r = - 1 then unix_error sy ''Fputs error'' s else Returns r s)"

definition Fread :: "'s system \<Rightarrow> int \<Rightarrow> int \<Rightarrow> int \<Rightarrow> int \<Rightarrow> 's \<Rightarrow> 's outcome" where
  "Fread sy ptr sz nmemb stream s = (case answer sy (''fread'', [ptr, sz, nmemb, stream]) s of (n, s) \<Rightarrow>
     if n < nmemb \<and> ferror sy stream s then unix_error sy ''Fread error'' s else Returns n s)"

definition Fwrite :: "'s system \<Rightarrow> int \<Rightarrow> int \<Rightarrow> int \<Rightarrow> int \<Rightarrow> 's \<Rightarrow> 's outcome" where
  "Fwrite sy ptr sz nmemb stream s = (case answer sy (''fwrite'', [ptr, sz, nmemb, stream]) s of (n, s) \<Rightarrow>
     if n < nmemb then unix_error sy ''Fwrite error'' s else Returns n s)"

subsection \<open>Sockets and names\<close>

definition Socket :: "'s system \<Rightarrow> int \<Rightarrow> int \<Rightarrow> int \<Rightarrow> 's \<Rightarrow> 's outcome" where
  "Socket sy domain type protocol = unless_negative sy ''Socket error'' (''socket'', [domain, type, protocol])"

definition Setsockopt :: "'s system \<Rightarrow> int \<Rightarrow> int \<Rightarrow> int \<Rightarrow> int \<Rightarrow> int \<Rightarrow> 's \<Rightarrow> 's outcome" where
  "Setsockopt sy sock level optname optval optlen = unless_negative sy ''Setsockopt error'' (''setsockopt'', [sock, level, optname, optval, optlen])"

definition Bind :: "'s system \<Rightarrow> int \<Rightarrow> int \<Rightarrow> int \<Rightarrow> 's \<Rightarrow> 's outcome" where
  "Bind sy sockfd my_addr addrlen = unless_negative sy ''Bind error'' (''bind'', [sockfd, my_addr, addrlen])"

definition Listen :: "'s system \<Rightarrow> int \<Rightarrow> int \<Rightarrow> 's \<Rightarrow> 's outcome" where
  "Listen sy sock backlog = unless_negative sy ''Listen error'' (''listen'', [sock, backlog])"

definition Accept :: "'s system \<Rightarrow> int \<Rightarrow> int \<Rightarrow> int \<Rightarrow> 's \<Rightarrow> 's outcome" where
  "Accept sy sock addr addrlen = unless_negative sy ''Accept error'' (''accept'', [sock, addr, addrlen])"

definition Connect :: "'s system \<Rightarrow> int \<Rightarrow> int \<Rightarrow> int \<Rightarrow> 's \<Rightarrow> 's outcome" where
  "Connect sy sockfd serv_addr addrlen = unless_negative sy ''Connect error'' (''connect'', [sockfd, serv_addr, addrlen])"

definition Gethostbyname :: "'s system \<Rightarrow> int \<Rightarrow> 's \<Rightarrow> 's outcome" where
  "Gethostbyname sy hostname s = (case answer sy (''gethostbyname'', [hostname]) s of (p, s) \<Rightarrow>
     if p = 0 then dns_error sy ''Gethostbyname error'' s else Returns p s)"

definition Gethostbyaddr :: "'s system \<Rightarrow> int \<Rightarrow> int \<Rightarrow> int \<Rightarrow> 's \<Rightarrow> 's outcome" where
  "Gethostbyaddr sy addr len type s = (case answer sy (''gethostbyaddr'', [addr, len, type]) s of (p, s) \<Rightarrow>
     if p = 0 then dns_error sy ''Gethostbyaddr error'' s else Returns p s)"

subsection \<open>Threads and semaphores\<close>

definition Pthread_create :: "'s system \<Rightarrow> int \<Rightarrow> int \<Rightarrow> int \<Rightarrow> int \<Rightarrow> 's \<Rightarrow> 's outcome" where
  "Pthread_create sy tidp attrp routine argp = unless_code sy ''Pthread_create error'' (''pthread_create'', [tidp, attrp, routine, argp])"

definition Pthread_cancel :: "'s system \<Rightarrow> int \<Rightarrow> 's \<Rightarrow> 's outcome" where
  "Pthread_cancel sy tid = unless_code sy ''Pthread_cancel error'' (''pthread_cancel'', [tid])"

definition Pthread_join :: "'s system \<Rightarrow> int \<Rightarrow> int \<Rightarrow> 's \<Rightarrow> 's outcome" where
  "Pthread_join sy tid thread_return = unless_code sy ''Pthread_join error'' (''pthread_join'', [tid, thread_return])"

definition Pthread_detach :: "'s system \<Rightarrow> int \<Rightarrow> 's \<Rightarrow> 's outcome" where
  "Pthread_detach sy tid = unless_code sy ''Pthread_detach error'' (''pthread_detach'', [tid])"

definition Pthread_exit :: "int \<Rightarrow> 's \<Rightarrow> 's outcome" where
  "Pthread_exit retval s = Ends_thread retval s"

definition Pthread_self :: "'s system \<Rightarrow> 's \<Rightarrow> 's outcome" where
  "Pthread_self sy = plain sy (''pthread_self'', [])"

definition Pthread_once :: "'s system \<Rightarrow> int \<Rightarrow> int \<Rightarrow> 's \<Rightarrow> 's outcome" where
  "Pthread_once sy once_control init_function = plain sy (''pthread_once'', [once_control, init_function])"

definition Sem_init :: "'s system \<Rightarrow> int \<Rightarrow> int \<Rightarrow> int \<Rightarrow> 's \<Rightarrow> 's outcome" where
  "Sem_init sy sem pshared val = unless_negative sy ''Sem_init error'' (''sem_init'', [sem, pshared, val])"

definition P_sem :: "'s system \<Rightarrow> int \<Rightarrow> 's \<Rightarrow> 's outcome" where
  "P_sem sy sem = unless_negative sy ''P error'' (''sem_wait'', [sem])"

definition V_sem :: "'s system \<Rightarrow> int \<Rightarrow> 's \<Rightarrow> 's outcome" where
  "V_sem sy sem = unless_negative sy ''V error'' (''sem_post'', [sem])"

subsection \<open>The shell's copies\<close>

definition tsh_unix_error :: "'s system \<Rightarrow> string \<Rightarrow> 's \<Rightarrow> 's outcome" where
  "tsh_unix_error sy msg s = Ends (msg @ '': '' @ strerror sy (errno sy s) @ [CHR 0x0A]) 1 s"

definition tsh_app_error :: "string \<Rightarrow> 's \<Rightarrow> 's outcome" where
  "tsh_app_error msg s = Ends (msg @ [CHR 0x0A]) 1 s"

definition tsh_Signal :: "'s system \<Rightarrow> int \<Rightarrow> int \<Rightarrow> 's \<Rightarrow> 's outcome" where
  "tsh_Signal sy signum handler s =
    (let empty_mask = 0
     in case answer sy (''sigaction'', [signum, handler, empty_mask, SA_RESTART]) s of (r, s) \<Rightarrow>
       if r < 0 then tsh_unix_error sy ''Signal error'' s else Returns (old_handler sy s) s)"

definition sigquit_handler :: "int \<Rightarrow> 's \<Rightarrow> 's outcome" where
  "sigquit_handler sig s = Ends (''Terminating after receipt of SIGQUIT signal'' @ [CHR 0x0A]) 1 s"

subsection \<open>What ends the program\<close>

lemmas error_defs = unix_error_def posix_error_def dns_error_def app_error_def

lemma shape_ends:
  "unless_negative sy msg c s = Ends t k s' \<longleftrightarrow>
     fst (answer sy c s) < 0 \<and> k = 0 \<and> s' = snd (answer sy c s) \<and> t = msg @ '': '' @ strerror sy (errno sy s') @ [CHR 0x0A]"
  "unless_null sy msg c s = Ends t k s' \<longleftrightarrow>
     fst (answer sy c s) = 0 \<and> k = 0 \<and> s' = snd (answer sy c s) \<and> t = msg @ '': '' @ strerror sy (errno sy s') @ [CHR 0x0A]"
  "unless_code sy msg c s = Ends t k s' \<longleftrightarrow>
     fst (answer sy c s) \<noteq> 0 \<and> k = 0 \<and> s' = snd (answer sy c s)
     \<and> t = msg @ '': '' @ strerror sy (fst (answer sy c s)) @ [CHR 0x0A]"
  by (auto simp: unless_negative_def unless_null_def unless_code_def error_defs split: prod.splits if_splits)

text \<open>\<open>Sleep\<close> never reports an error: an \<open>unsigned\<close> is not negative. Neither do the wrappers without
  a test, whatever the system answers; \<open>Pthread_once\<close> drops an error code.\<close>

lemma Sleep_returns: "Sleep sy secs s = (case answer sy (''sleep'', [secs]) s of (r, s) \<Rightarrow> Returns (uint (word_of_int r :: 32 word)) s)"
  by (simp add: Sleep_def Let_def split: prod.split)

lemma plain_returns: "plain sy c s = Returns (fst (answer sy c s)) (snd (answer sy c s))"
  by (simp add: plain_def split: prod.split)

text \<open>The end of a file is no error for the readers, but a short write is one for \<open>Fwrite\<close>.\<close>

lemma stream_ends:
  "answer sy (''fgets'', [ptr, n, f]) s = (0, s') \<Longrightarrow>
     Fgets sy ptr n f s = (if ferror sy f s' then Ends (''Fgets error'' @ [CHR 0x0A]) 0 s' else Returns 0 s')"
  "answer sy (''fread'', [ptr, z, n, f]) s = (k, s') \<Longrightarrow> \<not> ferror sy f s' \<Longrightarrow> Fread sy ptr z n f s = Returns k s'"
  "answer sy (''fwrite'', [ptr, z, n, f]) s = (k, s') \<Longrightarrow> (\<exists>t. Fwrite sy ptr z n f s = Ends t 0 s') \<longleftrightarrow> k < n"
  by (simp_all add: Fgets_def Fread_def Fwrite_def error_defs)

text \<open>A system on which every call fails.\<close>

definition failing :: "unit system" where
  "failing = \<lparr>answer = (\<lambda>c w. (- 1, w)), errno = (\<lambda>_. 2), h_errno = (\<lambda>_. 1),
     strerror = (\<lambda>e. if e = 2 then ''No such file'' else ''Unknown error''), ferror = (\<lambda>_ _. False), old_handler = (\<lambda>_. 0)\<rparr>"

lemma wrapper_examples:
  "Open failing path flags mode () = Ends (''Open error: No such file'' @ [CHR 0x0A]) 0 ()"
  "tsh_Signal failing signum handler () = Ends (''Signal error: No such file'' @ [CHR 0x0A]) 1 ()"
  "Mmap failing addr len prot flags fd offset () = Ends (''mmap error: No such file'' @ [CHR 0x0A]) 0 ()"
  "Sleep failing secs () = Returns 4294967295 ()"
  by (simp_all add: Open_def unless_negative_def tsh_Signal_def tsh_unix_error_def Mmap_def Sleep_def unix_error_def failing_def
    unsigned_minus_1_eq_mask mask_eq_exp_minus_1)

end
