(* ===== verification/Children.thy ===== *)
theory Children
  imports Wrappers
begin

text \<open>
  The programs the shell is tested with, \<open>myspin.c\<close>, \<open>myint.c\<close>, \<open>mystop.c\<close> and \<open>mysplit.c\<close> of
  \<open>shlab-handout\<close>, over the system of \<open>Wrappers\<close>. A program is what it prints on \<open>stderr\<close>, its exit
  status and the state of the world at its end. A signal that ends or stops the process takes effect
  in the system: for the program \<open>kill\<close> is a call that returns, if it returns.

  The lemmas say which calls each program makes, in a world that records them.
\<close>

definition SIGINT :: int where "SIGINT = 2"
definition SIGTSTP :: int where "SIGTSTP = 20"

fun naps :: "'s system \<Rightarrow> nat \<Rightarrow> 's \<Rightarrow> 's" where
  "naps sy 0 s = s"
| "naps sy (Suc n) s = naps sy n (snd (answer sy (''sleep'', [1]) s))"

text \<open>\<open>atoi\<close>, whose \<open>long\<close> has 64 bits.\<close>

definition secs_of :: "string \<Rightarrow> int" where
  "secs_of s = to_int (fst (strtol s))"

definition my_usage :: "string \<Rightarrow> 's \<Rightarrow> 's outcome" where
  "my_usage name s = Ends (''Usage: '' @ name @ '' <n>'' @ [CHR 0x0A]) 0 s"

text \<open>\<open>args\<close> is \<open>argv\<close> without the name of the program.\<close>

definition myspin :: "'s system \<Rightarrow> string \<Rightarrow> string list \<Rightarrow> 's \<Rightarrow> 's outcome" where
  "myspin sy name args s = (if length args \<noteq> 1 then my_usage name s else Ends [] 0 (naps sy (nat (secs_of (args ! 0))) s))"

definition myint :: "'s system \<Rightarrow> string \<Rightarrow> string list \<Rightarrow> 's \<Rightarrow> 's outcome" where
  "myint sy name args s =
    (if length args \<noteq> 1 then my_usage name s
     else case answer sy (''getpid'', []) (naps sy (nat (secs_of (args ! 0))) s) of (pid, s) \<Rightarrow>
       (case answer sy (''kill'', [pid, SIGINT]) s of (r, s) \<Rightarrow> Ends (if r < 0 then ''kill (int) error'' else []) 0 s))"

definition mystop :: "'s system \<Rightarrow> string \<Rightarrow> string list \<Rightarrow> 's \<Rightarrow> 's outcome" where
  "mystop sy name args s =
    (if length args \<noteq> 1 then my_usage name s
     else case answer sy (''getpid'', []) (naps sy (nat (secs_of (args ! 0))) s) of (pid, s) \<Rightarrow>
       (case answer sy (''kill'', [- pid, SIGTSTP]) s of (r, s) \<Rightarrow> Ends (if r < 0 then ''kill (tstp) error'' else []) 0 s))"

text \<open>Parent and child are two runs, which the answer of \<open>fork\<close> tells apart.\<close>

definition mysplit :: "'s system \<Rightarrow> string \<Rightarrow> string list \<Rightarrow> 's \<Rightarrow> 's outcome" where
  "mysplit sy name args s =
    (if length args \<noteq> 1 then my_usage name s
     else let secs = secs_of (args ! 0)
          in case answer sy (''fork'', []) s of (pid, s) \<Rightarrow>
            if pid = 0 then Ends [] 0 (naps sy (nat secs) s)
            else Ends [] 0 (snd (answer sy (''wait'', [0]) s)))"

text \<open>A world that records its calls, in which the process has the number \<open>me\<close>, \<open>fork\<close> answers
  \<open>child\<close> and every other call 0.\<close>

definition recording :: "int \<Rightarrow> int \<Rightarrow> call list system" where
  "recording me child = \<lparr>answer = (\<lambda>c w. (if fst c = ''getpid'' then me else if fst c = ''fork'' then child else 0, w @ [c])),
     errno = (\<lambda>_. 0), h_errno = (\<lambda>_. 0), strerror = (\<lambda>_. []), ferror = (\<lambda>_ _. False), old_handler = (\<lambda>_. 0)\<rparr>"

lemma recording_answer:
  "answer (recording me child) c w = (if fst c = ''getpid'' then me else if fst c = ''fork'' then child else 0, w @ [c])"
  by (simp add: recording_def)

lemma naps_recording: "naps (recording me child) n w = w @ replicate n (''sleep'', [1])"
  by (induction n arbitrary: w) (simp_all add: recording_answer)

lemma secs_of_dec: "- (2 ^ 31) \<le> i \<Longrightarrow> i < 2 ^ 31 \<Longrightarrow> secs_of (dec i) = i"
  by (simp add: secs_of_def strtol_dec to_int_def signed_take_bit_int_eq_self)

lemma children_calls:
  assumes "- (2 ^ 31) \<le> n" "n < 2 ^ 31"
  defines "ns \<equiv> replicate (nat n) (''sleep'', [1])"
  shows "myspin (recording me child) name [dec n] [] = Ends [] 0 ns"
    "myint (recording me child) name [dec n] [] = Ends [] 0 (ns @ [(''getpid'', []), (''kill'', [me, SIGINT])])"
    "mystop (recording me child) name [dec n] [] = Ends [] 0 (ns @ [(''getpid'', []), (''kill'', [- me, SIGTSTP])])"
    "mysplit (recording me 0) name [dec n] [] = Ends [] 0 ((''fork'', []) # ns)"
    "child \<noteq> 0 \<Longrightarrow> mysplit (recording me child) name [dec n] [] = Ends [] 0 [(''fork'', []), (''wait'', [0])]"
  using secs_of_dec [OF assms(1,2)]
  by (simp_all add: myspin_def myint_def mystop_def mysplit_def naps_recording recording_answer ns_def)

end
