(* ===== verification/BtestProps.thy ===== *)
theory BtestProps
  imports Btest
begin

text \<open>
  The harness of \<open>datalab-handout/btest.c\<close> and the puzzles of \<open>bits.c\<close> together: the values it
  generates lie in the range that \<open>decl.c\<close> states, it finds an error exactly if there is one among
  them, and the puzzles get all points.
\<close>

subsection \<open>The puzzles and their references\<close>

text \<open>The arguments a puzzle is specified for; the range \<open>(1, 1)\<close> stands for all bit patterns.\<close>

definition legal :: "test_rec \<Rightarrow> c_int list \<Rightarrow> bool" where
  "legal t args \<longleftrightarrow> int (length args) = t_args t \<and>
    (\<forall>i<length args. t_ranges t ! i = (1, 1) \<or>
       fst (t_ranges t ! i) \<le> sint (args ! i) \<and> sint (args ! i) \<le> snd (t_ranges t ! i))"

lemma legalD:
  assumes "legal t args" "i < length args" "t_ranges t ! i = (a, b)" "(a, b) \<noteq> (1, 1)"
  shows "a \<le> sint (args ! i)" "sint (args ! i) \<le> b"
  using assms by (auto simp: legal_def)

lemma legal_args: "legal t args \<Longrightarrow> t_args t = int n \<Longrightarrow> length args = n"
  by (simp add: legal_def)

lemma small_unat: "0 \<le> sint (x :: c_int) \<Longrightarrow> int (unat x) = sint x"
proof -
  assume "0 \<le> sint x"
  then have "(of_bool (sint x < 0) :: int) = 0" by (simp only: of_bool_eq_0_iff not_less)
  then have "sint x = uint x" using sint32_eq [of x] by linarith
  then show ?thesis by (simp only: uint_nat)
qed

lemma puzzle_eq:
  assumes "t \<in> set test_set" "legal t args"
  shows "t_solution t args \<noteq> None \<and> t_solution t args = t_test t args"
proof -
  note d = puzzle_def fun0_def fun1_def fun2_def
  have u: "unat x \<le> nat b" if "0 \<le> sint x" "sint x \<le> b" for x :: c_int and b
    using small_unat [OF that(1)] that(2) by linarith
  show ?thesis
    using assms(1) unfolding test_set_def Let_def
  proof (simp only: set_simps insert_iff empty_iff, elim disjE)
    assume t: "t = puzzle ''getByte'' (fun2 getByte) (fun2 test_getByte) 2 ''! ~ & ^ | + << >>'' 6 2 [(TMin, TMax), (0, 3), (TMin, TMax)]"
    have "length args = 2" using assms(2) t by (simp add: legal_def d)
    then have "unat (args ! 1) \<le> 3" using legalD [OF assms(2), of 1 0 3] u [of "args ! 1" 3] t by (simp add: d)
    then show ?thesis using t getByte_eq [of "args ! 1"] by (simp add: d)
  next
    assume t: "t = puzzle ''logicalShift'' (fun2 logicalShift) (fun2 test_logicalShift) 2 ''! ~ & ^ | + << >>'' 20 3 [(TMin, TMax), (0, 31), (TMin, TMax)]"
    have "length args = 2" using assms(2) t by (simp add: legal_def d)
    then have "unat (args ! 1) \<le> 31" using legalD [OF assms(2), of 1 0 31] u [of "args ! 1" 31] t by (simp add: d)
    then show ?thesis using t logicalShift_eq [of "args ! 1"] by (simp add: d)
  next
    assume t: "t = puzzle ''fitsBits'' (fun2 fitsBits) (fun2 test_fitsBits) 2 ''! ~ & ^ | + << >>'' 15 2 [(TMin, TMax), (1, 32), (TMin, TMax)]"
    have "length args = 2" using assms(2) t by (simp add: legal_def d)
    then have b: "1 \<le> sint (args ! 1)" "sint (args ! 1) \<le> 32" using legalD [OF assms(2), of 1 1 32] t by (simp_all add: d)
    then have "1 \<le> unat (args ! 1)" "unat (args ! 1) \<le> 32" using small_unat [of "args ! 1"] by linarith+
    then show ?thesis using t fitsBits_eq [of "args ! 1"] by (simp add: d)
  next
    assume t: "t = puzzle ''divpwr2'' (fun2 divpwr2) (fun2 test_divpwr2) 2 ''! ~ & ^ | + << >>'' 15 2 [(TMin, TMax), (0, 30), (TMin, TMax)]"
    have "length args = 2" using assms(2) t by (simp add: legal_def d)
    then have "unat (args ! 1) \<le> 30" using legalD [OF assms(2), of 1 0 30] u [of "args ! 1" 30] t by (simp add: d)
    then show ?thesis using t divpwr2_eq [of "args ! 1"] by (simp add: d)
  next
    assume t: "t = puzzle ''ilog2'' (fun1 ilog2) (\<lambda>xs. test_ilog2 (xs ! 0)) 1 ''! ~ & ^ | + << >>'' 90 4 [(1, TMax), (TMin, TMax), (TMin, TMax)]"
    have "length args = 1" using assms(2) t by (simp add: legal_def d)
    then have "1 \<le> sint (args ! 0)" using legalD(1) [OF assms(2), of 0 1 TMax] t by (simp add: d TMax_def)
    then have "0 <s args ! 0" by (simp add: word_sless_alt)
    then show ?thesis using t ilog2_eq by (simp add: d)
  qed (simp_all add: d bitAnd_eq bitCount_eq bang_eq tmin_eq negate_eq isPositive_eq isLessOrEqual_eq float_neg_eq float_i2f_eq float_twice_eq)
qed


subsection \<open>The generated values\<close>

lemma trunc_bounds: "of_int a \<le> x \<Longrightarrow> x \<le> of_int b \<Longrightarrow> a \<le> trunc x \<and> trunc x \<le> b"
  unfolding trunc_def by (auto simp: le_floor_iff floor_le_iff ceiling_le_iff le_ceiling_iff)

lemma random_bounds:
  assumes "r \<le> RM" "0 < RM" "mn \<le> mx"
  shows "mn \<le> random_val r RM mn mx \<and> random_val r RM mn mx \<le> mx"
proof -
  define w where "w = real r / real RM"
  have w: "0 \<le> w" "w \<le> 1" using assms(1,2) by (simp_all add: w_def)
  have m: "real_of_int mn \<le> real_of_int mx" using assms(3) by simp
  have x: "real_of_int mn * (1 - w) + real_of_int mx * w = real_of_int mn + (real_of_int mx - real_of_int mn) * w"
    by (simp add: algebra_simps)
  have "0 \<le> (real_of_int mx - real_of_int mn) * w" "(real_of_int mx - real_of_int mn) * w \<le> real_of_int mx - real_of_int mn"
    using w m by (simp_all add: mult_left_le)
  then show ?thesis unfolding random_val_def Let_def w_def [symmetric] x by (intro trunc_bounds) simp_all
qed

lemma length_concat_le: "(\<And>x. x \<in> set xs \<Longrightarrow> length (f x) \<le> m) \<Longrightarrow> length (concat (map f xs)) \<le> m * length xs"
proof (induction xs)
  case (Cons x xs)
  have "length (f x) \<le> m" using Cons.prems [of x] by simp
  moreover have "length (concat (map f xs)) \<le> m * length xs" using Cons.IH Cons.prems by simp
  ultimately show ?case by simp
qed simp

lemma sint_of: "TMin \<le> i \<Longrightarrow> i \<le> TMax \<Longrightarrow> sint (word_of_int i :: c_int) = i"
  by (rule sint_word_of_int32) (simp_all add: TMin_def TMax_def)

text \<open>A range for which \<open>gen_vals\<close> stays in its array and in the type \<open>int\<close>.\<close>

definition range_ok :: "int \<Rightarrow> int \<Rightarrow> bool" where
  "range_ok mn mx \<longleftrightarrow> TMin \<le> mn \<and> mn \<le> mx \<and> mx \<le> TMax \<and> TMin + MAX_TEST_VALS \<le> mx \<and>
     mx - mn \<noteq> MAX_TEST_VALS \<and> (mx < TMax \<or> MAX_TEST_VALS < mx - mn)"

definition rand_ok :: "(nat \<Rightarrow> nat) \<Rightarrow> nat \<Rightarrow> bool" where
  "rand_ok rnd RM \<longleftrightarrow> 0 < RM \<and> (\<forall>n. rnd n \<le> RM)"

lemma gen_vals_int:
  assumes "\<not> has_arg c ! arg" "(mn, mx) \<noteq> (1, 1)" "range_ok mn mx" "test_range \<le> TEST_RANGE" "0 < test_range" "rand_ok rnd RM"
  shows "\<exists>vs k'. gen_vals c rnd RM k (mn, mx) test_range arg = Some (vs, k') \<and> int (length vs) \<le> MAX_TEST_VALS \<and>
    (\<forall>v\<in>set vs. mn \<le> sint v \<and> sint v \<le> mx) \<and> {word_of_int mn, word_of_int mx} \<subseteq> set vs \<and>
    (mn \<le> 0 \<and> 0 \<le> mx \<longrightarrow> 0 \<in> set vs)"
proof -
  note r = assms(3) [unfolded range_ok_def]
  have g: "\<not> (mn = 1 \<and> mx = 1)" "\<not> mx - MAX_TEST_VALS < TMin" using assms(2) r by auto
  show ?thesis
  proof (cases "mx - MAX_TEST_VALS \<le> mn")
    case True
    then have x: "mx \<noteq> TMax" using r by auto
    let ?vs = "map word_of_int [mn..mx] :: c_int list"
    have l: "int (length ?vs) \<le> MAX_TEST_VALS" using True r by auto
    then have "gen_vals c rnd RM k (mn, mx) test_range arg = Some (?vs, k)"
      using assms(1) g True x unfolding gen_vals_def Let_def fits_def by auto
    moreover have "\<forall>v\<in>set ?vs. mn \<le> sint v \<and> sint v \<le> mx" using r by (auto simp: sint_of)
    moreover have "{word_of_int mn, word_of_int mx} \<subseteq> set ?vs" using r by simp
    moreover have "mn \<le> 0 \<and> 0 \<le> mx \<longrightarrow> 0 \<in> set ?vs" by (auto intro: image_eqI [of _ _ 0])
    ultimately show ?thesis using l by blast
  next
    case False
    let ?f = "\<lambda>i. int_vals mn mx (random_val (rnd (k + i)) RM mn mx) (int i)"
    let ?vs = "concat (map (\<lambda>i. map word_of_int (?f i)) [0..<test_range]) :: c_int list"
    have "length ?vs \<le> 5 * length [0..<test_range]" by (rule length_concat_le) (simp add: int_vals_def)
    then have l: "int (length ?vs) \<le> MAX_TEST_VALS" using assms(4) by (simp add: TEST_RANGE_def MAX_TEST_VALS_def)
    then have 1: "gen_vals c rnd RM k (mn, mx) test_range arg = Some (?vs, k + test_range)"
      using assms(1) g False unfolding gen_vals_def Let_def fits_def by auto
    have b: "mn \<le> v \<and> v \<le> mx" if "v \<in> set (?f i)" "i < test_range" for v i
    proof -
      have "mn \<le> random_val (rnd (k + i)) RM mn mx \<and> random_val (rnd (k + i)) RM mn mx \<le> mx"
        using random_bounds assms(6) r by (simp add: rand_ok_def)
      moreover have "int i < 500000" using that(2) assms(4) by (simp add: TEST_RANGE_def)
      moreover have "mn + 6500000 < mx" using False by (simp add: MAX_TEST_VALS_def)
      ultimately show ?thesis using that(1) by (auto simp: int_vals_def split: if_splits)
    qed
    have 2: "\<forall>v\<in>set ?vs. mn \<le> sint v \<and> sint v \<le> mx"
    proof
      fix v assume "v \<in> set ?vs"
      then obtain i x where x: "i < test_range" "x \<in> set (?f i)" "v = word_of_int x" by auto
      have "mn \<le> x \<and> x \<le> mx" by (rule b [OF x(2,1)])
      then show "mn \<le> sint v \<and> sint v \<le> mx" using r x(3) by (simp add: sint_of)
    qed
    have "word_of_int ` set (?f 0) \<subseteq> set ?vs" using assms(5) by force
    moreover have "{mn, mx} \<subseteq> set (?f 0)" "mn \<le> 0 \<and> 0 \<le> mx \<longrightarrow> 0 \<in> set (?f 0)" by (simp_all add: int_vals_def)
    ultimately have "{word_of_int mn, word_of_int mx} \<subseteq> set ?vs" "mn \<le> 0 \<and> 0 \<le> mx \<longrightarrow> word_of_int 0 \<in> set ?vs"
      by (meson image_eqI insert_subset subsetD empty_subsetI)+
    then show ?thesis using 1 2 l by (auto simp del: set_concat set_map)
  qed
qed

lemma gen_vals_float:
  assumes "\<not> has_arg c ! arg" "test_range \<le> TEST_RANGE"
  shows "\<exists>vs. gen_vals c rnd RM k (1, 1) test_range arg = Some (vs, k)"
proof -
  have "length (concat (map (\<lambda>i. float_vals (of_nat i)) [0..<test_range])) \<le> 12 * length [0..<test_range]"
    by (rule length_concat_le) (simp add: float_vals_def)
  then show ?thesis
    using assms by (auto simp: gen_vals_def fits_def TEST_RANGE_def MAX_TEST_VALS_def float_specials_def Let_def)
qed

text \<open>The array is one element short for a range of exactly 6500001 values.\<close>

lemma gen_vals_overrun: "gen_vals defaults rnd RM k (0, 6500000) test_range 0 = None"
  by (simp add: gen_vals_def fits_def defaults_def MAX_TEST_VALS_def TMin_def TMax_def)

subsection \<open>The loops of test_function\<close>

text \<open>The result of a test that should be passed exactly if \<open>b\<close> holds; a call may not return.\<close>

definition verdict :: "nat option \<Rightarrow> bool \<Rightarrow> bool" where
  "verdict r b \<longleftrightarrow> (if b then r = Some 0 else r = Some 1 \<or> r = None)"

lemma verdict_until: "(\<And>v. v \<in> set vs \<Longrightarrow> verdict (g v) (P v)) \<Longrightarrow> verdict (until_error g vs) (\<forall>v\<in>set vs. P v)"
proof (induction vs)
  case (Cons v vs)
  have "verdict (g v) (P v)" "verdict (until_error g vs) (\<forall>v\<in>set vs. P v)" using Cons by simp_all
  then show ?case by (cases "g v") (auto simp: verdict_def split: if_splits)
qed (simp add: verdict_def)

lemma verdict_call:
  "ft xs \<noteq> None \<Longrightarrow> verdict (do { r \<leftarrow> f xs; rt \<leftarrow> ft xs; Some (if r \<noteq> rt then 1 else 0) }) (f xs = ft xs)"
  by (cases "f xs"; cases "ft xs") (auto simp: verdict_def)

lemma verdict_loops:
  assumes "\<forall>xs\<in>set (product_lists vals). ft xs \<noteq> None" "length vals = nat args" "0 \<le> args" "args \<le> 3"
  shows "verdict (test_loops f ft args vals) (\<forall>xs\<in>set (product_lists vals). f xs = ft xs)"
proof -
  note d = test_0_arg_def test_1_arg_def test_2_arg_def test_3_arg_def
  consider "args = 0" | "args = 1" | "args = 2" | "args = 3" using assms(3,4) by linarith
  then show ?thesis
  proof cases
    case 1
    then have "vals = []" using assms(2) by simp
    then show ?thesis using 1 assms(1) verdict_call [of ft "[]" f] by (simp add: test_loops_def d)
  next
    case 2
    then obtain a where v: "vals = [a]" using assms(2) by (auto simp: length_Suc_conv)
    have "verdict (until_error (\<lambda>a1. test_1_arg f ft a1) a) (\<forall>a1\<in>set a. f [a1] = ft [a1])"
      using assms(1) v by (intro verdict_until) (auto simp: d intro!: verdict_call)
    then show ?thesis using 2 v by (simp add: test_loops_def)
  next
    case 3
    then obtain a b where v: "vals = [a, b]" using assms(2) by (auto simp: length_Suc_conv numeral_2_eq_2)
    have "verdict (until_error (\<lambda>a1. until_error (\<lambda>a2. test_2_arg f ft a1 a2) b) a)
        (\<forall>a1\<in>set a. \<forall>a2\<in>set b. f [a1, a2] = ft [a1, a2])"
      using assms(1) v by (intro verdict_until) (auto simp: d intro!: verdict_call)
    then show ?thesis using 3 v by (simp add: test_loops_def)
  next
    case 4
    then obtain a b e where v: "vals = [a, b, e]" using assms(2) by (auto simp: length_Suc_conv numeral_3_eq_3)
    have "verdict (until_error (\<lambda>a1. until_error (\<lambda>a2. until_error (\<lambda>a3. test_3_arg f ft a1 a2 a3) e) b) a)
        (\<forall>a1\<in>set a. \<forall>a2\<in>set b. \<forall>a3\<in>set e. f [a1, a2, a3] = ft [a1, a2, a3])"
      using assms(1) v by (intro verdict_until) (auto simp: d intro!: verdict_call)
    then show ?thesis using 4 v by (simp add: test_loops_def numeral_2_eq_2)
  qed
qed

lemma gen_args_length: "gen_args c rnd RM k ranges n is = Some (vals, k') \<Longrightarrow> length vals = length is"
  by (induction "is" arbitrary: k vals) (auto split: bind_splits prod.splits)

lemma test_function_run:
  assumes "0 \<le> t_args t" "t_args t \<le> 3"
    and "gen_args c rnd RM k (t_ranges t) (test_range_of (t_args t)) [0..<nat (t_args t)] = Some (vals, k')"
    and "\<forall>xs\<in>set (product_lists vals). t_test t xs \<noteq> None" "0 < timeout_limit c" "\<not> stale al (t_name t)"
  shows "test_function c rnd RM al k t =
    Done (if slow al (t_name t) \<or> (\<exists>xs\<in>set (product_lists vals). t_solution t xs \<noteq> t_test t xs) then 1 else 0, k')"
proof -
  have "length vals = nat (t_args t)" using gen_args_length [OF assms(3)] by simp
  then have "verdict (test_loops (t_solution t) (t_test t) (t_args t) vals)
      (\<forall>xs\<in>set (product_lists vals). t_solution t xs = t_test t xs)"
    by (rule verdict_loops [OF assms(4) _ assms(1,2)])
  then show ?thesis using assms(1-3,5,6) by (auto simp: test_function_def verdict_def Let_def split: if_splits)
qed


subsection \<open>The puzzles get all points\<close>

definition range_of_arg :: "(int \<times> int) list \<Rightarrow> nat \<Rightarrow> bool" where
  "range_of_arg rs i \<longleftrightarrow> rs ! i = (1, 1) \<or> range_ok (fst (rs ! i)) (snd (rs ! i))"

definition in_range :: "(int \<times> int) list \<Rightarrow> nat \<Rightarrow> c_int \<Rightarrow> bool" where
  "in_range rs i v \<longleftrightarrow> rs ! i = (1, 1) \<or> fst (rs ! i) \<le> sint v \<and> sint v \<le> snd (rs ! i)"

lemma gen_args_in_range:
  assumes "\<forall>i\<in>set is. range_of_arg rs i \<and> \<not> has_arg c ! i" "n \<le> TEST_RANGE" "0 < n" "rand_ok rnd RM"
  shows "\<exists>vals k'. gen_args c rnd RM k rs n is = Some (vals, k') \<and> list_all2 (\<lambda>i vs. \<forall>v\<in>set vs. in_range rs i v) is vals"
  using assms(1)
proof (induction "is" arbitrary: k)
  case (Cons i "is")
  have i: "range_of_arg rs i" "\<not> has_arg c ! i" using Cons.prems by simp_all
  obtain vs k1 where vs: "gen_vals c rnd RM k (rs ! i) n i = Some (vs, k1)" "\<forall>v\<in>set vs. in_range rs i v"
  proof (cases "rs ! i = (1, 1)")
    case True
    then show ?thesis using that gen_vals_float [OF i(2) assms(2), of rnd RM k] by (auto simp: in_range_def)
  next
    case False
    then have "range_ok (fst (rs ! i)) (snd (rs ! i))" "(fst (rs ! i), snd (rs ! i)) \<noteq> (1, 1)"
      using i(1) by (auto simp: range_of_arg_def)
    from gen_vals_int [OF i(2) this(2,1) assms(2-4), of k] show ?thesis using that by (auto simp: in_range_def)
  qed
  obtain vals k2 where "gen_args c rnd RM k1 rs n is = Some (vals, k2)" "list_all2 (\<lambda>i vs. \<forall>v\<in>set vs. in_range rs i v) is vals"
    using Cons.IH [of k1] Cons.prems by auto
  then show ?case using vs by simp
qed simp

lemma product_legal:
  assumes "list_all2 (\<lambda>i vs. \<forall>v\<in>set vs. in_range (t_ranges t) i v) [0..<nat (t_args t)] vals" "0 \<le> t_args t"
    and "xs \<in> set (product_lists vals)"
  shows "legal t xs"
  using assms by (auto simp: product_lists_set list_all2_conv_all_nth legal_def in_range_def)

lemma table_ranges:
  assumes "t \<in> set test_set"
  shows "0 \<le> t_args t \<and> t_args t \<le> 3 \<and> (\<forall>i\<in>set [0..<nat (t_args t)]. range_of_arg (t_ranges t) i)"
proof -
  have r: "range_ok TMin TMax" "range_ok 0 3" "range_ok 0 31" "range_ok 1 32" "range_ok 0 30" "range_ok 1 TMax"
    by (simp_all add: range_ok_def TMin_def TMax_def MAX_TEST_VALS_def)
  have U: "{0..<2::nat} = {0, 1}" by auto
  show ?thesis
    using assms r unfolding test_set_def Let_def
    by (simp only: set_simps insert_iff empty_iff, elim disjE) (simp_all add: puzzle_def range_of_arg_def U)
qed

lemma test_ok:
  assumes "t \<in> set test_set" "rand_ok rnd RM" "\<not> slow al (t_name t) \<and> \<not> stale al (t_name t)" "has_arg c = [False, False, False]"
  shows "\<exists>k'. test_function c rnd RM al k t = Done (0, k')"
proof -
  note t = table_ranges [OF assms(1)]
  have h: "\<not> has_arg c ! i" if "i \<in> set [0..<nat (t_args t)]" for i
  proof -
    have "i = 0 \<or> i = 1 \<or> i = 2" using that t by auto
    then show ?thesis unfolding assms(4) by auto
  qed
  have n: "test_range_of (t_args t) \<le> TEST_RANGE" "0 < test_range_of (t_args t)"
    by (simp_all add: test_range_of_def TEST_RANGE_def)
  have "\<forall>i\<in>set [0..<nat (t_args t)]. range_of_arg (t_ranges t) i \<and> \<not> has_arg c ! i" using t h by blast
  from gen_args_in_range [OF this n assms(2)] obtain vals k' where
    g: "gen_args c rnd RM k (t_ranges t) (test_range_of (t_args t)) [0..<nat (t_args t)] = Some (vals, k')"
      "list_all2 (\<lambda>i vs. \<forall>v\<in>set vs. in_range (t_ranges t) i v) [0..<nat (t_args t)] vals" by blast
  have e: "t_solution t xs \<noteq> None \<and> t_solution t xs = t_test t xs" if "xs \<in> set (product_lists vals)" for xs
    by (rule puzzle_eq [OF assms(1) product_legal [OF g(2) _ that]]) (use t in simp)
  have l: "length vals = nat (t_args t)" using gen_args_length [OF g(1)] by simp
  have "verdict (test_loops (t_solution t) (t_test t) (t_args t) vals)
      (\<forall>xs\<in>set (product_lists vals). t_solution t xs = t_test t xs)"
  proof (rule verdict_loops)
    show "\<forall>xs\<in>set (product_lists vals). t_test t xs \<noteq> None" using e by metis
  qed (use t l in simp_all)
  then have "test_loops (t_solution t) (t_test t) (t_args t) vals = Some 0" using e by (simp add: verdict_def)
  then show ?thesis using g(1) t assms(3) by (simp add: test_function_def)
qed

definition selected :: "btest \<Rightarrow> test_rec list \<Rightarrow> test_rec list" where
  "selected c ts = filter (\<lambda>t. test_fname c = None \<or> test_fname c = Some (t_name t)) ts"

definition weight :: "btest \<Rightarrow> test_rec \<Rightarrow> int" where
  "weight c t = (if global_rating c \<noteq> 0 then global_rating c else t_rating t)"

lemma run_tests_ok:
  assumes "set ts \<subseteq> set test_set" "rand_ok rnd RM" "\<forall>n. \<not> slow al n \<and> \<not> stale al n" "has_arg c = [False, False, False]" "s_points s = s_max_points s"
  shows "\<exists>s'. run_tests_loop c rnd RM al k ts s = Done s' \<and> s_errors s' = s_errors s \<and>
    s_points s' = s_max_points s' \<and> s_points s' = s_points s + (\<Sum>t\<leftarrow>selected c ts. weight c t) \<and>
    s_lines s' = s_lines s @ map (\<lambda>t. (weight c t, weight c t, 0, t_name t)) (selected c ts)"
  using assms(1,5)
proof (induction ts arbitrary: k s)
  case (Cons t ts)
  show ?case
  proof (cases "test_fname c = None \<or> test_fname c = Some (t_name t)")
    case True
    obtain k' where k': "test_function c rnd RM al k t = Done (0, k')"
      using test_ok [of t rnd RM al c k] Cons.prems(1) assms(2-4) by auto
    let ?s = "\<lparr>s_errors = s_errors s + 0, s_points = s_points s + weight c t * 1, s_max_points = s_max_points s + weight c t,
      s_lines = s_lines s @ [(weight c t * 1, weight c t, 0, t_name t)]\<rparr>"
    have "run_tests_loop c rnd RM al k (t # ts) s = run_tests_loop c rnd RM al k' ts ?s"
      using True k' by (simp add: weight_def Let_def)
    moreover have "s_points ?s = s_max_points ?s" "set ts \<subseteq> set test_set" using Cons.prems by simp_all
    ultimately show ?thesis using Cons.IH [of ?s k'] True by (auto simp: selected_def)
  next
    case False
    then show ?thesis using Cons.IH [of s k] Cons.prems by (auto simp: selected_def)
  qed
qed (simp add: selected_def)

lemmas table = test_set_def [unfolded Let_def]

subsection \<open>The properties\<close>

text \<open>C21: every puzzle of the table returns what its reference returns, which itself returns,
  on all arguments in the ranges the table states: the bit counts, shifts, tests and comparisons
  of \<open>int\<close>, also where C's arithmetic overflows, and for the floating point puzzles all bit patterns,
  against rounded single precision arithmetic.\<close>

theorem puzzles_correct:
  assumes "t \<in> set test_set" "legal t args"
  shows "t_test t args \<noteq> None \<and> t_solution t args = t_test t args"
  using puzzle_eq [OF assms] by metis

theorem puzzles_correct_witness:
  "divpwr2 (- 33) 4 = test_divpwr2 (- 33) 4 \<and> float_twice 0x00600000 = test_float_twice 0x00600000"
proof
  have "test_set ! 7 \<in> set test_set" by (rule nth_mem) (simp add: table)
  moreover have "legal (test_set ! 7) [- 33, 4]"
    by (simp add: legal_def table puzzle_def TMin_def TMax_def less_Suc_eq numeral_2_eq_2)
  ultimately have "t_solution (test_set ! 7) [- 33, 4] = t_test (test_set ! 7) [- 33, 4]" using puzzles_correct by blast
  then show "divpwr2 (- 33) 4 = test_divpwr2 (- 33) 4" by (simp add: table puzzle_def fun2_def)
  have "test_set ! 14 \<in> set test_set" by (rule nth_mem) (simp add: table)
  moreover have "legal (test_set ! 14) [0x00600000]" by (simp add: legal_def table puzzle_def)
  ultimately have "t_solution (test_set ! 14) [0x00600000] = t_test (test_set ! 14) [0x00600000]" using puzzles_correct by blast
  then show "float_twice 0x00600000 = test_float_twice 0x00600000" by (simp add: table puzzle_def fun1_def)
qed

text \<open>C40: for an argument with a range that is not exactly 6500001 values wide, nor so near to the
  ends of \<open>int\<close> that the code's own arithmetic overflows, \<open>gen_vals\<close> stays inside its array of
  6500000 values, and whatever \<open>rand\<close> returns all values lie in the range and the least and the
  largest one are among them, and zero if it is in the range.\<close>

theorem gen_vals_range:
  assumes "\<not> has_arg c ! arg" "(mn, mx) \<noteq> (1, 1)" "range_ok mn mx" "test_range \<le> TEST_RANGE" "0 < test_range" "rand_ok rnd RM"
  shows "\<exists>vs k'. gen_vals c rnd RM k (mn, mx) test_range arg = Some (vs, k') \<and> int (length vs) \<le> MAX_TEST_VALS \<and>
    (\<forall>v\<in>set vs. mn \<le> sint v \<and> sint v \<le> mx) \<and> {word_of_int mn, word_of_int mx} \<subseteq> set vs \<and>
    (mn \<le> 0 \<and> 0 \<le> mx \<longrightarrow> 0 \<in> set vs)"
  by (rule gen_vals_int [OF assms])

theorem gen_vals_range_witness:
  "\<exists>vs k'. gen_vals defaults (\<lambda>n. n mod 8) 7 0 (TMin, TMax) 500000 0 = Some (vs, k') \<and> int (length vs) \<le> 6500000 \<and>
    {- 2147483648, 0, 2147483647} \<subseteq> set vs"
proof -
  have r: "rand_ok (\<lambda>n. n mod 8) 7" unfolding rand_ok_def
  proof (intro conjI allI)
    fix n :: nat
    have "n mod 8 < 8" by simp
    then show "n mod 8 \<le> 7" by linarith
  qed simp
  have "range_ok TMin TMax" by (simp add: range_ok_def TMin_def TMax_def MAX_TEST_VALS_def)
  from gen_vals_range [OF _ _ this _ _ r, of defaults 0 500000 0] show ?thesis
    by (auto simp: defaults_def TMin_def TMax_def TEST_RANGE_def MAX_TEST_VALS_def)
qed

text \<open>C39: with a time limit set, \<open>test_function\<close> reports an error exactly if the solution differs
  from the reference, or does not return, on some combination of the generated values, or
  the alarm comes before the loops are done; the loops miss no combination, and
  the number reported is 0 or 1. No alarm of an earlier test comes while the values are generated.\<close>

theorem test_function_exact:
  assumes "0 \<le> t_args t" "t_args t \<le> 3"
    and "gen_args c rnd RM k (t_ranges t) (test_range_of (t_args t)) [0..<nat (t_args t)] = Some (vals, k')"
    and "\<forall>xs\<in>set (product_lists vals). t_test t xs \<noteq> None" "0 < timeout_limit c" "\<not> stale al (t_name t)"
  shows "test_function c rnd RM al k t =
    Done (if slow al (t_name t) \<or> (\<exists>xs\<in>set (product_lists vals). t_solution t xs \<noteq> t_test t xs) then 1 else 0, k')"
  by (rule test_function_run [OF assms])

definition in_time :: alarms where
  "in_time = \<lparr>slow = (\<lambda>_. False), stale = (\<lambda>_. False)\<rparr>"

lemma in_time_simps [simp]: "slow in_time n = False" "stale in_time n = False"
  by (simp_all add: in_time_def)

definition wrong_sum :: test_rec where
  "wrong_sum = puzzle ''sum'' (\<lambda>xs. if xs ! 0 = 2 \<and> xs ! 1 = 1 then None else Some (xs ! 0 + xs ! 1))
     (fun2 (\<lambda>x y. x + y)) 2 ''+'' 1 1 [(0, 3), (0, 1), (0, 0)]"

theorem test_function_exact_witness: "test_function defaults (\<lambda>n. 0) 1 in_time 0 wrong_sum = Done (1, 0)"
proof -
  have u: "[0..3] = [0, 1, 2, 3 :: int]" "[0..1] = [0, 1 :: int]" "[0..<2] = [0, Suc 0]" by (simp_all add: upto.simps upt_rec)
  have g: "gen_args defaults (\<lambda>n. 0) 1 0 (t_ranges wrong_sum) (test_range_of (t_args wrong_sum)) [0..<nat (t_args wrong_sum)] =
      Some ([[0, 1, 2, 3], [0, 1]], 0)"
    by (simp add: wrong_sum_def puzzle_def gen_vals_def fits_def defaults_def MAX_TEST_VALS_def TMin_def TMax_def u)
  have "test_function defaults (\<lambda>n. 0) 1 in_time 0 wrong_sum =
      Done (if slow in_time (t_name wrong_sum) \<or> (\<exists>xs\<in>set (product_lists [[0, 1, 2, 3], [0, 1]]). t_solution wrong_sum xs \<noteq> t_test wrong_sum xs) then 1 else 0, 0)"
    by (rule test_function_exact [OF _ _ g]) (simp_all add: wrong_sum_def puzzle_def fun2_def defaults_def TIMEOUT_LIMIT_def)
  then show ?thesis by (simp add: wrong_sum_def puzzle_def fun2_def)
qed

text \<open>C15: the harness gives the puzzles of \<open>bits.c\<close> all points, whatever \<open>rand\<close> returns, for all
  functions or the one chosen with \<open>-f\<close>, with the weights of the table or the one set with \<open>-r\<close>, as long
  as no argument is fixed on the command line and no alarm comes early or late.\<close>

theorem btest_full_score:
  assumes "rand_ok rnd RM" "has_arg c = [False, False, False]" "\<forall>n. \<not> slow al n \<and> \<not> stale al n"
  shows "\<exists>s. run_tests c rnd RM al = Done s \<and> s_errors s = 0 \<and>
    s_points s = s_max_points s \<and> s_points s = (\<Sum>t\<leftarrow>selected c test_set. weight c t) \<and>
    s_lines s = map (\<lambda>t. (weight c t, weight c t, 0, t_name t)) (selected c test_set)"
  using run_tests_ok [OF order_refl assms(1,3,2), of "\<lparr>s_errors = 0, s_points = 0, s_max_points = 0, s_lines = []\<rparr>" 0]
  by (simp add: run_tests_def)

theorem btest_full_score_witness:
  "(\<exists>s. btest_main (\<lambda>x. (0, x)) (\<lambda>n. 3) 7 in_time [] = Done s \<and> s_errors s = 0 \<and> s_points s = 41) \<and>
   (\<exists>s. btest_main (\<lambda>x. (0, x)) (\<lambda>n. 3) 7 in_time [''-f'', ''bang'', ''-g''] = Done s \<and>
     s_lines s = [(4, 4, 0, ''bang'')])"
proof
  have r: "rand_ok (\<lambda>n. 3) 7" by (simp add: rand_ok_def)
  have m: "btest_main (\<lambda>x. (0, x)) (\<lambda>n. 3) 7 in_time [] = run_tests defaults (\<lambda>n. 3) 7 in_time"
    "btest_main (\<lambda>x. (0, x)) (\<lambda>n. 3) 7 in_time [''-f'', ''bang'', ''-g''] =
      run_tests (defaults\<lparr>test_fname := Some ''bang'', grade := True\<rparr>) (\<lambda>n. 3) 7 in_time"
    by (simp_all add: btest_main_def Let_def)
  have w: "(\<Sum>t\<leftarrow>selected defaults test_set. weight defaults t) = 41"
    by (simp add: defaults_def selected_def weight_def table puzzle_def)
  let ?c = "defaults\<lparr>test_fname := Some ''bang'', grade := True\<rparr>"
  have l: "map (\<lambda>t. (weight ?c t, weight ?c t, 0 :: nat, t_name t)) (selected ?c test_set) = [(4, 4, 0, ''bang'')]"
    by (simp add: defaults_def selected_def weight_def table puzzle_def)
  have I: "\<forall>n. \<not> slow in_time n \<and> \<not> stale in_time n" by simp
  have h: "has_arg defaults = [False, False, False]" "has_arg ?c = [False, False, False]" by (simp_all add: defaults_def)
  show "\<exists>s. btest_main (\<lambda>x. (0, x)) (\<lambda>n. 3) 7 in_time [] = Done s \<and> s_errors s = 0 \<and> s_points s = 41"
    using btest_full_score [OF r h(1) I] unfolding m w by blast
  show "\<exists>s. btest_main (\<lambda>x. (0, x)) (\<lambda>n. 3) 7 in_time [''-f'', ''bang'', ''-g''] = Done s \<and>
      s_lines s = [(4, 4, 0, ''bang'')]"
    using btest_full_score [OF r h(2) I] unfolding m l by blast
qed

text \<open>\<open>get_num_val\<close> looks at \<open>*valp\<close> where it means \<open>*endp\<close>: it takes a number with text behind it, and
  refuses a second number for an argument that already has one.\<close>

lemma get_num_val_garbage: "get_num_val strtof ''3zz'' 0 = (True, 3)" "get_num_val strtof ''5'' 3 = (False, 3)"
  by (simp_all add: get_num_val_def strtoll_def is_space_def digit_of_def clamp_def)

end
