(* ===== verification/Memlib.thy ===== *)
theory Memlib
  imports Base
begin

text \<open>
  The simulated memory of \<open>malloclab-handout/memlib.c\<close>: three pointers (the start of the
  heap, its break and its limit) and the bytes behind them. A pointer is a 32-bit word, as
  under \<open>-m32\<close>; the bytes are addressed by natural numbers, so that an access that runs
  past the top of the address space cannot come back at 0. An access outside the block the
  memory system allocated with \<open>malloc(MAX_HEAP)\<close> is \<open>None\<close>: it is undefined in C. The
  multi-byte accesses are little endian, as on the x86 the programs are built for.
\<close>

type_synonym ptr = "32 word"
type_synonym byte = "8 word"

definition NULL :: ptr where
  "NULL = 0"

definition MAX_HEAP :: c_int where
  "MAX_HEAP = 20 * (push_bit 20 1)"

record heap =
  mem_start_brk :: ptr
  mem_brk :: ptr
  mem_max_addr :: ptr
  mem_bytes :: "nat \<Rightarrow> byte"

subsection \<open>The operations of memlib.c\<close>

text \<open>
  \<open>mem_init\<close> takes the pointer libc's \<open>malloc\<close> returned and the bytes found behind it;
  a null pointer ends the program (\<open>None\<close>).
\<close>

definition mem_init :: "ptr \<Rightarrow> (nat \<Rightarrow> byte) \<Rightarrow> heap option" where
  "mem_init p junk =
     (if p = NULL then None
      else Some \<lparr>mem_start_brk = p, mem_brk = p, mem_max_addr = p + MAX_HEAP, mem_bytes = junk\<rparr>)"

definition mem_reset_brk :: "heap \<Rightarrow> heap" where
  "mem_reset_brk s = s\<lparr>mem_brk := mem_start_brk s\<rparr>"

text \<open>
  \<open>incr\<close> is an \<open>int\<close>; a failed call returns \<open>(void *)-1\<close>. The comparison of the new
  break with the limit is one of pointers, so it is unsigned and the sum wraps.
\<close>

definition mem_sbrk :: "c_int \<Rightarrow> heap \<Rightarrow> ptr \<times> heap" where
  "mem_sbrk incr s =
    (let old_brk = mem_brk s
     in if incr <s 0 \<or> mem_brk s + incr > mem_max_addr s then (- 1, s)
        else (old_brk, s\<lparr>mem_brk := mem_brk s + incr\<rparr>))"

definition mem_heap_lo :: "heap \<Rightarrow> ptr" where
  "mem_heap_lo s = mem_start_brk s"

definition mem_heap_hi :: "heap \<Rightarrow> ptr" where
  "mem_heap_hi s = mem_brk s - 1"

definition mem_heapsize :: "heap \<Rightarrow> c_uint" where
  "mem_heapsize s = mem_brk s - mem_start_brk s"

subsection \<open>Reading and writing the bytes\<close>

definition mem_ok :: "heap \<Rightarrow> nat \<Rightarrow> nat \<Rightarrow> bool" where
  "mem_ok s a n \<longleftrightarrow> unat (mem_start_brk s) \<le> a \<and> a + n \<le> unat (mem_max_addr s)"

definition load8 :: "nat \<Rightarrow> heap \<Rightarrow> byte option" where
  "load8 a s = (if mem_ok s a 1 then Some (mem_bytes s a) else None)"

definition store8 :: "nat \<Rightarrow> byte \<Rightarrow> heap \<Rightarrow> heap option" where
  "store8 a v s = (if mem_ok s a 1 then Some (s\<lparr>mem_bytes := (mem_bytes s)(a := v)\<rparr>) else None)"

definition rd32 :: "(nat \<Rightarrow> byte) \<Rightarrow> nat \<Rightarrow> c_uint" where
  "rd32 m a = ucast (m a) OR push_bit 8 (ucast (m (a + 1)))
     OR push_bit 16 (ucast (m (a + 2))) OR push_bit 24 (ucast (m (a + 3)))"

definition wr32 :: "(nat \<Rightarrow> byte) \<Rightarrow> nat \<Rightarrow> c_uint \<Rightarrow> (nat \<Rightarrow> byte)" where
  "wr32 m a v = m(a := ucast v, a + 1 := ucast (drop_bit 8 v),
     a + 2 := ucast (drop_bit 16 v), a + 3 := ucast (drop_bit 24 v))"

definition load32 :: "nat \<Rightarrow> heap \<Rightarrow> c_uint option" where
  "load32 a s = (if mem_ok s a 4 then Some (rd32 (mem_bytes s) a) else None)"

definition store32 :: "nat \<Rightarrow> c_uint \<Rightarrow> heap \<Rightarrow> heap option" where
  "store32 a v s =
    (if mem_ok s a 4 then Some (s\<lparr>mem_bytes := wr32 (mem_bytes s) a v\<rparr>) else None)"

subsection \<open>Laws of the byte memory\<close>

lemma rd32_bit:
  "bit (rd32 m a) n \<longleftrightarrow>
    (if n < 8 then bit (m a) n else if n < 16 then bit (m (a + 1)) (n - 8)
     else if n < 24 then bit (m (a + 2)) (n - 16) else n < 32 \<and> bit (m (a + 3)) (n - 24))"
  by (auto simp: rd32_def bit_simps dest: bit_imp_le_length)

lemma rd32_wr32_same [simp]: "rd32 (wr32 m a v) a = v"
  by (rule bit_word_eqI) (auto simp: rd32_bit wr32_def bit_simps)

lemma rd32_wr32_other: "a + 4 \<le> b \<or> b + 4 \<le> a \<Longrightarrow> rd32 (wr32 m a v) b = rd32 m b"
  by (auto simp: rd32_def wr32_def)

lemma wr32_other: "b < a \<or> a + 4 \<le> b \<Longrightarrow> wr32 m a v b = m b"
  by (auto simp: wr32_def)

lemma wr32_rd32 [simp]: "wr32 m a (rd32 m a) = m"
  by (rule ext) (auto simp: wr32_def rd32_bit bit_simps intro!: bit_word_eqI)

lemma rd32_cong:
  "(\<And>i. a \<le> i \<Longrightarrow> i < a + 4 \<Longrightarrow> m i = m' i) \<Longrightarrow> rd32 m a = rd32 m' a"
  by (simp add: rd32_def)

end
