(* ===== verification/Node.thy ===== *)
theory Node
  imports Memlib
begin

text \<open>
  \<open>struct MM_Node\<close> and \<open>struct MM_Data\<close> of \<open>malloclab-handout/mm.c\<close> as they lie in
  the bytes of the heap: four words, the second of which is the bit field
  \<open>size:29, alloc:1, color:1, null:1\<close> (least significant field first). Reads and writes
  of a field go through the accessors below, one per field of the struct; a one-bit field is
  a boolean. \<open>field_laws\<close> collects what a read returns after a write, for nodes that do not
  overlap, and \<open>region\<close> is the interface the tree and the allocator use them through.
\<close>

named_theorems field_laws \<open>reads of node fields after writes\<close>
named_theorems get_laws \<open>accessors on nodes inside the heap\<close>

abbreviation (input) MM_ALIGN :: nat where "MM_ALIGN \<equiv> 3"
abbreviation (input) MM_UNIT :: c_uint where "MM_UNIT \<equiv> 144"
abbreviation (input) MM_ALLOC_FREE :: bool where "MM_ALLOC_FREE \<equiv> False"
abbreviation (input) MM_ALLOC_ALLOC :: bool where "MM_ALLOC_ALLOC \<equiv> True"
abbreviation (input) MM_COLOR_BLACK :: bool where "MM_COLOR_BLACK \<equiv> False"
abbreviation (input) MM_COLOR_RED :: bool where "MM_COLOR_RED \<equiv> True"
abbreviation (input) MM_NULL_NOTNULL :: bool where "MM_NULL_NOTNULL \<equiv> False"
abbreviation (input) MM_NULL_NULL :: bool where "MM_NULL_NULL \<equiv> True"
abbreviation (input) MM_HEADER_SIZE :: c_uint where "MM_HEADER_SIZE \<equiv> 8"
abbreviation (input) MM_NODE_SIZE :: c_uint where "MM_NODE_SIZE \<equiv> 16"
abbreviation (input) MM_DATA_SIZE :: c_uint where "MM_DATA_SIZE \<equiv> 24"

subsection \<open>The bit field\<close>

definition bf_size :: "c_uint \<Rightarrow> c_uint" where
  "bf_size w = take_bit 29 w"

definition bf_set_size :: "c_uint \<Rightarrow> c_uint \<Rightarrow> c_uint" where
  "bf_set_size v w = take_bit 29 v OR (w AND NOT (mask 29))"

definition bf_flag :: "nat \<Rightarrow> c_uint \<Rightarrow> bool" where
  "bf_flag k w = bit w k"

definition bf_set_flag :: "nat \<Rightarrow> bool \<Rightarrow> c_uint \<Rightarrow> c_uint" where
  "bf_set_flag k b w = (if b then set_bit k w else unset_bit k w)"

lemma bf_size_set_size [simp]: "bf_size (bf_set_size v w) = take_bit 29 v"
  unfolding bf_size_def bf_set_size_def by (rule bit_word_eqI) (auto simp: bit_simps)

lemma bf_size_set_flag [simp]: "29 \<le> k \<Longrightarrow> bf_size (bf_set_flag k b w) = bf_size w"
  unfolding bf_size_def bf_set_flag_def by (rule bit_word_eqI) (auto simp: bit_simps)

lemma bf_flag_set_size [simp]: "29 \<le> k \<Longrightarrow> bf_flag k (bf_set_size v w) = bf_flag k w"
  unfolding bf_flag_def bf_set_size_def
  using bit_imp_le_length [of w k] by (auto simp: bit_simps)

lemma bf_flag_set_flag [simp]:
  "k < 32 \<Longrightarrow> bf_flag j (bf_set_flag k b w) = (if j = k then b else bf_flag j w)"
  unfolding bf_flag_def bf_set_flag_def
  using bit_imp_le_length [of w j] by (auto simp: bit_simps)

lemma bf_set_flag_same: "bf_flag k w = b \<Longrightarrow> bf_set_flag k b w = w"
  unfolding bf_flag_def bf_set_flag_def
  by (rule bit_word_eqI) (auto simp: bit_simps)

lemma bf_zero [simp]: "bf_size 0 = 0" "bf_flag k 0 = False"
  by (simp_all add: bf_size_def bf_flag_def)

subsection \<open>The accessors: what \<open>p->field\<close> reads and writes\<close>

definition get_prev :: "ptr \<Rightarrow> heap \<Rightarrow> ptr option" where
  "get_prev p s = load32 (unat p) s"

definition get_bits :: "ptr \<Rightarrow> heap \<Rightarrow> c_uint option" where
  "get_bits p s = load32 (unat p + 4) s"

definition get_size :: "ptr \<Rightarrow> heap \<Rightarrow> c_uint option" where
  "get_size p s = map_option bf_size (get_bits p s)"

definition get_alloc :: "ptr \<Rightarrow> heap \<Rightarrow> bool option" where
  "get_alloc p s = map_option (bf_flag 29) (get_bits p s)"

definition get_color :: "ptr \<Rightarrow> heap \<Rightarrow> bool option" where
  "get_color p s = map_option (bf_flag 30) (get_bits p s)"

definition get_null :: "ptr \<Rightarrow> heap \<Rightarrow> bool option" where
  "get_null p s = map_option (bf_flag 31) (get_bits p s)"

definition get_left :: "ptr \<Rightarrow> heap \<Rightarrow> ptr option" where
  "get_left p s = load32 (unat p + 8) s"

definition get_right :: "ptr \<Rightarrow> heap \<Rightarrow> ptr option" where
  "get_right p s = load32 (unat p + 12) s"

definition set_prev :: "ptr \<Rightarrow> ptr \<Rightarrow> heap \<Rightarrow> heap option" where
  "set_prev p v s = store32 (unat p) v s"

definition set_bits :: "ptr \<Rightarrow> (c_uint \<Rightarrow> c_uint) \<Rightarrow> heap \<Rightarrow> heap option" where
  "set_bits p f s = do { w \<leftarrow> get_bits p s; store32 (unat p + 4) (f w) s }"

definition set_size :: "ptr \<Rightarrow> c_uint \<Rightarrow> heap \<Rightarrow> heap option" where
  "set_size p v s = set_bits p (bf_set_size v) s"

definition set_alloc :: "ptr \<Rightarrow> bool \<Rightarrow> heap \<Rightarrow> heap option" where
  "set_alloc p b s = set_bits p (bf_set_flag 29 b) s"

definition set_color :: "ptr \<Rightarrow> bool \<Rightarrow> heap \<Rightarrow> heap option" where
  "set_color p b s = set_bits p (bf_set_flag 30 b) s"

definition set_null :: "ptr \<Rightarrow> bool \<Rightarrow> heap \<Rightarrow> heap option" where
  "set_null p b s = set_bits p (bf_set_flag 31 b) s"

definition set_left :: "ptr \<Rightarrow> ptr \<Rightarrow> heap \<Rightarrow> heap option" where
  "set_left p v s = store32 (unat p + 8) v s"

definition set_right :: "ptr \<Rightarrow> ptr \<Rightarrow> heap \<Rightarrow> heap option" where
  "set_right p v s = store32 (unat p + 12) v s"

text \<open>The root of the tree, first member of the \<open>MM_Data\<close> at the bottom of the heap, and the
  address of its second member, the sentinel \<open>null\<close>.\<close>

definition get_root :: "heap \<Rightarrow> ptr option" where
  "get_root s = load32 (unat (mem_heap_lo s)) s"

definition set_root :: "ptr \<Rightarrow> heap \<Rightarrow> heap option" where
  "set_root v s = store32 (unat (mem_heap_lo s)) v s"

definition data_null :: "heap \<Rightarrow> ptr" where
  "data_null s = mem_heap_lo s + 4"

subsection \<open>The struct at an address, and what a write does to it\<close>

record mm_node =
  n_prev :: ptr
  n_size :: c_uint
  n_alloc :: bool
  n_color :: bool
  n_null :: bool
  n_left :: ptr
  n_right :: ptr

definition node_at :: "heap \<Rightarrow> ptr \<Rightarrow> mm_node" where
  "node_at s p =
    (let m = mem_bytes s; w = rd32 m (unat p + 4)
     in \<lparr>n_prev = rd32 m (unat p), n_size = bf_size w, n_alloc = bf_flag 29 w, n_color = bf_flag 30 w,
         n_null = bf_flag 31 w, n_left = rd32 m (unat p + 8), n_right = rd32 m (unat p + 12)\<rparr>)"

definition put_word :: "nat \<Rightarrow> ptr \<Rightarrow> c_uint \<Rightarrow> heap \<Rightarrow> heap" where
  "put_word i p v s = s\<lparr>mem_bytes := wr32 (mem_bytes s) (unat p + i) v\<rparr>"

definition put_left :: "ptr \<Rightarrow> ptr \<Rightarrow> heap \<Rightarrow> heap" where
  "put_left p v s = put_word 8 p v s"

definition put_right :: "ptr \<Rightarrow> ptr \<Rightarrow> heap \<Rightarrow> heap" where
  "put_right p v s = put_word 12 p v s"

definition put_color :: "ptr \<Rightarrow> bool \<Rightarrow> heap \<Rightarrow> heap" where
  "put_color p b s = put_word 4 p (bf_set_flag 30 b (rd32 (mem_bytes s) (unat p + 4))) s"

definition node_ok :: "heap \<Rightarrow> ptr \<Rightarrow> bool" where
  "node_ok s p = mem_ok s (unat p) 16"

definition apart :: "ptr set \<Rightarrow> bool" where
  "apart N \<longleftrightarrow> (\<forall>p\<in>N. \<forall>q\<in>N. p \<noteq> q \<longrightarrow> unat p + 16 \<le> unat q \<or> unat q + 16 \<le> unat p)"

lemma apart_mono: "apart N \<Longrightarrow> M \<subseteq> N \<Longrightarrow> apart M"
  by (simp add: apart_def subset_iff)

text \<open>A set of nodes that lie inside the memory and do not overlap.\<close>

definition region :: "ptr set \<Rightarrow> heap \<Rightarrow> bool" where
  "region N s \<longleftrightarrow> apart N \<and> (\<forall>p\<in>N. node_ok s p)"

definition same_bounds :: "heap \<Rightarrow> heap \<Rightarrow> bool" where
  "same_bounds s s' \<longleftrightarrow> mem_start_brk s' = mem_start_brk s \<and> mem_brk s' = mem_brk s \<and>
     mem_max_addr s' = mem_max_addr s"

text \<open>
  What a tree operation on the nodes \<open>P\<close> may change: their colours and their links. The
  header word before them, their sizes and flags and every byte outside them stay.
\<close>

definition frame :: "ptr set \<Rightarrow> heap \<Rightarrow> heap \<Rightarrow> bool" where
  "frame P s s' \<longleftrightarrow> same_bounds s s' \<and>
     (\<forall>a. (\<forall>p\<in>P. a < unat p + 4 \<or> unat p + 16 \<le> a) \<longrightarrow> mem_bytes s' a = mem_bytes s a) \<and>
     (\<forall>p\<in>P. n_size (node_at s' p) = n_size (node_at s p) \<and>
        n_alloc (node_at s' p) = n_alloc (node_at s p) \<and> n_null (node_at s' p) = n_null (node_at s p))"

lemma mem_ok_bounds: "same_bounds s s' \<Longrightarrow> mem_ok s' a n = mem_ok s a n"
  by (simp add: same_bounds_def mem_ok_def)

lemma node_at_sel:
  "n_prev (node_at s p) = rd32 (mem_bytes s) (unat p)"
  "n_size (node_at s p) = bf_size (rd32 (mem_bytes s) (unat p + 4))"
  "n_alloc (node_at s p) = bf_flag 29 (rd32 (mem_bytes s) (unat p + 4))"
  "n_color (node_at s p) = bf_flag 30 (rd32 (mem_bytes s) (unat p + 4))"
  "n_null (node_at s p) = bf_flag 31 (rd32 (mem_bytes s) (unat p + 4))"
  "n_left (node_at s p) = rd32 (mem_bytes s) (unat p + 8)"
  "n_right (node_at s p) = rd32 (mem_bytes s) (unat p + 12)"
  by (simp_all add: node_at_def Let_def)

lemma put_word_bytes [simp]:
  "mem_bytes (put_word i p v s) = wr32 (mem_bytes s) (unat p + i) v"
  "same_bounds s (put_word i p v s')  = same_bounds s s'"
  "mem_ok (put_word i p v s) a n = mem_ok s a n"
  by (simp_all add: put_word_def same_bounds_def mem_ok_def)

lemma same_bounds_refl [simp]: "same_bounds s s"
  by (simp add: same_bounds_def)

lemma node_at_cong:
  assumes "\<And>i. i < 16 \<Longrightarrow> mem_bytes s' (unat x + i) = mem_bytes s (unat x + i)"
  shows "node_at s' x = node_at s x"
proof -
  have "rd32 (mem_bytes s') (unat x + j) = rd32 (mem_bytes s) (unat x + j)" if "j \<le> 12" for j
  proof (rule rd32_cong)
    fix i assume "unat x + j \<le> i" "i < unat x + j + 4"
    then show "mem_bytes s' i = mem_bytes s i" using assms [of "i - unat x"] that by simp
  qed
  from this [of 0] this [of 4] this [of 8] this [of 12] show ?thesis by (simp add: node_at_def Let_def)
qed

text \<open>Reading a word of a node after a write of a word of a node.\<close>

lemma rd32_wr32_node:
  assumes "apart N" "p \<in> N" "q \<in> N" "i \<in> {0, 4, 8, 12}" "j \<in> {0, 4, 8, 12}"
  shows "rd32 (wr32 m (unat p + i) v) (unat q + j) = (if p = q \<and> i = j then v else rd32 m (unat q + j))"
proof (cases "p = q")
  case True
  then show ?thesis using assms(4,5) by (auto simp: rd32_wr32_other)
next
  case False
  then have "unat p + 16 \<le> unat q \<or> unat q + 16 \<le> unat p" using assms(1-3) by (auto simp: apart_def)
  then show ?thesis using False assms(4,5) by (auto simp: rd32_wr32_other)
qed

lemma node_put_word:
  assumes "apart N" "p \<in> N" "q \<in> N" "i \<in> {0, 4, 8, 12}"
  shows "node_at (put_word i p v s) q = (if q = p then
    (if i = 0 then node_at s p\<lparr>n_prev := v\<rparr> else if i = 8 then node_at s p\<lparr>n_left := v\<rparr>
     else if i = 12 then node_at s p\<lparr>n_right := v\<rparr>
     else node_at s p\<lparr>n_size := bf_size v, n_alloc := bf_flag 29 v, n_color := bf_flag 30 v, n_null := bf_flag 31 v\<rparr>)
    else node_at s q)"
proof -
  note rw = rd32_wr32_node [OF assms(1-4), of _ "mem_bytes s" v]
  show ?thesis
    using assms(4) rw [of 0] rw [of 4] rw [of 8] rw [of 12] by (auto simp: node_at_def Let_def)
qed

lemma frame_put_word:
  assumes "apart N" "P \<subseteq> N" "p \<in> P" "i \<in> {4, 8, 12}" "frame P s s'"
    "i = 4 \<longrightarrow> (\<exists>b. v = bf_set_flag 30 b (rd32 (mem_bytes s') (unat p + 4)))"
  shows "frame P s (put_word i p v s')"
proof -
  have "wr32 (mem_bytes s') (unat p + i) v a = mem_bytes s' a"
    if "a < unat p + 4 \<or> unat p + 16 \<le> a" for a
    using that assms(4) by (auto intro!: wr32_other)
  then have b: "mem_bytes (put_word i p v s') a = mem_bytes s a"
    if "\<forall>p\<in>P. a < unat p + 4 \<or> unat p + 16 \<le> a" for a
    using that assms(3,5) by (auto simp: frame_def)
  have "node_at (put_word i p v s') q =
     (if q = p then (if i = 8 then node_at s' p\<lparr>n_left := v\<rparr> else if i = 12 then node_at s' p\<lparr>n_right := v\<rparr>
     else node_at s' p\<lparr>n_size := bf_size v, n_alloc := bf_flag 29 v, n_color := bf_flag 30 v, n_null := bf_flag 31 v\<rparr>)
     else node_at s' q)" if "q \<in> P" for q
  proof -
    have "p \<in> N" "q \<in> N" using assms(2,3) that by auto
    then show ?thesis using node_put_word [of N p q i v s'] assms(1,4) by auto
  qed
  then have "n_size (node_at (put_word i p v s') q) = n_size (node_at s' q) \<and>
      n_alloc (node_at (put_word i p v s') q) = n_alloc (node_at s' q) \<and>
      n_null (node_at (put_word i p v s') q) = n_null (node_at s' q)" if "q \<in> P" for q
    using that assms(4,6) by (auto simp: node_at_sel)
  then show ?thesis using b assms(5) by (simp add: frame_def)
qed

subsection \<open>The interface of the node store\<close>

text \<open>
  What the code of the tree relies on: for the nodes \<open>N\<close> of a store that is \<open>ok\<close>, the
  accessors return the fields of the struct, a write changes one field of one node, and a
  sequence of writes to nodes of \<open>P\<close> stays within the frame of \<open>P\<close>.
\<close>

locale node_store =
  fixes ok :: "heap \<Rightarrow> bool" and N :: "ptr set" and V :: "heap \<Rightarrow> ptr \<Rightarrow> mm_node"
    and pl pr :: "ptr \<Rightarrow> ptr \<Rightarrow> heap \<Rightarrow> heap" and pc :: "ptr \<Rightarrow> bool \<Rightarrow> heap \<Rightarrow> heap"
    and fr :: "ptr set \<Rightarrow> heap \<Rightarrow> heap \<Rightarrow> bool"
  assumes get: "\<lbrakk>ok s; p \<in> N\<rbrakk> \<Longrightarrow> get_size p s = Some (n_size (V s p))"
      "\<lbrakk>ok s; p \<in> N\<rbrakk> \<Longrightarrow> get_color p s = Some (n_color (V s p))"
      "\<lbrakk>ok s; p \<in> N\<rbrakk> \<Longrightarrow> get_null p s = Some (n_null (V s p))"
      "\<lbrakk>ok s; p \<in> N\<rbrakk> \<Longrightarrow> get_left p s = Some (n_left (V s p))"
      "\<lbrakk>ok s; p \<in> N\<rbrakk> \<Longrightarrow> get_right p s = Some (n_right (V s p))"
    and put: "\<lbrakk>ok s; p \<in> N\<rbrakk> \<Longrightarrow> set_left p q s = Some (pl p q s)"
      "\<lbrakk>ok s; p \<in> N\<rbrakk> \<Longrightarrow> set_right p q s = Some (pr p q s)"
      "\<lbrakk>ok s; p \<in> N\<rbrakk> \<Longrightarrow> set_color p b s = Some (pc p b s)"
    and ok_put: "ok (pl p q s) = ok s" "ok (pr p q s) = ok s" "ok (pc p b s) = ok s"
    and view_put: "\<lbrakk>ok s; p \<in> N; x \<in> N\<rbrakk> \<Longrightarrow>
        V (pl p q s) x = (if x = p then (V s p)\<lparr>n_left := q\<rparr> else V s x)"
      "\<lbrakk>ok s; p \<in> N; x \<in> N\<rbrakk> \<Longrightarrow> V (pr p q s) x = (if x = p then (V s p)\<lparr>n_right := q\<rparr> else V s x)"
      "\<lbrakk>ok s; p \<in> N; x \<in> N\<rbrakk> \<Longrightarrow> V (pc p b s) x = (if x = p then (V s p)\<lparr>n_color := b\<rparr> else V s x)"
    and pc_same: "n_color (V s p) = b \<Longrightarrow> pc p b s = s"
    and fr_refl: "fr P s s"
    and fr_trans: "fr P s s' \<Longrightarrow> fr P s' s'' \<Longrightarrow> fr P s s''"
    and fr_mono: "fr P s s' \<Longrightarrow> P \<subseteq> Q \<Longrightarrow> Q \<subseteq> N \<Longrightarrow> ok s \<Longrightarrow> fr Q s s'"
    and fr_ok: "fr P s s' \<Longrightarrow> ok s' = ok s"
    and fr_put: "\<lbrakk>ok s; P \<subseteq> N; p \<in> P; fr P s s'\<rbrakk> \<Longrightarrow> fr P s (pl p q s')"
      "\<lbrakk>ok s; P \<subseteq> N; p \<in> P; fr P s s'\<rbrakk> \<Longrightarrow> fr P s (pr p q s')"
      "\<lbrakk>ok s; P \<subseteq> N; p \<in> P; fr P s s'\<rbrakk> \<Longrightarrow> fr P s (pc p b s')"
    and fr_view: "\<lbrakk>ok s; P \<subseteq> N; fr P s s'; x \<in> N; x \<notin> P\<rbrakk> \<Longrightarrow> V s' x = V s x"
    and fr_same: "\<lbrakk>ok s; P \<subseteq> N; fr P s s'; x \<in> N\<rbrakk> \<Longrightarrow> n_size (V s' x) = n_size (V s x)"
      "\<lbrakk>ok s; P \<subseteq> N; fr P s s'; x \<in> N\<rbrakk> \<Longrightarrow> n_null (V s' x) = n_null (V s x)"

lemma frame_trans: "frame P s s' \<Longrightarrow> frame P s' s'' \<Longrightarrow> frame P s s''"
  by (simp add: frame_def same_bounds_def)

lemma frame_node_bytes:
  assumes "frame P s s'" "apart N" "P \<subseteq> N" "x \<in> N" "x \<notin> P" "i < 16"
  shows "mem_bytes s' (unat x + i) = mem_bytes s (unat x + i)"
proof -
  have "unat x + i < unat p + 4 \<or> unat p + 16 \<le> unat x + i" if "p \<in> P" for p
  proof -
    have "p \<in> N" "p \<noteq> x" using that assms(3,5) by auto
    then show ?thesis using assms(2,4,6) by (fastforce simp: apart_def)
  qed
  then show ?thesis using assms(1) by (simp add: frame_def)
qed

lemma frame_node_at:
  assumes "frame P s s'" "apart N" "P \<subseteq> N" "x \<in> N" "x \<notin> P"
  shows "node_at s' x = node_at s x"
  using frame_node_bytes [OF assms] by (rule node_at_cong)

lemma frame_mono:
  assumes "frame P s s'" "P \<subseteq> Q" "Q \<subseteq> N" "apart N"
  shows "frame Q s s'"
proof -
  have "n_size (node_at s' p) = n_size (node_at s p) \<and> n_alloc (node_at s' p) = n_alloc (node_at s p)
      \<and> n_null (node_at s' p) = n_null (node_at s p)" if "p \<in> Q" for p
  proof (cases "p \<in> P")
    case False
    have "P \<subseteq> N" "p \<in> N" using assms that by auto
    then show ?thesis using frame_node_at [OF assms(1,4) _ _ False] by simp
  qed (use assms(1) in \<open>simp add: frame_def\<close>)
  moreover have "mem_bytes s' a = mem_bytes s a" if "\<forall>p\<in>Q. a < unat p + 4 \<or> unat p + 16 \<le> a" for a
    using that assms(1,2) by (simp add: frame_def subset_iff)
  ultimately show ?thesis using assms(1) by (simp add: frame_def)
qed

lemma load_node: "node_ok s p \<Longrightarrow> i \<in> {0, 4, 8, 12} \<Longrightarrow> load32 (unat p + i) s = Some (rd32 (mem_bytes s) (unat p + i))"
  by (auto simp: load32_def node_ok_def mem_ok_def)

lemma store_node: "node_ok s p \<Longrightarrow> i \<in> {0, 4, 8, 12} \<Longrightarrow> store32 (unat p + i) v s = Some (put_word i p v s)"
  by (auto simp: store32_def node_ok_def mem_ok_def put_word_def)

lemma get_node:
  assumes "node_ok s p"
  shows "get_prev p s = Some (n_prev (node_at s p))" "get_size p s = Some (n_size (node_at s p))"
    "get_alloc p s = Some (n_alloc (node_at s p))" "get_color p s = Some (n_color (node_at s p))"
    "get_null p s = Some (n_null (node_at s p))" "get_left p s = Some (n_left (node_at s p))"
    "get_right p s = Some (n_right (node_at s p))"
  using assms load_node [of s p 0]
  by (simp_all add: get_prev_def get_size_def get_alloc_def get_color_def get_null_def get_left_def
      get_right_def get_bits_def node_at_sel load_node)

lemma set_node:
  assumes "node_ok s p"
  shows "set_left p q s = Some (put_left p q s)" "set_right p q s = Some (put_right p q s)"
    "set_color p b s = Some (put_color p b s)"
  using assms
  by (simp_all add: set_left_def set_right_def set_color_def set_bits_def get_bits_def load_node
      store_node put_left_def put_right_def put_color_def)

interpretation ns: node_store "region N" N node_at put_left put_right put_color frame
  for N :: "ptr set"
proof unfold_locales
  fix s :: heap and p
  assume "region N s" "p \<in> N"
  then have ok: "node_ok s p" by (simp add: region_def)
  show "get_size p s = Some (n_size (node_at s p))" "get_color p s = Some (n_color (node_at s p))"
    "get_null p s = Some (n_null (node_at s p))" "get_left p s = Some (n_left (node_at s p))"
    "get_right p s = Some (n_right (node_at s p))"
    using ok by (simp_all add: get_node)
  show "set_left p q s = Some (put_left p q s)" "set_right p q s = Some (put_right p q s)"
    "set_color p b s = Some (put_color p b s)" for q b
    using ok by (simp_all add: set_node)
next
  fix s p q b
  show "region N (put_left p q s) = region N s" "region N (put_right p q s) = region N s"
    "region N (put_color p b s) = region N s"
    by (simp_all add: region_def node_ok_def put_left_def put_right_def put_color_def)
  show "frame P s s" for P by (simp add: frame_def)
next
  fix s p q b x
  assume "region N s" "p \<in> N" "x \<in> N"
  then show "node_at (put_left p q s) x = (if x = p then (node_at s p)\<lparr>n_left := q\<rparr> else node_at s x)"
    "node_at (put_right p q s) x = (if x = p then (node_at s p)\<lparr>n_right := q\<rparr> else node_at s x)"
    "node_at (put_color p b s) x = (if x = p then (node_at s p)\<lparr>n_color := b\<rparr> else node_at s x)"
    using node_put_word [of N p x]
    by (simp_all add: region_def put_left_def put_right_def put_color_def node_at_sel)
next
  fix s p b
  assume "n_color (node_at s p) = b"
  then show "put_color p b s = s"
    by (simp add: put_color_def put_word_def node_at_sel bf_set_flag_same)
next
  fix P s s' s''
  show "frame P s s' \<Longrightarrow> frame P s' s'' \<Longrightarrow> frame P s s''" by (rule frame_trans)
  show "frame P s s' \<Longrightarrow> region N s' = region N s"
    by (simp add: frame_def region_def node_ok_def) (use mem_ok_bounds in blast)
  show "frame P s s' \<Longrightarrow> P \<subseteq> Q \<Longrightarrow> Q \<subseteq> N \<Longrightarrow> region N s \<Longrightarrow> frame Q s s'" for Q
    by (rule frame_mono [of P s s' Q N]) (simp_all add: region_def)
next
  fix s s' p q b P
  assume "region N s" "P \<subseteq> N" "p \<in> P" "frame P s s'"
  then show "frame P s (put_left p q s')" "frame P s (put_right p q s')" "frame P s (put_color p b s')"
    unfolding region_def put_left_def put_right_def put_color_def
    by (auto intro!: frame_put_word [of N P p])
next
  fix P s s' x
  assume *: "region N s" "P \<subseteq> N" "frame P s s'" "x \<in> N"
  then show "x \<notin> P \<Longrightarrow> node_at s' x = node_at s x" using frame_node_at by (auto simp: region_def)
  show "n_size (node_at s' x) = n_size (node_at s x)" "n_null (node_at s' x) = n_null (node_at s x)"
    using * frame_node_at [of P s s' N x] by (cases "x \<in> P"; simp add: frame_def region_def)+
qed

end
