(* ===== verification/RBPtr.thy ===== *)
theory RBPtr
  imports Node
begin

text \<open>
  The red-black tree of free segments in \<open>malloclab-handout/mm.c\<close>, from \<open>mm_cmp_node\<close>
  to the wrappers \<open>mm_search\<close>, \<open>mm_insert\<close> and \<open>mm_delete\<close>, over the bytes of the heap.
  Each function takes the heap last and returns it when it writes. \<open>None\<close> is a fault (an
  access outside the memory) or a recursion that does not return: the recursive functions are
  partial functions in the option monad. An \<open>int\<close> or \<open>char\<close> the source passes by
  reference is returned beside the result.
\<close>

definition mm_cmp_node :: "ptr \<Rightarrow> ptr \<Rightarrow> heap \<Rightarrow> bool option" where
  "mm_cmp_node x y s = do {
     xs \<leftarrow> get_size x s;
     ys \<leftarrow> get_size y s;
     if xs = ys then Some (x < y) else Some (xs < ys) }"

definition mm_rotate_left :: "ptr \<Rightarrow> heap \<Rightarrow> (ptr \<times> heap) option" where
  "mm_rotate_left now s = do {
     tmp \<leftarrow> get_right now s;
     tl \<leftarrow> get_left tmp s;
     s \<leftarrow> set_right now tl s;
     s \<leftarrow> set_left tmp now s;
     Some (tmp, s) }"

definition mm_rotate_right :: "ptr \<Rightarrow> heap \<Rightarrow> (ptr \<times> heap) option" where
  "mm_rotate_right now s = do {
     tmp \<leftarrow> get_left now s;
     tr \<leftarrow> get_right tmp s;
     s \<leftarrow> set_left now tr s;
     s \<leftarrow> set_right tmp now s;
     Some (tmp, s) }"

partial_function (option) mm_search_node :: "ptr \<Rightarrow> c_uint \<Rightarrow> heap \<Rightarrow> ptr option" where
  "mm_search_node now sz s = do {
     nul \<leftarrow> get_null now s;
     if nul = MM_NULL_NULL then Some NULL
     else do {
       nsize \<leftarrow> get_size now s;
       if sz \<le> nsize
       then do {
         l \<leftarrow> get_left now s;
         p \<leftarrow> mm_search_node l sz s;
         Some (if p = NULL then now else p) }
       else do {
         r \<leftarrow> get_right now s;
         mm_search_node r sz s } } }"

text \<open>
  The two halves of \<open>mm_insert_node\<close> after the recursive call: rebalancing when the new node
  went into the left subtree, and its mirror image.
\<close>

definition mm_insert_left :: "ptr \<Rightarrow> heap \<Rightarrow> (ptr \<times> heap) option" where
  "mm_insert_left now s = do {
     l \<leftarrow> get_left now s;
     lc \<leftarrow> get_color l s;
     if lc = MM_COLOR_RED
     then do {
       lr \<leftarrow> get_right l s;
       lrc \<leftarrow> get_color lr s;
       s \<leftarrow> (if lrc = MM_COLOR_RED
            then do { (l', s) \<leftarrow> mm_rotate_left l s; set_left now l' s }
            else Some s);
       l \<leftarrow> get_left now s;
       ll \<leftarrow> get_left l s;
       llc \<leftarrow> get_color ll s;
       if llc = MM_COLOR_RED
       then do {
         r \<leftarrow> get_right now s;
         rc \<leftarrow> get_color r s;
         if rc = MM_COLOR_RED
         then do {
           s \<leftarrow> set_color r MM_COLOR_BLACK s;
           s \<leftarrow> set_color l MM_COLOR_BLACK s;
           s \<leftarrow> set_color now MM_COLOR_RED s;
           Some (now, s) }
         else do {
           (now, s) \<leftarrow> mm_rotate_right now s;
           l \<leftarrow> get_left now s;
           r \<leftarrow> get_right now s;
           s \<leftarrow> set_color r MM_COLOR_RED s;
           s \<leftarrow> set_color l MM_COLOR_RED s;
           s \<leftarrow> set_color now MM_COLOR_BLACK s;
           Some (now, s) } }
       else Some (now, s) }
     else Some (now, s) }"

definition mm_insert_right :: "ptr \<Rightarrow> heap \<Rightarrow> (ptr \<times> heap) option" where
  "mm_insert_right now s = do {
     r \<leftarrow> get_right now s;
     rc \<leftarrow> get_color r s;
     if rc = MM_COLOR_RED
     then do {
       rl \<leftarrow> get_left r s;
       rlc \<leftarrow> get_color rl s;
       s \<leftarrow> (if rlc = MM_COLOR_RED
            then do { (r', s) \<leftarrow> mm_rotate_right r s; set_right now r' s }
            else Some s);
       r \<leftarrow> get_right now s;
       rr \<leftarrow> get_right r s;
       rrc \<leftarrow> get_color rr s;
       if rrc = MM_COLOR_RED
       then do {
         l \<leftarrow> get_left now s;
         lc \<leftarrow> get_color l s;
         if lc = MM_COLOR_RED
         then do {
           s \<leftarrow> set_color r MM_COLOR_BLACK s;
           s \<leftarrow> set_color l MM_COLOR_BLACK s;
           s \<leftarrow> set_color now MM_COLOR_RED s;
           Some (now, s) }
         else do {
           (now, s) \<leftarrow> mm_rotate_left now s;
           l \<leftarrow> get_left now s;
           r \<leftarrow> get_right now s;
           s \<leftarrow> set_color r MM_COLOR_RED s;
           s \<leftarrow> set_color l MM_COLOR_RED s;
           s \<leftarrow> set_color now MM_COLOR_BLACK s;
           Some (now, s) } }
       else Some (now, s) }
     else Some (now, s) }"

partial_function (option) mm_insert_node :: "ptr \<Rightarrow> ptr \<Rightarrow> heap \<Rightarrow> (ptr \<times> heap) option" where
  "mm_insert_node now new s = do {
     nul \<leftarrow> get_null now s;
     if nul = MM_NULL_NULL
     then do {
       s \<leftarrow> set_right new now s;
       s \<leftarrow> set_left new now s;
       s \<leftarrow> set_color new MM_COLOR_RED s;
       Some (new, s) }
     else do {
       c \<leftarrow> mm_cmp_node new now s;
       if c
       then do {
         l \<leftarrow> get_left now s;
         (l', s) \<leftarrow> mm_insert_node l new s;
         s \<leftarrow> set_left now l' s;
         mm_insert_left now s }
       else do {
         r \<leftarrow> get_right now s;
         (r', s) \<leftarrow> mm_insert_node r new s;
         s \<leftarrow> set_right now r' s;
         mm_insert_right now s } } }"

text \<open>
  \<open>mm_delete_left\<close> after its first case (a red sibling), which does not call itself any
  more. The conditions are evaluated from left to right and stop at the first that fails, so
  \<open>c_and\<close> reads its second operand only when the first holds.
\<close>

definition c_and :: "bool option \<Rightarrow> bool option \<Rightarrow> bool option" where
  "c_and a b = do { x \<leftarrow> a; if x then b else Some False }"

definition is_red :: "ptr option \<Rightarrow> heap \<Rightarrow> bool option" where
  "is_red p s = do { p \<leftarrow> p; c \<leftarrow> get_color p s; Some (c = MM_COLOR_RED) }"

definition is_black :: "ptr option \<Rightarrow> heap \<Rightarrow> bool option" where
  "is_black p s = do { p \<leftarrow> p; c \<leftarrow> get_color p s; Some (c = MM_COLOR_BLACK) }"

definition get_right_left :: "ptr \<Rightarrow> heap \<Rightarrow> ptr option" where
  "get_right_left p s = do { r \<leftarrow> get_right p s; get_left r s }"

definition get_right_right :: "ptr \<Rightarrow> heap \<Rightarrow> ptr option" where
  "get_right_right p s = do { r \<leftarrow> get_right p s; get_right r s }"

definition get_left_left :: "ptr \<Rightarrow> heap \<Rightarrow> ptr option" where
  "get_left_left p s = do { l \<leftarrow> get_left p s; get_left l s }"

definition get_left_right :: "ptr \<Rightarrow> heap \<Rightarrow> ptr option" where
  "get_left_right p s = do { l \<leftarrow> get_left p s; get_right l s }"

definition set_color_of :: "ptr option \<Rightarrow> bool \<Rightarrow> heap \<Rightarrow> heap option" where
  "set_color_of p c s = do { p \<leftarrow> p; set_color p c s }"

definition mm_delete_left_black :: "ptr \<Rightarrow> bool \<Rightarrow> heap \<Rightarrow> (ptr \<times> bool \<times> heap) option" where
  "mm_delete_left_black now balance s = do {
     case2 \<leftarrow> c_and (is_black (Some now) s) (c_and (is_black (get_right now s) s)
       (c_and (is_black (get_right_left now s) s) (is_black (get_right_right now s) s)));
     if case2
     then do {
       s \<leftarrow> set_color_of (get_right now s) MM_COLOR_RED s;
       Some (now, balance, s) }
     else do {
       case3 \<leftarrow> c_and (is_red (Some now) s)
         (c_and (is_black (get_right_left now s) s) (is_black (get_right_right now s) s));
       if case3
       then do {
         s \<leftarrow> set_color now MM_COLOR_BLACK s;
         s \<leftarrow> set_color_of (get_right now s) MM_COLOR_RED s;
         Some (now, True, s) }
       else do {
         case4 \<leftarrow> c_and (is_black (get_right now s) s)
           (c_and (is_red (get_right_left now s) s) (is_black (get_right_right now s) s));
         s \<leftarrow> (if case4
              then do {
                r \<leftarrow> get_right now s;
                (r', s) \<leftarrow> mm_rotate_right r s;
                s \<leftarrow> set_right now r' s;
                s \<leftarrow> set_color_of (get_right now s) MM_COLOR_BLACK s;
                set_color_of (get_right_right now s) MM_COLOR_RED s }
              else Some s);
         case5 \<leftarrow> c_and (is_black (get_right now s) s) (is_red (get_right_right now s) s);
         if case5
         then do {
           (now, s) \<leftarrow> mm_rotate_left now s;
           l \<leftarrow> get_left now s;
           c \<leftarrow> get_color l s;
           s \<leftarrow> set_color now c s;
           s \<leftarrow> set_color_of (get_right now s) MM_COLOR_BLACK s;
           s \<leftarrow> set_color_of (get_left now s) MM_COLOR_BLACK s;
           Some (now, True, s) }
         else Some (now, balance, s) } } }"

partial_function (option) mm_delete_left :: "ptr \<Rightarrow> bool \<Rightarrow> heap \<Rightarrow> (ptr \<times> bool \<times> heap) option" where
  "mm_delete_left now balance s = do {
     case1 \<leftarrow> is_red (get_right now s) s;
     if case1
     then do {
       (now, s) \<leftarrow> mm_rotate_left now s;
       s \<leftarrow> set_color now MM_COLOR_BLACK s;
       s \<leftarrow> set_color_of (get_left now s) MM_COLOR_RED s;
       l \<leftarrow> get_left now s;
       (l', balance, s) \<leftarrow> mm_delete_left l balance s;
       s \<leftarrow> set_left now l' s;
       Some (now, balance, s) }
     else mm_delete_left_black now balance s }"

definition mm_delete_right_black :: "ptr \<Rightarrow> bool \<Rightarrow> heap \<Rightarrow> (ptr \<times> bool \<times> heap) option" where
  "mm_delete_right_black now balance s = do {
     case2 \<leftarrow> c_and (is_black (Some now) s) (c_and (is_black (get_left now s) s)
       (c_and (is_black (get_left_left now s) s) (is_black (get_left_right now s) s)));
     if case2
     then do {
       s \<leftarrow> set_color_of (get_left now s) MM_COLOR_RED s;
       Some (now, balance, s) }
     else do {
       case3 \<leftarrow> c_and (is_red (Some now) s)
         (c_and (is_black (get_left_left now s) s) (is_black (get_left_right now s) s));
       if case3
       then do {
         s \<leftarrow> set_color now MM_COLOR_BLACK s;
         s \<leftarrow> set_color_of (get_left now s) MM_COLOR_RED s;
         Some (now, True, s) }
       else do {
         case4 \<leftarrow> c_and (is_black (get_left now s) s)
           (c_and (is_red (get_left_right now s) s) (is_black (get_left_left now s) s));
         s \<leftarrow> (if case4
              then do {
                l \<leftarrow> get_left now s;
                (l', s) \<leftarrow> mm_rotate_left l s;
                s \<leftarrow> set_left now l' s;
                s \<leftarrow> set_color_of (get_left now s) MM_COLOR_BLACK s;
                set_color_of (get_left_left now s) MM_COLOR_RED s }
              else Some s);
         case5 \<leftarrow> c_and (is_black (get_left now s) s) (is_red (get_left_left now s) s);
         if case5
         then do {
           (now, s) \<leftarrow> mm_rotate_right now s;
           r \<leftarrow> get_right now s;
           c \<leftarrow> get_color r s;
           s \<leftarrow> set_color now c s;
           s \<leftarrow> set_color_of (get_left now s) MM_COLOR_BLACK s;
           s \<leftarrow> set_color_of (get_right now s) MM_COLOR_BLACK s;
           Some (now, True, s) }
         else Some (now, balance, s) } } }"

partial_function (option) mm_delete_right :: "ptr \<Rightarrow> bool \<Rightarrow> heap \<Rightarrow> (ptr \<times> bool \<times> heap) option" where
  "mm_delete_right now balance s = do {
     case1 \<leftarrow> is_red (get_left now s) s;
     if case1
     then do {
       (now, s) \<leftarrow> mm_rotate_right now s;
       s \<leftarrow> set_color now MM_COLOR_BLACK s;
       s \<leftarrow> set_color_of (get_right now s) MM_COLOR_RED s;
       r \<leftarrow> get_right now s;
       (r', balance, s) \<leftarrow> mm_delete_right r balance s;
       s \<leftarrow> set_right now r' s;
       Some (now, balance, s) }
     else mm_delete_right_black now balance s }"

text \<open>
  \<open>mm_delete_node\<close>. Its last argument points to a variable of the caller or is null:
  with a variable (\<open>want\<close>) the call takes the least node out and leaves it in the variable,
  which \<open>target\<close> is the content of; without one it looks for \<open>del\<close>. \<open>balance\<close> is the
  content of the variable the third argument points to, uninitialised in \<open>mm_delete\<close>.
\<close>

partial_function (option) mm_delete_node ::
    "ptr \<Rightarrow> ptr \<Rightarrow> bool \<Rightarrow> bool \<Rightarrow> ptr \<Rightarrow> heap \<Rightarrow> (ptr \<times> bool \<times> ptr \<times> heap) option" where
  "mm_delete_node now del balance want target s =
     (if want
      then do {
        l \<leftarrow> get_left now s;
        nul \<leftarrow> get_null l s;
        if nul = MM_NULL_NULL
        then do {
          c \<leftarrow> is_red (Some now) s;
          balance \<leftarrow> (if c then Some True else is_red (get_right now s) s);
          r \<leftarrow> get_right now s;
          s \<leftarrow> set_color r MM_COLOR_BLACK s;
          Some (r, balance, now, s) }
        else do {
          (l', balance, target, s) \<leftarrow> mm_delete_node l del balance True target s;
          s \<leftarrow> set_left now l' s;
          if \<not> balance
          then do {
            (now, balance, s) \<leftarrow> mm_delete_left now balance s;
            Some (now, balance, target, s) }
          else Some (now, balance, target, s) } }
      else if now = del
      then do {
        r \<leftarrow> get_right now s;
        nul \<leftarrow> get_null r s;
        if nul = MM_NULL_NULL
        then do {
          c \<leftarrow> is_red (Some now) s;
          balance \<leftarrow> (if c then Some True else is_red (get_left now s) s);
          l \<leftarrow> get_left now s;
          s \<leftarrow> set_color l MM_COLOR_BLACK s;
          Some (l, balance, target, s) }
        else do {
          (r', balance, ptr, s) \<leftarrow> mm_delete_node r del balance True NULL s;
          s \<leftarrow> set_right now r' s;
          c \<leftarrow> get_color now s;
          s \<leftarrow> set_color ptr c s;
          l \<leftarrow> get_left now s;
          s \<leftarrow> set_left ptr l s;
          r \<leftarrow> get_right now s;
          s \<leftarrow> set_right ptr r s;
          c \<leftarrow> get_color now s;
          s \<leftarrow> set_color ptr c s;
          if \<not> balance
          then do {
            (now, balance, s) \<leftarrow> mm_delete_right ptr balance s;
            Some (now, balance, target, s) }
          else Some (ptr, balance, target, s) } }
      else do {
        c \<leftarrow> mm_cmp_node del now s;
        if c
        then do {
          l \<leftarrow> get_left now s;
          (l', balance, _, s) \<leftarrow> mm_delete_node l del balance False NULL s;
          s \<leftarrow> set_left now l' s;
          if \<not> balance
          then do {
            (now, balance, s) \<leftarrow> mm_delete_left now balance s;
            Some (now, balance, target, s) }
          else Some (now, balance, target, s) }
        else do {
          r \<leftarrow> get_right now s;
          (r', balance, _, s) \<leftarrow> mm_delete_node r del balance False NULL s;
          s \<leftarrow> set_right now r' s;
          if \<not> balance
          then do {
            (now, balance, s) \<leftarrow> mm_delete_right now balance s;
            Some (now, balance, target, s) }
          else Some (now, balance, target, s) } })"

subsection \<open>The wrappers\<close>

definition mm_search :: "c_uint \<Rightarrow> heap \<Rightarrow> ptr option" where
  "mm_search sz s = do { root \<leftarrow> get_root s; mm_search_node root sz s }"

definition mm_insert :: "ptr \<Rightarrow> heap \<Rightarrow> heap option" where
  "mm_insert new s = do {
     root \<leftarrow> get_root s;
     (root', s) \<leftarrow> mm_insert_node root new s;
     s \<leftarrow> set_root root' s;
     root \<leftarrow> get_root s;
     set_color root MM_COLOR_BLACK s }"

definition mm_delete :: "ptr \<Rightarrow> bool \<Rightarrow> heap \<Rightarrow> heap option" where
  "mm_delete del balance s = do {
     root \<leftarrow> get_root s;
     (root', _, _, s) \<leftarrow> mm_delete_node root del balance False NULL s;
     s \<leftarrow> set_root root' s;
     root \<leftarrow> get_root s;
     set_color root MM_COLOR_BLACK s }"

end
