(* ===== verification/RBTree.thy ===== *)
theory RBTree
  imports Node
begin

text \<open>
  The red-black tree of \<open>malloclab-handout/mm.c\<close> as a functional tree of node addresses,
  with the rebalancing of \<open>mm_insert_node\<close>, \<open>mm_delete_left\<close>, \<open>mm_delete_right\<close>
  and \<open>mm_delete_node\<close> case by case. It is the specification the code over bytes is
  proved to implement. Shown here: insertion and deletion keep the order of the keys, the
  colour condition and the black height, and the search returns the least fitting segment.
  A node's key is its size, ties broken by its address; \<open>sz\<close> gives the sizes.
\<close>

datatype tree = Leaf | Node bool tree ptr tree

definition cmp :: "(ptr \<Rightarrow> c_uint) \<Rightarrow> ptr \<Rightarrow> ptr \<Rightarrow> bool" where
  "cmp sz x y = (if sz x = sz y then x < y else sz x < sz y)"

fun col :: "tree \<Rightarrow> bool" where
  "col Leaf = MM_COLOR_BLACK"
| "col (Node c l x r) = c"

fun paint :: "bool \<Rightarrow> tree \<Rightarrow> tree" where
  "paint c Leaf = Leaf"
| "paint c (Node _ l x r) = Node c l x r"

fun inorder :: "tree \<Rightarrow> ptr list" where
  "inorder Leaf = []"
| "inorder (Node c l x r) = inorder l @ x # inorder r"

fun search :: "(ptr \<Rightarrow> c_uint) \<Rightarrow> c_uint \<Rightarrow> tree \<Rightarrow> ptr option" where
  "search sz n Leaf = None"
| "search sz n (Node c l x r) =
    (if n \<le> sz x then (case search sz n l of None \<Rightarrow> Some x | Some p \<Rightarrow> Some p)
     else search sz n r)"

subsection \<open>Insertion\<close>

fun rotate_left :: "tree \<Rightarrow> tree" where
  "rotate_left (Node c a x (Node d b y e)) = Node d (Node c a x b) y e"
| "rotate_left t = t"

fun rotate_right :: "tree \<Rightarrow> tree" where
  "rotate_right (Node c (Node d a x b) y e) = Node d a x (Node c b y e)"
| "rotate_right t = t"

fun lean_left :: "tree \<Rightarrow> tree" where
  "lean_left (Node c a x (Node MM_COLOR_RED b y d)) = rotate_left (Node c a x (Node MM_COLOR_RED b y d))"
| "lean_left t = t"

fun lean_right :: "tree \<Rightarrow> tree" where
  "lean_right (Node c (Node MM_COLOR_RED a x b) y d) = rotate_right (Node c (Node MM_COLOR_RED a x b) y d)"
| "lean_right t = t"

fun split_left :: "bool \<Rightarrow> tree \<Rightarrow> ptr \<Rightarrow> tree \<Rightarrow> tree" where
  "split_left c (Node d (Node MM_COLOR_RED a x b) y e) z r =
    (if col r = MM_COLOR_RED
     then Node MM_COLOR_RED (Node MM_COLOR_BLACK (Node MM_COLOR_RED a x b) y e) z (paint MM_COLOR_BLACK r)
     else Node MM_COLOR_BLACK (Node MM_COLOR_RED a x b) y (Node MM_COLOR_RED e z r))"
| "split_left c l z r = Node c l z r"

fun split_right :: "bool \<Rightarrow> tree \<Rightarrow> ptr \<Rightarrow> tree \<Rightarrow> tree" where
  "split_right c l z (Node d a x (Node MM_COLOR_RED b y e)) =
    (if col l = MM_COLOR_RED
     then Node MM_COLOR_RED (paint MM_COLOR_BLACK l) z (Node MM_COLOR_BLACK a x (Node MM_COLOR_RED b y e))
     else Node MM_COLOR_BLACK (Node MM_COLOR_RED l z a) x (Node MM_COLOR_RED b y e))"
| "split_right c l z r = Node c l z r"

definition fix_left :: "bool \<Rightarrow> tree \<Rightarrow> ptr \<Rightarrow> tree \<Rightarrow> tree" where
  "fix_left c l x r = (if col l = MM_COLOR_RED then split_left c (lean_left l) x r else Node c l x r)"

definition fix_right :: "bool \<Rightarrow> tree \<Rightarrow> ptr \<Rightarrow> tree \<Rightarrow> tree" where
  "fix_right c l x r = (if col r = MM_COLOR_RED then split_right c l x (lean_right r) else Node c l x r)"

fun ins :: "(ptr \<Rightarrow> c_uint) \<Rightarrow> ptr \<Rightarrow> tree \<Rightarrow> tree" where
  "ins sz new Leaf = Node MM_COLOR_RED Leaf new Leaf"
| "ins sz new (Node c l x r) =
    (if cmp sz new x then fix_left c (ins sz new l) x r else fix_right c l x (ins sz new r))"

definition insert_root :: "(ptr \<Rightarrow> c_uint) \<Rightarrow> ptr \<Rightarrow> tree \<Rightarrow> tree" where
  "insert_root sz new t = paint MM_COLOR_BLACK (ins sz new t)"

subsection \<open>Deletion\<close>

text \<open>The boolean is \<open>*balance\<close> afterwards: the black height is what it was.\<close>

fun balance_left_black :: "tree \<Rightarrow> tree \<times> bool" where
  "balance_left_black (Node c a x (Node d b y e)) =
    (if \<not> col b \<and> \<not> col e then (Node MM_COLOR_BLACK a x (Node MM_COLOR_RED b y e), c)
     else if \<not> col e then
       (case b of Node _ b1 z b2 \<Rightarrow> (Node c (Node MM_COLOR_BLACK a x b1) z (Node MM_COLOR_BLACK b2 y e), True)
        | Leaf \<Rightarrow> (Leaf, True))
     else (Node c (Node MM_COLOR_BLACK a x b) y (paint MM_COLOR_BLACK e), True))"
| "balance_left_black t = (t, False)"

fun balance_left :: "tree \<Rightarrow> tree \<times> bool" where
  "balance_left (Node c a x (Node MM_COLOR_RED b y d)) =
    (case balance_left (Node MM_COLOR_RED a x b) of (l, bal) \<Rightarrow> (Node MM_COLOR_BLACK l y d, bal))"
| "balance_left t = balance_left_black t"

fun balance_right_black :: "tree \<Rightarrow> tree \<times> bool" where
  "balance_right_black (Node c (Node d b y e) x a) =
    (if \<not> col b \<and> \<not> col e then (Node MM_COLOR_BLACK (Node MM_COLOR_RED b y e) x a, c)
     else if \<not> col b then
       (case e of Node _ e1 z e2 \<Rightarrow> (Node c (Node MM_COLOR_BLACK b y e1) z (Node MM_COLOR_BLACK e2 x a), True)
        | Leaf \<Rightarrow> (Leaf, True))
     else (Node c (paint MM_COLOR_BLACK b) y (Node MM_COLOR_BLACK e x a), True))"
| "balance_right_black t = (t, False)"

fun balance_right :: "tree \<Rightarrow> tree \<times> bool" where
  "balance_right (Node c (Node MM_COLOR_RED b y d) x a) =
    (case balance_right (Node MM_COLOR_RED d x a) of (r, bal) \<Rightarrow> (Node MM_COLOR_BLACK b y r, bal))"
| "balance_right t = balance_right_black t"

text \<open>Taking out the least node: the node, the rest and \<open>*balance\<close>.\<close>

fun del_min :: "tree \<Rightarrow> ptr \<times> tree \<times> bool" where
  "del_min Leaf = (NULL, Leaf, True)"
| "del_min (Node c Leaf x r) = (x, paint MM_COLOR_BLACK r, c \<or> col r)"
| "del_min (Node c l x r) =
    (case del_min l of (m, l', bal) \<Rightarrow>
      if bal then (m, Node c l' x r, True) else (m, balance_left (Node c l' x r)))"

lemma del_min_node:
  "l \<noteq> Leaf \<Longrightarrow> del_min (Node c l x r) =
    (case del_min l of (m, l', bal) \<Rightarrow>
      (m, if bal then (Node c l' x r, True) else balance_left (Node c l' x r)))"
  by (cases l) (auto split: prod.splits)

fun del :: "(ptr \<Rightarrow> c_uint) \<Rightarrow> ptr \<Rightarrow> tree \<Rightarrow> tree \<times> bool" where
  "del sz d Leaf = (Leaf, True)"
| "del sz d (Node c l x r) =
    (if x = d then
       (if r = Leaf then (paint MM_COLOR_BLACK l, c \<or> col l)
        else case del_min r of (m, r', bal) \<Rightarrow>
          if bal then (Node c l m r', True) else balance_right (Node c l m r'))
     else if cmp sz d x then
       (case del sz d l of (l', bal) \<Rightarrow>
          if bal then (Node c l' x r, True) else balance_left (Node c l' x r))
     else
       (case del sz d r of (r', bal) \<Rightarrow>
          if bal then (Node c l x r', True) else balance_right (Node c l x r')))"

definition delete_root :: "(ptr \<Rightarrow> c_uint) \<Rightarrow> ptr \<Rightarrow> tree \<Rightarrow> tree" where
  "delete_root sz d t = paint MM_COLOR_BLACK (fst (del sz d t))"

subsection \<open>The invariants\<close>

fun bh :: "tree \<Rightarrow> nat" where
  "bh Leaf = 0"
| "bh (Node c l x r) = (if c = MM_COLOR_RED then bh l else bh l + 1)"

fun invh :: "tree \<Rightarrow> bool" where
  "invh Leaf = True"
| "invh (Node c l x r) \<longleftrightarrow> bh l = bh r \<and> invh l \<and> invh r"

fun invc :: "tree \<Rightarrow> bool" where
  "invc Leaf = True"
| "invc (Node c l x r) \<longleftrightarrow> (c = MM_COLOR_RED \<longrightarrow> \<not> col l \<and> \<not> col r) \<and> invc l \<and> invc r"

definition rb_inv :: "tree \<Rightarrow> bool" where
  "rb_inv t \<longleftrightarrow> invh t \<and> invc t \<and> col t = MM_COLOR_BLACK"

definition ordered :: "(ptr \<Rightarrow> c_uint) \<Rightarrow> tree \<Rightarrow> bool" where
  "ordered sz t \<longleftrightarrow> sorted_wrt (cmp sz) (inorder t)"

lemma cmp_trans: "cmp sz x y \<Longrightarrow> cmp sz y z \<Longrightarrow> cmp sz x z"
  by (auto simp: cmp_def split: if_splits)

lemma cmp_irrefl [simp]: "\<not> cmp sz x x"
  by (simp add: cmp_def)

lemma cmp_total: "\<not> cmp sz x y \<Longrightarrow> x \<noteq> y \<Longrightarrow> cmp sz y x"
  by (auto simp: cmp_def split: if_splits)

lemma col_paint [simp]: "col (paint MM_COLOR_BLACK t) = MM_COLOR_BLACK"
  by (cases t) auto

lemma inorder_paint [simp]: "inorder (paint c t) = inorder t"
  by (cases t) auto

lemma paint_black [simp]: "\<not> col t \<Longrightarrow> paint MM_COLOR_BLACK t = t"
  by (cases t) auto

lemma invh_paint [simp]: "invh (paint c t) = invh t"
  by (cases t) auto

lemma invc_paint [simp]: "invc t \<Longrightarrow> invc (paint MM_COLOR_BLACK t)"
  by (cases t) auto

lemma ordered_cong:
  "(\<And>x. x \<in> set (inorder t) \<Longrightarrow> sz' x = sz x) \<Longrightarrow> ordered sz' t = ordered sz t"
  unfolding ordered_def
  by (rule iffI; erule sorted_wrt_mono_rel [rotated]) (auto simp: cmp_def split: if_splits)

lemma sorted_wrt_remove1: "sorted_wrt P xs \<Longrightarrow> sorted_wrt P (remove1 x xs)"
  by (induction xs) (auto dest: notin_set_remove1)

lemma sorted_distinct: "sorted_wrt (cmp sz) xs \<Longrightarrow> distinct xs"
  by (induction xs) auto

subsection \<open>Insertion is correct\<close>

lemma inorder_split_left [simp]: "inorder (split_left c l x r) = inorder l @ x # inorder r"
  by (cases "(c, l, x, r)" rule: split_left.cases) auto

lemma inorder_split_right [simp]: "inorder (split_right c l x r) = inorder l @ x # inorder r"
  by (cases "(c, l, x, r)" rule: split_right.cases) auto

lemma inorder_lean [simp]: "inorder (lean_left t) = inorder t" "inorder (lean_right t) = inorder t"
  by (cases t rule: lean_left.cases, auto) (cases t rule: lean_right.cases, auto)

lemma inorder_fix [simp]:
  "inorder (fix_left c l x r) = inorder l @ x # inorder r"
  "inorder (fix_right c l x r) = inorder l @ x # inorder r"
  by (simp_all add: fix_left_def fix_right_def)

lemma set_ins [simp]: "set (inorder (ins sz new t)) = insert new (set (inorder t))"
  by (induction t) auto

lemma ordered_ins:
  "ordered sz t \<Longrightarrow> new \<notin> set (inorder t) \<Longrightarrow> ordered sz (ins sz new t)"
proof (induction t)
  case Leaf
  then show ?case by (simp add: ordered_def)
next
  case (Node c l x r)
  then show ?case
    by (auto simp: ordered_def sorted_wrt_append dest: cmp_total cmp_trans intro: cmp_trans)
qed

fun invc2 :: "tree \<Rightarrow> bool" where
  "invc2 t \<longleftrightarrow> invc (paint MM_COLOR_BLACK t)"

fun both_red :: "tree \<Rightarrow> bool" where
  "both_red Leaf = False"
| "both_red (Node c l x r) \<longleftrightarrow> c \<and> col l \<and> col r"

definition ins_inv :: "tree \<Rightarrow> tree \<Rightarrow> bool" where
  "ins_inv t t' \<longleftrightarrow> invh t' \<and> bh t' = bh t \<and> invc2 t' \<and> \<not> both_red t' \<and>
     (col t = MM_COLOR_BLACK \<longrightarrow> invc t')"

lemma lean_black [simp]:
  "\<not> col b \<Longrightarrow> lean_left (Node c a x b) = Node c a x b"
  "\<not> col a \<Longrightarrow> lean_right (Node c a x b) = Node c a x b"
  by (cases b, auto) (cases a, auto)

lemma split_black [simp]:
  "\<not> col a \<Longrightarrow> split_left c (Node d a x b) z r = Node c (Node d a x b) z r"
  "\<not> col b \<Longrightarrow> split_right c l z (Node d a x b) = Node c l z (Node d a x b)"
  by (cases a, auto) (cases b, auto)

lemma red_cases:
  obtains (black) "\<not> col t" | (inner) a x b y d where "t = Node MM_COLOR_RED a x (Node MM_COLOR_RED b y d)"
    | (outer) a x b y d where "t = Node MM_COLOR_RED (Node MM_COLOR_RED a x b) y d" "\<not> col d"
    | (red) a x b where "t = Node MM_COLOR_RED a x b" "\<not> col a" "\<not> col b"
  by (cases t; cases "case t of Node c a x b \<Rightarrow> a"; cases "case t of Node c a x b \<Rightarrow> b"; simp; blast)

lemma red_cases':
  obtains (black) "\<not> col t" | (inner) a x b y d where "t = Node MM_COLOR_RED (Node MM_COLOR_RED a x b) y d"
    | (outer) a x b y d where "t = Node MM_COLOR_RED a x (Node MM_COLOR_RED b y d)" "\<not> col a"
    | (red) a x b where "t = Node MM_COLOR_RED a x b" "\<not> col a" "\<not> col b"
  by (cases t; cases "case t of Node c a x b \<Rightarrow> a"; cases "case t of Node c a x b \<Rightarrow> b"; simp; blast)

lemma bh_paint_red: "col t \<Longrightarrow> bh (paint MM_COLOR_BLACK t) = Suc (bh t)"
  by (cases t) auto

lemma ins_inv_fix_left:
  assumes "invh (Node c l x r)" "invc (Node c l x r)" "ins_inv l l'"
  shows "ins_inv (Node c l x r) (fix_left c l' x r)"
  using assms by (cases l' rule: red_cases) (auto simp: ins_inv_def fix_left_def bh_paint_red)

lemma ins_inv_fix_right:
  assumes "invh (Node c l x r)" "invc (Node c l x r)" "ins_inv r r'"
  shows "ins_inv (Node c l x r) (fix_right c l x r')"
  using assms by (cases r' rule: red_cases') (auto simp: ins_inv_def fix_right_def bh_paint_red)

lemma ins_inv_ins: "invh t \<Longrightarrow> invc t \<Longrightarrow> ins_inv t (ins sz new t)"
proof (induction t)
  case Leaf
  then show ?case by (simp add: ins_inv_def)
next
  case (Node c l x r)
  then show ?case
    using ins_inv_fix_left [of c l x r "ins sz new l"] ins_inv_fix_right [of c l x r "ins sz new r"] by simp
qed

lemma rb_inv_insert: "rb_inv t \<Longrightarrow> rb_inv (insert_root sz new t)"
  using ins_inv_ins [of t sz new] by (simp add: rb_inv_def insert_root_def ins_inv_def)

subsection \<open>Deletion is correct\<close>

text \<open>
  What a subtree promises after losing a node: its black height is kept (\<open>bal\<close>), or is one
  less, and then the subtree and its replacement are black.
\<close>

definition del_inv :: "tree \<Rightarrow> tree \<Rightarrow> bool \<Rightarrow> bool" where
  "del_inv t t' bal \<longleftrightarrow> invh t' \<and> invc t' \<and> (col t = MM_COLOR_BLACK \<longrightarrow> col t' = MM_COLOR_BLACK) \<and>
     (if bal then bh t' = bh t else bh t = Suc (bh t') \<and> col t = MM_COLOR_BLACK)"

lemma del_inv_balance_left_black:
  assumes "invh l" "invh r" "bh r = Suc (bh l)" "invc l" "invc r" "\<not> col l" "\<not> col r"
    "balance_left_black (Node c l x r) = (t', bal)"
    "bh t = bh r + (if c then 0 else 1)" "col t = c"
  shows "del_inv t t' bal"
proof -
  obtain b y e where r: "r = Node MM_COLOR_BLACK b y e"
    using assms(3,7) by (cases r) auto
  show ?thesis
  proof (cases "\<not> col b \<and> \<not> col e")
    case True
    then show ?thesis using assms by (auto simp: r del_inv_def)
  next
    case False
    then show ?thesis
    proof (cases "col e")
      case True
      then show ?thesis using assms by (auto simp: r del_inv_def bh_paint_red)
    next
      case f: False
      then obtain b1 z b2 where "b = Node MM_COLOR_RED b1 z b2" using False by (cases b) auto
      then show ?thesis using f assms by (auto simp: r del_inv_def)
    qed
  qed
qed

lemma balance_left_black_eq [simp]:
  "\<not> col r \<Longrightarrow> balance_left (Node c l x r) = balance_left_black (Node c l x r)"
  by (cases r) auto

lemma balance_right_black_eq [simp]:
  "\<not> col l \<Longrightarrow> balance_right (Node c l x r) = balance_right_black (Node c l x r)"
  by (cases l) auto

lemma del_inv_balance_left:
  assumes "invh l" "invh r" "bh r = Suc (bh l)" "invc l" "invc r" "\<not> col l" "c \<longrightarrow> \<not> col r"
    "balance_left (Node c l x r) = (t', bal)" "bh t = bh r + (if c then 0 else 1)" "col t = c"
  shows "del_inv t t' bal"
proof (cases "col r")
  case False
  then show ?thesis using del_inv_balance_left_black [of l r c x t' bal t] assms by simp
next
  case True
  then obtain b y d where r: "r = Node MM_COLOR_RED b y d" by (cases r) auto
  then have b: "\<not> col b" "\<not> c" "bh b = Suc (bh l)" "bh d = bh b" using assms by auto
  obtain u bal' where u: "balance_left_black (Node True l x b) = (u, bal')" by force
  have "del_inv (Node True b x b) u bal'"
    using del_inv_balance_left_black [of l b True x u bal' "Node True b x b"] u b assms(1-6)
    by (simp add: r)
  then show ?thesis using assms u b by (auto simp: r del_inv_def split: if_splits)
qed

lemma del_inv_balance_right_black:
  assumes "invh l" "invh r" "bh l = Suc (bh r)" "invc l" "invc r" "\<not> col r" "\<not> col l"
    "balance_right_black (Node c l x r) = (t', bal)"
    "bh t = bh l + (if c then 0 else 1)" "col t = c"
  shows "del_inv t t' bal"
proof -
  obtain b y e where l: "l = Node MM_COLOR_BLACK b y e"
    using assms(3,7) by (cases l) auto
  show ?thesis
  proof (cases "\<not> col b \<and> \<not> col e")
    case True
    then show ?thesis using assms by (auto simp: l del_inv_def)
  next
    case False
    then show ?thesis
    proof (cases "col b")
      case True
      then show ?thesis using assms by (auto simp: l del_inv_def bh_paint_red)
    next
      case f: False
      then obtain e1 z e2 where "e = Node MM_COLOR_RED e1 z e2" using False by (cases e) auto
      then show ?thesis using f assms by (auto simp: l del_inv_def)
    qed
  qed
qed

lemma del_inv_balance_right:
  assumes "invh l" "invh r" "bh l = Suc (bh r)" "invc l" "invc r" "\<not> col r" "c \<longrightarrow> \<not> col l"
    "balance_right (Node c l x r) = (t', bal)" "bh t = bh l + (if c then 0 else 1)" "col t = c"
  shows "del_inv t t' bal"
proof (cases "col l")
  case False
  then show ?thesis using del_inv_balance_right_black [of l r c x t' bal t] assms by simp
next
  case True
  then obtain b y d where l: "l = Node MM_COLOR_RED b y d" by (cases l) auto
  then have b: "\<not> col d" "\<not> c" "bh d = Suc (bh r)" "bh b = bh d" using assms by auto
  obtain u bal' where u: "balance_right_black (Node True d x r) = (u, bal')" by force
  have "del_inv (Node True d x d) u bal'"
    using del_inv_balance_right_black [of d r True x u bal' "Node True d x d"] u b assms(1-6)
    by (simp add: l)
  then show ?thesis using assms u b by (auto simp: l del_inv_def split: if_splits)
qed

text \<open>The two ways a node continues after its subtree lost a node.\<close>

lemma del_inv_left:
  assumes "invh (Node c l y r)" "invc (Node c l y r)" "del_inv l l' bal"
    "(if bal then (Node c l' x r, True) else balance_left (Node c l' x r)) = (t', bal')"
  shows "del_inv (Node c l y r) t' bal'"
proof (cases bal)
  case True
  then show ?thesis using assms by (auto simp: del_inv_def)
next
  case False
  then show ?thesis
    using assms del_inv_balance_left [of l' r c x t' bal' "Node c l y r"]
    by (cases c) (auto simp: del_inv_def split: if_splits)
qed

lemma del_inv_right:
  assumes "invh (Node c l y r)" "invc (Node c l y r)" "del_inv r r' bal"
    "(if bal then (Node c l x r', True) else balance_right (Node c l x r')) = (t', bal')"
  shows "del_inv (Node c l y r) t' bal'"
proof (cases bal)
  case True
  then show ?thesis using assms by (auto simp: del_inv_def)
next
  case False
  then show ?thesis
    using assms del_inv_balance_right [of l r' c x t' bal' "Node c l y r"]
    by (cases c) (auto simp: del_inv_def split: if_splits)
qed

lemma bh_0_leaf: "invh t \<Longrightarrow> \<not> col t \<Longrightarrow> bh t = 0 \<Longrightarrow> t = Leaf"
  by (cases t) auto

lemma bh_0_red: "invh t \<Longrightarrow> invc t \<Longrightarrow> bh t = 0 \<Longrightarrow> t = Leaf \<or> (\<exists>x. t = Node MM_COLOR_RED Leaf x Leaf)"
  by (cases t) (auto split: if_splits dest: bh_0_leaf)

lemma del_inv_one:
  assumes "invh (Node c l x r)" "invc (Node c l x r)" "l = Leaf \<or> r = Leaf"
  shows "del_inv (Node c l x r) (paint MM_COLOR_BLACK (if l = Leaf then r else l)) (c \<or> col (if l = Leaf then r else l))"
  using assms bh_0_red [of l] bh_0_red [of r] by (auto simp: del_inv_def)

lemma del_inv_del_min:
  "t \<noteq> Leaf \<Longrightarrow> invh t \<Longrightarrow> invc t \<Longrightarrow> del_min t = (m, t', bal) \<Longrightarrow> del_inv t t' bal"
proof (induction t arbitrary: m t' bal rule: del_min.induct)
  case (2 c x r)
  then show ?case using del_inv_one [of c Leaf x r] by simp
next
  case (3 c cl ll lx lr x r)
  obtain m1 l1 b1 where l1: "del_min (Node cl ll lx lr) = (m1, l1, b1)" by (metis prod_cases3)
  then show ?case
    using 3 del_inv_left [of c "Node cl ll lx lr" x r l1 b1 x t' bal] by (simp split: if_splits)
qed simp

lemma ordered_node:
  "ordered sz (Node c l x r) \<longleftrightarrow> ordered sz l \<and> ordered sz r \<and>
     (\<forall>y\<in>set (inorder l). cmp sz y x) \<and> (\<forall>y\<in>set (inorder r). cmp sz x y) \<and>
     (\<forall>y\<in>set (inorder l). \<forall>z\<in>set (inorder r). cmp sz y z)"
  by (auto simp: ordered_def sorted_wrt_append)

lemma cmp_asym: "cmp sz x y \<Longrightarrow> \<not> cmp sz y x"
  by (auto simp: cmp_def split: if_splits)

text \<open>Where a node of an ordered tree is found.\<close>

lemma ordered_find:
  assumes "ordered sz (Node c l x r)" "d \<in> set (inorder (Node c l x r))"
  shows "d = x \<and> d \<notin> set (inorder l) \<or>
    d \<noteq> x \<and> cmp sz d x \<and> d \<in> set (inorder l) \<or>
    d \<noteq> x \<and> \<not> cmp sz d x \<and> d \<in> set (inorder r) \<and> d \<notin> set (inorder l)"
  using assms by (auto simp: ordered_node dest: cmp_asym)

lemma del_inv_del:
  "d \<in> set (inorder t) \<Longrightarrow> ordered sz t \<Longrightarrow> invh t \<Longrightarrow> invc t \<Longrightarrow> del sz d t = (t', bal) \<Longrightarrow>
   del_inv t t' bal"
proof (induction t arbitrary: t' bal)
  case Leaf
  then show ?case by simp
next
  case (Node c l x r)
  have o: "ordered sz l" "ordered sz r" using Node.prems(2) by (auto simp: ordered_node)
  have i: "invh l" "invh r" "invc l" "invc r" using Node.prems(3,4) by auto
  consider "d = x" "r = Leaf" | "d = x" "r \<noteq> Leaf" | "d \<noteq> x" "cmp sz d x" "d \<in> set (inorder l)"
    | "d \<noteq> x" "\<not> cmp sz d x" "d \<in> set (inorder r)"
    using ordered_find [OF Node.prems(2,1)] by blast
  then show ?case
  proof cases
    case 1
    then show ?thesis using Node.prems del_inv_one [of c l x r] by (cases "l = Leaf") auto
  next
    case 2
    obtain m r1 b1 where r1: "del_min r = (m, r1, b1)" by (metis prod_cases3)
    then show ?thesis
      using 2 Node.prems i del_inv_del_min [OF _ _ _ r1] del_inv_right [of c l x r r1 b1 m t' bal]
      by simp
  next
    case 3
    obtain l1 b1 where l1: "del sz d l = (l1, b1)" by force
    then show ?thesis
      using 3 Node.prems i o Node.IH(1) [OF _ _ _ _ l1] del_inv_left [of c l x r l1 b1 x t' bal] by simp
  next
    case 4
    obtain r1 b1 where r1: "del sz d r = (r1, b1)" by force
    then show ?thesis
      using 4 Node.prems i o Node.IH(2) [OF _ _ _ _ r1] del_inv_right [of c l x r r1 b1 x t' bal] by simp
  qed
qed

lemma rb_inv_delete:
  "d \<in> set (inorder t) \<Longrightarrow> ordered sz t \<Longrightarrow> rb_inv t \<Longrightarrow> rb_inv (delete_root sz d t)"
  using del_inv_del [of d t sz "fst (del sz d t)" "snd (del sz d t)"]
  by (simp add: rb_inv_def delete_root_def del_inv_def)

subsubsection \<open>The keys after a deletion\<close>

lemma inorder_balance_left_black [simp]: "inorder (fst (balance_left_black t)) = inorder t"
proof (cases t rule: balance_left_black.cases)
  case (1 c a x d b y e)
  then show ?thesis by (cases b) auto
qed auto

lemma inorder_balance_right_black [simp]: "inorder (fst (balance_right_black t)) = inorder t"
proof (cases t rule: balance_right_black.cases)
  case (1 c d b y e x a)
  then show ?thesis by (cases e) auto
qed auto

lemma inorder_balance_left [simp]: "inorder (fst (balance_left t)) = inorder t"
  by (induction t rule: balance_left.induct) (simp_all del: balance_left_black.simps add: case_prod_beta)

lemma inorder_balance_right [simp]: "inorder (fst (balance_right t)) = inorder t"
  by (induction t rule: balance_right.induct) (simp_all del: balance_right_black.simps add: case_prod_beta)

lemma inorder_del_min:
  "t \<noteq> Leaf \<Longrightarrow> del_min t = (m, t', bal) \<Longrightarrow> inorder t = m # inorder t'"
proof (induction t arbitrary: m t' bal rule: del_min.induct)
  case (3 c cl ll lx lr x r)
  obtain m1 l1 b1 where l1: "del_min (Node cl ll lx lr) = (m1, l1, b1)" by (metis prod_cases3)
  then have "inorder (Node cl ll lx lr) = m1 # inorder l1" using 3 by blast
  then show ?case
    using 3 l1 inorder_balance_left [of "Node c l1 x r"] by (cases b1) (auto simp del: inorder_balance_left)
qed auto

lemma inorder_del:
  "d \<in> set (inorder t) \<Longrightarrow> ordered sz t \<Longrightarrow> inorder (fst (del sz d t)) = remove1 d (inorder t)"
proof (induction t)
  case Leaf
  then show ?case by simp
next
  case (Node c l x r)
  have o: "ordered sz l" "ordered sz r" using Node.prems(2) by (auto simp: ordered_node)
  consider "d = x" "d \<notin> set (inorder l)" "r = Leaf" | "d = x" "d \<notin> set (inorder l)" "r \<noteq> Leaf"
    | "d \<noteq> x" "cmp sz d x" "d \<in> set (inorder l)"
    | "d \<noteq> x" "\<not> cmp sz d x" "d \<in> set (inorder r)" "d \<notin> set (inorder l)"
    using ordered_find [OF Node.prems(2,1)] by blast
  then show ?case
  proof cases
    case 1
    then show ?thesis by (simp add: remove1_append)
  next
    case 2
    obtain m r1 b1 where r1: "del_min r = (m, r1, b1)" by (metis prod_cases3)
    then show ?thesis using 2 inorder_del_min [of r m r1 b1] by (simp add: remove1_append)
  next
    case 3
    then show ?thesis using Node.IH(1) o by (auto simp: remove1_append split: prod.splits)
  next
    case 4
    then show ?thesis using Node.IH(2) o by (auto simp: remove1_append split: prod.splits)
  qed
qed

text \<open>
  The siblings the rebalancing reads are there; with them and the invariants the code never
  looks below the sentinel.
\<close>

fun sib_right :: "tree \<Rightarrow> bool" where
  "sib_right (Node c a x (Node MM_COLOR_RED b y d)) \<longleftrightarrow> sib_right (Node MM_COLOR_RED a x b)"
| "sib_right (Node c a x r) \<longleftrightarrow> r \<noteq> Leaf"
| "sib_right Leaf = False"

fun sib_left :: "tree \<Rightarrow> bool" where
  "sib_left (Node c (Node MM_COLOR_RED b y d) x a) \<longleftrightarrow> sib_left (Node MM_COLOR_RED d x a)"
| "sib_left (Node c l x r) \<longleftrightarrow> l \<noteq> Leaf"
| "sib_left Leaf = False"

lemma sib_right_black: "\<not> col r \<Longrightarrow> sib_right (Node c l x r) \<longleftrightarrow> r \<noteq> Leaf"
  by (cases r) auto

lemma sib_left_black: "\<not> col l \<Longrightarrow> sib_left (Node c l x r) \<longleftrightarrow> l \<noteq> Leaf"
  by (cases l) auto

lemma sib_right_inv: "bh r = Suc (bh l) \<Longrightarrow> invh r \<Longrightarrow> invc r \<Longrightarrow> sib_right (Node c l x r)"
  by (cases r) (auto simp: sib_right_black split: if_splits)

lemma sib_left_inv: "bh l = Suc (bh r) \<Longrightarrow> invh l \<Longrightarrow> invc l \<Longrightarrow> sib_left (Node c l x r)"
  by (cases l) (auto simp: sib_left_black split: if_splits)

lemma del_inv_sib_right:
  "invh (Node c l x r) \<Longrightarrow> invc (Node c l x r) \<Longrightarrow> del_inv l l' False \<Longrightarrow> sib_right (Node c l' x r)"
  by (auto simp: del_inv_def intro: sib_right_inv)

lemma del_inv_sib_left:
  "invh (Node c l x r) \<Longrightarrow> invc (Node c l x r) \<Longrightarrow> del_inv r r' False \<Longrightarrow> sib_left (Node c l y r')"
  by (auto simp: del_inv_def intro: sib_left_inv)

subsection \<open>Search\<close>

lemma ordered_sizes:
  "ordered sz (Node c l x r) \<Longrightarrow> y \<in> set (inorder l) \<Longrightarrow> sz y \<le> sz x"
  "ordered sz (Node c l x r) \<Longrightarrow> y \<in> set (inorder r) \<Longrightarrow> sz x \<le> sz y"
  by (auto simp: ordered_node cmp_def split: if_splits)

lemma search_in: "search sz n t = Some p \<Longrightarrow> p \<in> set (inorder t)"
  by (induction t) (auto split: if_splits option.splits)

lemma search_none:
  "ordered sz t \<Longrightarrow> search sz n t = None \<longleftrightarrow> (\<forall>q\<in>set (inorder t). sz q < n)"
proof (induction t)
  case Leaf
  then show ?case by simp
next
  case (Node c l x r)
  have o: "ordered sz l" "ordered sz r" using Node.prems by (auto simp: ordered_node)
  show ?case
  proof (cases "n \<le> sz x")
    case True
    then show ?thesis by (force split: option.splits)
  next
    case False
    then have "\<forall>y\<in>set (inorder l). sz y < n"
      using ordered_sizes(1) [OF Node.prems] by (meson le_less_trans not_le)
    then show ?thesis using False Node.IH(2) [OF o(2)] by auto
  qed
qed

lemma search_some:
  "ordered sz t \<Longrightarrow> search sz n t = Some p \<Longrightarrow>
   p \<in> set (inorder t) \<and> n \<le> sz p \<and> (\<forall>q\<in>set (inorder t). n \<le> sz q \<longrightarrow> q = p \<or> cmp sz p q)"
proof (induction t)
  case Leaf
  then show ?case by simp
next
  case (Node c l x r)
  have o: "ordered sz l" "ordered sz r" using Node.prems(1) by (auto simp: ordered_node)
  consider "n \<le> sz x" "search sz n l = None" "p = x" | "n \<le> sz x" "search sz n l = Some p"
    | "\<not> n \<le> sz x" "search sz n r = Some p"
    using Node.prems(2) by (cases "search sz n l"; cases "n \<le> sz x") simp_all
  then show ?case
  proof cases
    case 1
    then show ?thesis
      using Node.prems(1) search_none [OF o(1), of n] by (auto simp: ordered_node dest: leD)
  next
    case 2
    then show ?thesis using Node.IH(1) [OF o(1)] Node.prems(1) by (auto simp: ordered_node)
  next
    case 3
    then show ?thesis
      using Node.IH(2) [OF o(2)] ordered_sizes(1) [OF Node.prems(1)] by (auto dest: order_trans)
  qed
qed

end
