(* ===== verification/TreePtr.thy ===== *)
theory TreePtr
  imports RBPtr RBTree
begin

text \<open>
  The code of \<open>RBPtr\<close> implements the trees of \<open>RBTree\<close>. \<open>tree_at\<close> relates the nodes of
  the heap to a tree; the lemmas run each function of the code on a heap that holds a tree and
  show that it returns, leaves the heap holding the tree the functional version computes, and
  touches nothing but colours and links of that tree's nodes. The proofs are carried out in
  the interface of the node store and instantiated on the bytes of the heap at the end.
\<close>

fun root :: "ptr \<Rightarrow> tree \<Rightarrow> ptr" where
  "root nil Leaf = nil"
| "root nil (Node c l x r) = x"

fun tree_at :: "(ptr \<Rightarrow> mm_node) \<Rightarrow> ptr \<Rightarrow> tree \<Rightarrow> bool" where
  "tree_at V nil Leaf = True"
| "tree_at V nil (Node c l x r) \<longleftrightarrow> n_left (V x) = root nil l \<and> n_right (V x) = root nil r \<and>
     n_color (V x) = c \<and> \<not> n_null (V x) \<and> tree_at V nil l \<and> tree_at V nil r"

definition sizes :: "(ptr \<Rightarrow> mm_node) \<Rightarrow> ptr \<Rightarrow> c_uint" where
  "sizes V x = n_size (V x)"

abbreviation nodes :: "tree \<Rightarrow> ptr set" where
  "nodes t \<equiv> set (inorder t)"

lemma tree_at_fields_cong:
  "(\<And>x. x \<in> nodes t \<Longrightarrow> n_left (V' x) = n_left (V x) \<and> n_right (V' x) = n_right (V x) \<and>
     n_color (V' x) = n_color (V x) \<and> n_null (V' x) = n_null (V x)) \<Longrightarrow>
   tree_at V' nil t = tree_at V nil t"
  by (induction t) auto

lemma tree_at_cong:
  "(\<And>x. x \<in> nodes t \<Longrightarrow> V' x = V x) \<Longrightarrow> tree_at V' nil t = tree_at V nil t"
  by (rule tree_at_fields_cong) simp

lemma tree_at_null: "tree_at V nil t \<Longrightarrow> x \<in> nodes t \<Longrightarrow> \<not> n_null (V x)"
  by (induction t) auto

lemma tree_at_upd [simp]: "x \<notin> nodes t \<Longrightarrow> tree_at (V(x := n)) nil t = tree_at V nil t"
  by (rule tree_at_cong) auto

lemma root_paint [simp]: "root nil (paint c t) = root nil t"
  by (cases t) auto

lemma root_in [simp]: "t \<noteq> Leaf \<Longrightarrow> root nil t \<in> nodes t"
  by (cases t) auto

context node_store
begin

definition is_nil :: "ptr \<Rightarrow> heap \<Rightarrow> bool" where
  "is_nil nil s \<longleftrightarrow> nil \<in> N \<and> n_null (V s nil) \<and> n_color (V s nil) = MM_COLOR_BLACK"

definition rep :: "ptr \<Rightarrow> heap \<Rightarrow> tree \<Rightarrow> bool" where
  "rep nil s t \<longleftrightarrow> ok s \<and> is_nil nil s \<and> tree_at (V s) nil t \<and> distinct (inorder t) \<and>
     nodes t \<subseteq> N \<and> nil \<notin> nodes t"

text \<open>The fields of a tree's root, and of its children.\<close>

lemma view_upd:
  "ok s \<Longrightarrow> p \<in> N \<Longrightarrow> x \<in> N \<Longrightarrow> x \<noteq> p \<Longrightarrow> V (pl p q s) x = V s x"
  "ok s \<Longrightarrow> p \<in> N \<Longrightarrow> x \<in> N \<Longrightarrow> x \<noteq> p \<Longrightarrow> V (pr p q s) x = V s x"
  "ok s \<Longrightarrow> p \<in> N \<Longrightarrow> x \<in> N \<Longrightarrow> x \<noteq> p \<Longrightarrow> V (pc p b s) x = V s x"
  by (simp_all add: view_put)

lemma tree_put:
  "ok s \<Longrightarrow> p \<in> N \<Longrightarrow> nodes t \<subseteq> N \<Longrightarrow> p \<notin> nodes t \<Longrightarrow> tree_at (V (pl p q s)) nil t = tree_at (V s) nil t"
  "ok s \<Longrightarrow> p \<in> N \<Longrightarrow> nodes t \<subseteq> N \<Longrightarrow> p \<notin> nodes t \<Longrightarrow> tree_at (V (pr p q s)) nil t = tree_at (V s) nil t"
  "ok s \<Longrightarrow> p \<in> N \<Longrightarrow> nodes t \<subseteq> N \<Longrightarrow> p \<notin> nodes t \<Longrightarrow> tree_at (V (pc p b s)) nil t = tree_at (V s) nil t"
  by (rule tree_at_cong; auto simp: view_put dest: subsetD)+

lemma root_in_N: "rep nil s t \<Longrightarrow> root nil t \<in> N"
  by (cases t) (auto simp: rep_def is_nil_def)

lemma root_col: "rep nil s t \<Longrightarrow> n_color (V s (root nil t)) = col t"
  by (cases t) (auto simp: rep_def is_nil_def)

lemma root_null: "rep nil s t \<Longrightarrow> n_null (V s (root nil t)) = (t = Leaf)"
  by (cases t) (auto simp: rep_def is_nil_def)

lemma rep_sub: "rep nil s (Node c l x r) \<Longrightarrow> rep nil s l \<and> rep nil s r"
  by (auto simp: rep_def)

lemmas exec = get put ok_put view_put tree_put fr_put fr_refl

lemmas fields = rep_def is_nil_def

lemmas run = exec mm_rotate_left_def mm_rotate_right_def

lemma rep_root: "rep nil s t \<Longrightarrow> root nil t \<in> N \<and> n_color (V s (root nil t)) = col t \<and>
   n_null (V s (root nil t)) = (t = Leaf)"
  using root_in_N root_col root_null by blast

lemma mm_insert_left_rep:
  assumes "rep nil s (Node c l x r)"
  shows "\<exists>s'. mm_insert_left x s = Some (root nil (fix_left c l x r), s') \<and> rep nil s' (fix_left c l x r) \<and>
    fr (nodes (Node c l x r)) s s'"
proof (cases l rule: red_cases)
  case black
  then show ?thesis using assms rep_root [of nil s l] rep_sub [OF assms]
    by (simp add: mm_insert_left_def exec rep_def fix_left_def)
next
  case (inner a y b z d)
  then show ?thesis using assms
    by (cases r; simp add: fields; elim conjE; simp add: mm_insert_left_def run fix_left_def)
next
  case (outer a y b z d)
  have "rep nil s d" using outer assms by (auto simp: rep_def)
  then show ?thesis using outer assms rep_root [of nil s d]
    by (cases r; simp add: fields; elim conjE; simp add: mm_insert_left_def run fix_left_def)
next
  case (red a y b)
  have "rep nil s a" "rep nil s b" using red assms by (auto simp: rep_def)
  then show ?thesis using red assms rep_root [of nil s a] rep_root [of nil s b]
    by (simp add: fields; elim conjE; simp add: mm_insert_left_def run fix_left_def)
qed

lemma mm_insert_right_rep:
  assumes "rep nil s (Node c l x r)"
  shows "\<exists>s'. mm_insert_right x s = Some (root nil (fix_right c l x r), s') \<and> rep nil s' (fix_right c l x r) \<and>
    fr (nodes (Node c l x r)) s s'"
proof (cases r rule: red_cases')
  case black
  then show ?thesis using assms rep_root [of nil s r] rep_sub [OF assms]
    by (simp add: mm_insert_right_def exec rep_def fix_right_def)
next
  case (inner a y b z d)
  then show ?thesis using assms
    by (cases l; simp add: fields; elim conjE; simp add: mm_insert_right_def run fix_right_def)
next
  case (outer a y b z d)
  have "rep nil s a" using outer assms by (auto simp: rep_def)
  then show ?thesis using outer assms rep_root [of nil s a]
    by (cases l; simp add: fields; elim conjE; simp add: mm_insert_right_def run fix_right_def)
next
  case (red a y b)
  have "rep nil s a" "rep nil s b" using red assms by (auto simp: rep_def)
  then show ?thesis using red assms rep_root [of nil s a] rep_root [of nil s b]
    by (simp add: fields; elim conjE; simp add: mm_insert_right_def run fix_right_def)
qed

text \<open>Trees outside the nodes an operation works on stay where they are.\<close>

lemma rep_frame:
  assumes "rep nil s t" "fr P s s'" "P \<subseteq> N" "P \<inter> nodes t = {}" "nil \<notin> P"
  shows "rep nil s' t"
proof -
  have "ok s" "nil \<in> N" "nodes t \<subseteq> N" using assms(1) by (simp_all add: fields)
  moreover from this have "V s' x = V s x" if "x \<in> nodes t \<or> x = nil" for x
    using that assms fr_view [of s P s' x] by auto
  ultimately show ?thesis
    using assms(1) fr_ok [OF assms(2)] tree_at_cong [of t "V s'" "V s" nil] by (simp add: fields)
qed

text \<open>Putting a node over two trees: what the assignment to a child's link does.\<close>

lemma rep_link_left:
  assumes "rep nil s (Node c l x r)" "rep nil s' l'" "fr P s s'" "P \<subseteq> N" "x \<notin> P" "P \<inter> nodes r = {}" "nil \<notin> P"
    "distinct (inorder (Node c l' x r))"
  shows "rep nil (pl x (root nil l') s') (Node c l' x r)"
proof -
  have r: "rep nil s' r" using rep_sub [OF assms(1)] rep_frame assms(3-7) by blast
  have "V s' x = V s x" using assms fr_view [of s P s' x] by (auto simp: rep_def)
  then show ?thesis using assms(1,2,8) r by (simp add: fields) (elim conjE, simp add: exec)
qed

lemma rep_link_right:
  assumes "rep nil s (Node c l x r)" "rep nil s' r'" "fr P s s'" "P \<subseteq> N" "x \<notin> P" "P \<inter> nodes l = {}" "nil \<notin> P"
    "distinct (inorder (Node c l x r'))"
  shows "rep nil (pr x (root nil r') s') (Node c l x r')"
proof -
  have l: "rep nil s' l" using rep_sub [OF assms(1)] rep_frame assms(3-7) by blast
  have "V s' x = V s x" using assms fr_view [of s P s' x] by (auto simp: rep_def)
  then show ?thesis using assms(1,2,8) l by (simp add: fields) (elim conjE, simp add: exec)
qed

lemma get_sizes: "ok s \<Longrightarrow> p \<in> N \<Longrightarrow> get_size p s = Some (sizes (V s) p)"
  by (simp add: get sizes_def)

lemma cmp_node:
  "ok s \<Longrightarrow> x \<in> N \<Longrightarrow> y \<in> N \<Longrightarrow> mm_cmp_node x y s = Some (cmp (sizes (V s)) x y)"
  by (simp add: mm_cmp_node_def cmp_def get_sizes)

lemma mm_insert_node_rep:
  assumes "rep nil s t" "new \<in> N" "new \<notin> nodes t" "new \<noteq> nil" "\<not> n_null (V s new)"
  shows "\<exists>s'. mm_insert_node (root nil t) new s = Some (root nil (ins (sizes (V s)) new t), s') \<and>
    rep nil s' (ins (sizes (V s)) new t) \<and> fr (insert new (nodes t)) s s'"
  using assms
proof (induction t)
  case Leaf
  then show ?case
    by (subst mm_insert_node.simps) (simp add: fields, elim conjE, simp add: run)
next
  case (Node c l x r)
  have ok: "ok s" "x \<in> N" "nodes l \<subseteq> N" "nodes r \<subseteq> N" using Node.prems by (auto simp: rep_def)
  have f: "n_null (V s x) = False" "n_left (V s x) = root nil l" "n_right (V s x) = root nil r"
    using Node.prems(1) by (auto simp: rep_def)
  have d: "distinct (inorder l @ x # inorder r)" "nil \<notin> nodes l \<union> nodes r" "x \<noteq> nil"
    using Node.prems(1) by (auto simp: rep_def)
  note sub = rep_sub [OF Node.prems(1)]
  let ?Q = "insert new (nodes (Node c l x r))"
  have Q: "?Q \<subseteq> N" using ok Node.prems by auto
  show ?case
  proof (cases "cmp (sizes (V s)) new x")
    case True
    let ?l = "ins (sizes (V s)) new l"
    obtain s1 where s1: "mm_insert_node (root nil l) new s = Some (root nil ?l, s1)"
      "rep nil s1 ?l" "fr (insert new (nodes l)) s s1"
      using Node.IH(1) Node.prems sub by auto
    let ?s = "pl x (root nil ?l) s1"
    have "distinct (inorder (Node c ?l x r))"
      using s1(2) d Node.prems(3) by (auto simp: rep_def)
    then have r: "rep nil ?s (Node c ?l x r)"
      using rep_link_left [OF Node.prems(1) s1(2,3)] Node.prems ok d by auto
    obtain s2 where s2: "mm_insert_left x ?s = Some (root nil (fix_left c ?l x r), s2)"
      "rep nil s2 (fix_left c ?l x r)" "fr (nodes (Node c ?l x r)) ?s s2"
      using mm_insert_left_rep [OF r] by blast
    have "fr ?Q s s1" using fr_mono [OF s1(3) _ Q ok(1)] by auto
    then have "fr ?Q s ?s" using fr_put(1) [OF ok(1) Q] by simp
    moreover have "fr ?Q ?s s2" using s2(3) by (simp add: insert_commute)
    ultimately have "fr ?Q s s2" by (rule fr_trans)
    then show ?thesis using True s1 s2 ok f Node.prems(2) fr_ok [OF s1(3)]
      by (subst mm_insert_node.simps) (simp add: get put cmp_node)
  next
    case False
    let ?r = "ins (sizes (V s)) new r"
    obtain s1 where s1: "mm_insert_node (root nil r) new s = Some (root nil ?r, s1)"
      "rep nil s1 ?r" "fr (insert new (nodes r)) s s1"
      using Node.IH(2) Node.prems sub by auto
    let ?s = "pr x (root nil ?r) s1"
    have "distinct (inorder (Node c l x ?r))"
      using s1(2) d Node.prems(3) by (auto simp: rep_def)
    then have r: "rep nil ?s (Node c l x ?r)"
      using rep_link_right [OF Node.prems(1) s1(2,3)] Node.prems ok d by auto
    obtain s2 where s2: "mm_insert_right x ?s = Some (root nil (fix_right c l x ?r), s2)"
      "rep nil s2 (fix_right c l x ?r)" "fr (nodes (Node c l x ?r)) ?s s2"
      using mm_insert_right_rep [OF r] by blast
    have "fr ?Q s s1" using fr_mono [OF s1(3) _ Q ok(1)] by auto
    then have "fr ?Q s ?s" using fr_put(2) [OF ok(1) Q] by simp
    moreover have "fr ?Q ?s s2" using s2(3) by (simp add: insert_commute)
    ultimately have "fr ?Q s s2" by (rule fr_trans)
    then show ?thesis using False s1 s2 ok f Node.prems(2) fr_ok [OF s1(3)]
      by (subst mm_insert_node.simps) (simp add: get put cmp_node)
  qed
qed

lemma mm_search_node_rep:
  "rep nil s t \<Longrightarrow> NULL \<notin> N \<Longrightarrow>
   mm_search_node (root nil t) n s = Some (case search (sizes (V s)) n t of None \<Rightarrow> NULL | Some p \<Rightarrow> p)"
proof (induction t)
  case Leaf
  then show ?case by (subst mm_search_node.simps) (simp add: fields get)
next
  case (Node c l x r)
  have f: "ok s" "x \<in> N" "n_null (V s x) = False" "n_left (V s x) = root nil l" "n_right (V s x) = root nil r"
    using Node.prems(1) by (auto simp: rep_def)
  have "search (sizes (V s)) n l = Some p \<Longrightarrow> p \<in> N" for p
    using Node.prems(1) search_in [of "sizes (V s)" n l p] by (auto simp: rep_def)
  then show ?case using f Node rep_sub [OF Node.prems(1)]
    by (subst mm_search_node.simps) (auto simp: get(2-) get_sizes split: option.splits)
qed

subsection \<open>Deletion\<close>

lemmas chk = c_and_def is_red_def is_black_def get_right_left_def get_right_right_def get_left_left_def
  get_left_right_def set_color_of_def

lemma mm_delete_left_black_rep:
  assumes "rep nil s (Node c l x r)" "\<not> col r" "r \<noteq> Leaf"
  defines "b \<equiv> balance_left_black (Node c l x r)"
  shows "\<exists>s'. mm_delete_left_black x False s = Some (root nil (fst b), snd b, s') \<and> rep nil s' (fst b) \<and>
    fr (nodes (Node c l x r)) s s'"
proof -
  obtain a y e where r: "r = Node MM_COLOR_BLACK a y e" using assms(2,3) by (cases r) auto
  have "rep nil s a" "rep nil s e" using r assms(1) by (auto simp: rep_def)
  note ae = rep_root [OF this(1)] rep_root [OF this(2)]
  consider "\<not> col a" "\<not> col e" "c" | "\<not> col a" "\<not> col e" "\<not> c"
    | (rot) a1 z a2 where "a = Node MM_COLOR_RED a1 z a2" "\<not> col e"
    | (single) e1 z e2 where "e = Node MM_COLOR_RED e1 z e2"
    by (cases a; cases e; cases c; auto)
  then show ?thesis
  proof cases
    case 1
    then show ?thesis using r assms(1) ae
      by (simp add: b_def fields; elim conjE; simp add: mm_delete_left_black_def chk run)
  next
    case 2
    then show ?thesis using r assms(1) ae
      by (simp add: b_def fields; elim conjE; simp add: mm_delete_left_black_def chk run)
  next
    case rot
    then show ?thesis using r assms(1) ae
      by (cases c; simp add: b_def fields; elim conjE; simp add: mm_delete_left_black_def chk run)
  next
    case single
    then show ?thesis using r assms(1) ae
      by (cases c; cases a; simp add: b_def fields; elim conjE; simp add: mm_delete_left_black_def chk run)
  qed
qed

lemma mm_delete_right_black_rep:
  assumes "rep nil s (Node c l x r)" "\<not> col l" "l \<noteq> Leaf"
  defines "b \<equiv> balance_right_black (Node c l x r)"
  shows "\<exists>s'. mm_delete_right_black x False s = Some (root nil (fst b), snd b, s') \<and> rep nil s' (fst b) \<and>
    fr (nodes (Node c l x r)) s s'"
proof -
  obtain a y e where l: "l = Node MM_COLOR_BLACK a y e" using assms(2,3) by (cases l) auto
  have "rep nil s a" "rep nil s e" using l assms(1) by (auto simp: rep_def)
  note ae = rep_root [OF this(1)] rep_root [OF this(2)]
  consider "\<not> col a" "\<not> col e" "c" | "\<not> col a" "\<not> col e" "\<not> c"
    | (rot) a1 z a2 where "e = Node MM_COLOR_RED a1 z a2" "\<not> col a"
    | (single) e1 z e2 where "a = Node MM_COLOR_RED e1 z e2"
    by (cases a; cases e; cases c; auto)
  then show ?thesis
  proof cases
    case 1
    then show ?thesis using l assms(1) ae
      by (simp add: b_def fields; elim conjE; simp add: mm_delete_right_black_def chk run)
  next
    case 2
    then show ?thesis using l assms(1) ae
      by (simp add: b_def fields; elim conjE; simp add: mm_delete_right_black_def chk run)
  next
    case rot
    then show ?thesis using l assms(1) ae
      by (cases c; simp add: b_def fields; elim conjE; simp add: mm_delete_right_black_def chk run)
  next
    case single
    then show ?thesis using l assms(1) ae
      by (cases c; cases e; simp add: b_def fields; elim conjE; simp add: mm_delete_right_black_def chk run)
  qed
qed

lemma is_red_left: "rep nil s (Node c l x r) \<Longrightarrow> is_red (get_left x s) s = Some (col l)"
  using rep_root [of nil s l] rep_sub [of nil s c l x r]
  by (auto simp: is_red_def rep_def get)

lemma is_red_right: "rep nil s (Node c l x r) \<Longrightarrow> is_red (get_right x s) s = Some (col r)"
  using rep_root [of nil s r] rep_sub [of nil s c l x r]
  by (auto simp: is_red_def rep_def get)

lemma is_red_now: "rep nil s (Node c l x r) \<Longrightarrow> is_red (Some x) s = Some c"
  by (auto simp: is_red_def rep_def get)

lemma mm_delete_left_sib_black:
  assumes "rep nil s (Node c l x r)" "\<not> col r" "r \<noteq> Leaf"
  shows "\<exists>s'. mm_delete_left x False s = Some (root nil (fst (balance_left (Node c l x r))),
      snd (balance_left (Node c l x r)), s') \<and>
    rep nil s' (fst (balance_left (Node c l x r))) \<and> fr (nodes (Node c l x r)) s s'"
  using mm_delete_left_black_rep [OF assms] is_red_right [OF assms(1)] assms(2)
  by (subst mm_delete_left.simps) simp

lemma mm_delete_left_rep:
  assumes "rep nil s t" "sib_right t"
  shows "\<exists>s'. mm_delete_left (root nil t) False s = Some (root nil (fst (balance_left t)), snd (balance_left t), s') \<and>
    rep nil s' (fst (balance_left t)) \<and> fr (nodes t) s s'"
  using assms
proof (induction t arbitrary: s rule: sib_right.induct [case_names red none black empty])
  case (red c a x b y d)
  let ?t = "Node c a x (Node True b y d)" and ?u = "Node True a x b"
  obtain u bal where u: "balance_left ?u = (u, bal)" by force
  let ?s = "pc x True (pc y False (pl y x (pr x (root nil b) s)))"
  have r: "rep nil ?s (Node False ?u y d)" "fr (nodes ?t) s ?s" "ok s" "nodes ?t \<subseteq> N" "x \<in> N" "y \<in> N"
    "nil \<notin> nodes ?t" "distinct (inorder ?t)"
    using red(2) by (simp_all add: fields) (elim conjE, simp add: run)+
  have ex: "mm_rotate_left x s = Some (y, pl y x (pr x (root nil b) s))"
    "set_color_of (get_left y (pc y False (pl y x (pr x (root nil b) s)))) True
      (pc y False (pl y x (pr x (root nil b) s))) = Some ?s"
    "get_left y ?s = Some x"
    using red(2) by (simp_all add: fields) (elim conjE, simp add: run chk)+
  obtain s1 where s1: "mm_delete_left x False ?s = Some (root nil u, bal, s1)" "rep nil s1 u" "fr (nodes ?u) ?s s1"
    using red(1) [of ?s] red(3) rep_sub [OF r(1)] u by auto
  have n: "nodes u = nodes ?u" "distinct (inorder u)"
    using u inorder_balance_left [of ?u] s1(2) by (auto simp: rep_def simp del: inorder_balance_left)
  have i: "nodes ?u \<inter> nodes d = {}" "y \<notin> nodes ?u" "distinct (inorder (Node False u y d))"
    using r(8) n by (auto simp: Int_Un_distrib2)
  have "rep nil (pl y (root nil u) s1) (Node False u y d)"
    using rep_link_left [OF r(1) s1(2,3) _ i(2,1) _ i(3)] r(4,7) by simp
  moreover have "fr (nodes ?t) s (pl y (root nil u) s1)"
  proof -
    have "fr (nodes ?t) ?s s1" using fr_mono [OF s1(3) _ r(4)] r(3) by (auto simp: ok_put)
    then show ?thesis using fr_trans [OF r(2)] fr_put(1) [OF r(3,4)] by simp
  qed
  ultimately show ?case
    using ex s1 u r(3,5,6) is_red_right [OF red(2)] fr_ok [OF s1(3)]
    by (subst mm_delete_left.simps) (simp add: get put ok_put)
next
  case (black c a x b y d)
  then show ?case using mm_delete_left_sib_black [of nil s c a x "Node False b y d"]
    by (simp del: balance_left_black.simps inorder.simps)
qed simp_all

lemma mm_delete_right_sib_black:
  assumes "rep nil s (Node c l x r)" "\<not> col l" "l \<noteq> Leaf"
  shows "\<exists>s'. mm_delete_right x False s = Some (root nil (fst (balance_right (Node c l x r))),
      snd (balance_right (Node c l x r)), s') \<and>
    rep nil s' (fst (balance_right (Node c l x r))) \<and> fr (nodes (Node c l x r)) s s'"
  using mm_delete_right_black_rep [OF assms] is_red_left [OF assms(1)] assms(2)
  by (subst mm_delete_right.simps) simp

lemma mm_delete_right_rep:
  assumes "rep nil s t" "sib_left t"
  shows "\<exists>s'. mm_delete_right (root nil t) False s = Some (root nil (fst (balance_right t)), snd (balance_right t), s') \<and>
    rep nil s' (fst (balance_right t)) \<and> fr (nodes t) s s'"
  using assms
proof (induction t arbitrary: s rule: sib_left.induct [case_names red none black empty])
  case (red c b y d x a)
  let ?t = "Node c (Node True b y d) x a" and ?u = "Node True d x a"
  obtain u bal where u: "balance_right ?u = (u, bal)" by force
  let ?s = "pc x True (pc y False (pr y x (pl x (root nil d) s)))"
  have r: "rep nil ?s (Node False b y ?u)" "fr (nodes ?t) s ?s" "ok s" "nodes ?t \<subseteq> N" "x \<in> N" "y \<in> N"
    "nil \<notin> nodes ?t" "distinct (inorder ?t)"
    using red(2) by (simp_all add: fields) (elim conjE, simp add: run)+
  have ex: "mm_rotate_right x s = Some (y, pr y x (pl x (root nil d) s))"
    "set_color_of (get_right y (pc y False (pr y x (pl x (root nil d) s)))) True
      (pc y False (pr y x (pl x (root nil d) s))) = Some ?s"
    "get_right y ?s = Some x"
    using red(2) by (simp_all add: fields) (elim conjE, simp add: run chk)+
  obtain s1 where s1: "mm_delete_right x False ?s = Some (root nil u, bal, s1)" "rep nil s1 u" "fr (nodes ?u) ?s s1"
    using red(1) [of ?s] red(3) rep_sub [OF r(1)] u by auto
  have n: "nodes u = nodes ?u" "distinct (inorder u)"
    using u inorder_balance_right [of ?u] s1(2) by (auto simp: rep_def simp del: inorder_balance_right)
  have i: "nodes ?u \<inter> nodes b = {}" "y \<notin> nodes ?u" "distinct (inorder (Node False b y u))"
    using r(8) n by (auto simp: Int_Un_distrib2)
  have "rep nil (pr y (root nil u) s1) (Node False b y u)"
    using rep_link_right [OF r(1) s1(2,3) _ i(2,1) _ i(3)] r(4,7) by simp
  moreover have "fr (nodes ?t) s (pr y (root nil u) s1)"
  proof -
    have "fr (nodes ?t) ?s s1" using fr_mono [OF s1(3) _ r(4)] r(3) by (auto simp: ok_put)
    then show ?thesis using fr_trans [OF r(2)] fr_put(2) [OF r(3,4)] by simp
  qed
  ultimately show ?case
    using ex s1 u r(3,5,6) is_red_left [OF red(2)] fr_ok [OF s1(3)]
    by (subst mm_delete_right.simps) (simp add: get put ok_put)
next
  case (black c b y d x a)
  then show ?case using mm_delete_right_sib_black [of nil s c "Node False b y d" x a]
    by (simp del: balance_right_black.simps inorder.simps)
qed simp_all

text \<open>Continuing after a subtree lost a node: the last lines of \<open>mm_delete_node\<close>.\<close>

lemma finish_left:
  assumes "rep nil s (Node c l x r)" "bal \<or> sib_right (Node c l x r)"
    "u = (if bal then (Node c l x r, True) else balance_left (Node c l x r))"
  shows "\<exists>s'. (if \<not> bal then mm_delete_left x bal s else Some (x, bal, s)) = Some (root nil (fst u), snd u, s') \<and>
    rep nil s' (fst u) \<and> fr (nodes (Node c l x r)) s s'"
  using mm_delete_left_rep [OF assms(1)] assms fr_refl by (cases bal) simp_all

lemma finish_right:
  assumes "rep nil s (Node c l x r)" "bal \<or> sib_left (Node c l x r)"
    "u = (if bal then (Node c l x r, True) else balance_right (Node c l x r))"
  shows "\<exists>s'. (if \<not> bal then mm_delete_right x bal s else Some (x, bal, s)) = Some (root nil (fst u), snd u, s') \<and>
    rep nil s' (fst u) \<and> fr (nodes (Node c l x r)) s s'"
  using mm_delete_right_rep [OF assms(1)] assms fr_refl by (cases bal) simp_all

lemma rep_paint:
  assumes "rep nil s t"
  shows "rep nil (pc (root nil t) False s) (paint False t) \<and> fr (nodes t) s (pc (root nil t) False s)"
proof (cases t)
  case Leaf
  then show ?thesis using assms pc_same [of s nil False] by (simp add: fields fr_refl)
next
  case (Node c l x r)
  then show ?thesis using assms by (simp add: fields) (elim conjE, simp add: run)
qed

lemma rep_fields:
  assumes "rep nil s (Node c l x r)"
  shows "ok s" "x \<in> N" "n_left (V s x) = root nil l" "n_right (V s x) = root nil r" "n_color (V s x) = c"
    "\<not> n_null (V s x)" "nodes (Node c l x r) \<subseteq> N" "nil \<notin> nodes (Node c l x r)"
    "distinct (inorder (Node c l x r))"
  using assms by (simp_all add: rep_def)

lemma finish_left_sub:
  assumes N: "rep nil s (Node c l x r)" "invh (Node c l x r)" "invc (Node c l x r)"
    and s1: "rep nil s1 l'" "fr (nodes l) s s1" and i: "nodes l' \<subseteq> nodes l" and di: "del_inv l l' bal"
    and u: "u = (if bal then (Node c l' x r, True) else balance_left (Node c l' x r))"
  shows "\<exists>s'. (if \<not> bal then mm_delete_left x bal (pl x (root nil l') s1)
      else Some (x, bal, pl x (root nil l') s1)) = Some (root nil (fst u), snd u, s') \<and>
    rep nil s' (fst u) \<and> fr (nodes (Node c l x r)) s s'"
proof -
  note f = rep_fields [OF N(1)]
  let ?s = "pl x (root nil l') s1"
  have "distinct (inorder (Node c l' x r))" "x \<notin> nodes l" "nodes l \<inter> nodes r = {}"
    using f(9) i s1(1) by (auto simp: rep_def)
  then have r: "rep nil ?s (Node c l' x r)"
    using rep_link_left [OF N(1) s1] f(7,8) by auto
  have sib: "bal \<or> sib_right (Node c l' x r)" using del_inv_sib_right [OF N(2,3)] di by (cases bal) simp_all
  obtain s2 where s2: "(if \<not> bal then mm_delete_left x bal ?s else Some (x, bal, ?s)) = Some (root nil (fst u), snd u, s2)"
    "rep nil s2 (fst u)" "fr (nodes (Node c l' x r)) ?s s2"
    using finish_left [OF r sib u] by blast
  have "fr (nodes (Node c l x r)) s s1" using fr_mono [OF s1(2) _ f(7,1)] by auto
  then have "fr (nodes (Node c l x r)) s ?s" using fr_put(1) [OF f(1,7)] by simp
  moreover have "fr (nodes (Node c l x r)) ?s s2"
    using fr_mono [OF s2(3) _ f(7)] i rep_fields(1) [OF r] by auto
  ultimately show ?thesis using s2 fr_trans by blast
qed

lemma finish_right_sub:
  assumes N: "rep nil s (Node c l x r)" "invh (Node c l x r)" "invc (Node c l x r)"
    and s1: "rep nil s1 r'" "fr (nodes r) s s1" and i: "nodes r' \<subseteq> nodes r" and di: "del_inv r r' bal"
    and u: "u = (if bal then (Node c l x r', True) else balance_right (Node c l x r'))"
  shows "\<exists>s'. (if \<not> bal then mm_delete_right x bal (pr x (root nil r') s1)
      else Some (x, bal, pr x (root nil r') s1)) = Some (root nil (fst u), snd u, s') \<and>
    rep nil s' (fst u) \<and> fr (nodes (Node c l x r)) s s'"
proof -
  note f = rep_fields [OF N(1)]
  let ?s = "pr x (root nil r') s1"
  have "distinct (inorder (Node c l x r'))" "x \<notin> nodes r" "nodes r \<inter> nodes l = {}"
    using f(9) i s1(1) by (auto simp: rep_def)
  then have r: "rep nil ?s (Node c l x r')"
    using rep_link_right [OF N(1) s1] f(7,8) by auto
  have sib: "bal \<or> sib_left (Node c l x r')" using del_inv_sib_left [OF N(2,3)] di by (cases bal) simp_all
  obtain s2 where s2: "(if \<not> bal then mm_delete_right x bal ?s else Some (x, bal, ?s)) = Some (root nil (fst u), snd u, s2)"
    "rep nil s2 (fst u)" "fr (nodes (Node c l x r')) ?s s2"
    using finish_right [OF r sib u] by blast
  have "fr (nodes (Node c l x r)) s s1" using fr_mono [OF s1(2) _ f(7,1)] by auto
  then have "fr (nodes (Node c l x r)) s ?s" using fr_put(2) [OF f(1,7)] by simp
  moreover have "fr (nodes (Node c l x r)) ?s s2"
    using fr_mono [OF s2(3) _ f(7)] i rep_fields(1) [OF r] by auto
  ultimately show ?thesis using s2 fr_trans by blast
qed

lemma mm_delete_min_rep:
  assumes "rep nil s t" "t \<noteq> Leaf" "invh t" "invc t" "del_min t = (m, t', bal)"
  shows "\<exists>s'. mm_delete_node (root nil t) d b True tg s = Some (root nil t', bal, m, s') \<and>
    rep nil s' t' \<and> fr (nodes t) s s'"
  using assms
proof (induction t arbitrary: m t' bal b tg)
  case (Node c l x r)
  note N = Node.prems and f = rep_fields [OF Node.prems(1)]
  show ?case
  proof (cases "l = Leaf")
    case True
    have l: "rep nil s r" "rep nil s Leaf" using rep_sub [OF N(1)] True by simp_all
    note p = rep_paint [OF l(1)] rep_root [OF l(1)] rep_root [OF l(2)]
    have "fr (nodes (Node c l x r)) s (pc (root nil r) False s)"
      using fr_mono [OF conjunct2 [OF p(1)] _ f(7,1)] by auto
    then show ?thesis
      using N(5) p True f(1-4) is_red_now [OF N(1)] is_red_right [OF N(1)]
      by (subst mm_delete_node.simps) (auto simp: get put)
  next
    case False
    have l: "rep nil s l" "invh l" "invc l" using rep_sub [OF N(1)] N(3,4) by auto
    obtain m1 l1 b1 where m1: "del_min l = (m1, l1, b1)" by (metis prod_cases3)
    obtain s1 where s1: "mm_delete_node (root nil l) d b True tg s = Some (root nil l1, b1, m1, s1)"
        "rep nil s1 l1" "fr (nodes l) s s1"
      using Node.IH(1) [OF l(1) False l(2,3) m1] by blast
    have i: "nodes l1 \<subseteq> nodes l" using inorder_del_min [OF False m1] by auto
    obtain s2 where "(if \<not> b1 then mm_delete_left x b1 (pl x (root nil l1) s1)
        else Some (x, b1, pl x (root nil l1) s1)) = Some (root nil t', bal, s2)"
      "rep nil s2 t'" "fr (nodes (Node c l x r)) s s2"
      using finish_left_sub [OF N(1,3,4) s1(2,3) i del_inv_del_min [OF False l(2,3) m1] refl]
        N(5) del_min_node [OF False, of c x r] m1 by (cases b1) auto
    moreover have "m1 = m" using N(5) del_min_node [OF False, of c x r] m1 by simp
    ultimately show ?thesis
      using s1 f(1-4) rep_root [OF l(1)] False fr_ok [OF s1(3)]
      by (subst mm_delete_node.simps) (auto simp: get put split: if_splits)
  qed
qed simp

text \<open>Putting the successor in the place of the deleted node.\<close>

lemma rep_replace:
  assumes N: "rep nil s (Node c l x r)" and s1: "rep nil s1 r'" "fr (nodes r) s s1"
    and i: "inorder r = m # inorder r'"
  defines "s2 \<equiv> pc m c (pr m (root nil r') (pl m (root nil l) (pc m c (pr x (root nil r') s1))))"
  shows "rep nil s2 (Node c l m r')" "fr (nodes (Node c l x r)) s s2"
proof -
  note f = rep_fields [OF N]
  have d: "x \<notin> nodes r" "nodes r \<inter> nodes l = {}" "m \<in> nodes r" "m \<in> N" "m \<noteq> x" "m \<notin> nodes l" "m \<notin> nodes r'"
    using f(7,9) i by auto
  have l: "rep nil s1 l" using rep_sub [OF N] rep_frame [OF _ s1(2)] f(7,8) d(2) by auto
  have "\<not> n_null (V s1 m)"
    using fr_same(2) [OF f(1) _ s1(2) d(4)] f(7) tree_at_null [of "V s" nil r m] N d(3) by (auto simp: rep_def)
  moreover have "V s1 x = V s x" using fr_view [OF f(1) _ s1(2) f(2) d(1)] f(7) by simp
  moreover have "distinct (inorder l @ m # inorder r')" "nil \<noteq> m" "nil \<noteq> x" "x \<notin> nodes r'" "x \<notin> nodes l"
    using f(8,9) i d by auto
  ultimately show "rep nil s2 (Node c l m r')"
    using l s1(1) d(4-7) f(2-5) unfolding s2_def
    by (simp add: fields del: distinct_append) (elim conjE, simp add: exec del: distinct_append)
  have "fr (nodes (Node c l x r)) s s1" using fr_mono [OF s1(2) _ f(7,1)] by auto
  then show "fr (nodes (Node c l x r)) s s2" using d(3) unfolding s2_def by (intro fr_put [OF f(1,7)]) simp_all
qed

lemma mm_delete_node_rep:
  assumes "rep nil s t" "d \<in> nodes t" "ordered (sizes (V s)) t" "invh t" "invc t"
    "del (sizes (V s)) d t = (t', bal)"
  shows "\<exists>s' tg'. mm_delete_node (root nil t) d b False tg s = Some (root nil t', bal, tg', s') \<and>
    rep nil s' t' \<and> fr (nodes t) s s'"
  using assms
proof (induction t arbitrary: t' bal b tg)
  case (Node c l x r)
  note N = Node.prems and f = rep_fields [OF Node.prems(1)]
  have o: "ordered (sizes (V s)) l" "ordered (sizes (V s)) r" using N(3) by (auto simp: ordered_node)
  have i: "invh l" "invh r" "invc l" "invc r" using N(4,5) by auto
  have l: "rep nil s l" "rep nil s r" using rep_sub [OF N(1)] by simp_all
  consider "d = x" "r = Leaf" | "d = x" "r \<noteq> Leaf"
    | "d \<noteq> x" "cmp (sizes (V s)) d x" "d \<in> nodes l"
    | "d \<noteq> x" "\<not> cmp (sizes (V s)) d x" "d \<in> nodes r"
    using ordered_find [OF N(3,2)] by blast
  then show ?case
  proof cases
    case 1
    note p = rep_paint [OF l(1)] rep_root [OF l(1)] rep_root [OF l(2)]
    have "fr (nodes (Node c l x r)) s (pc (root nil l) False s)"
      using fr_mono [OF conjunct2 [OF p(1)] _ f(7,1)] by auto
    then show ?thesis
      using N(6) p 1 f(1-4) is_red_now [OF N(1)] is_red_left [OF N(1)]
      by (subst mm_delete_node.simps) (auto simp: get put)
  next
    case 2
    obtain m r1 b1 where m: "del_min r = (m, r1, b1)" by (metis prod_cases3)
    obtain s1 where s1: "mm_delete_node (root nil r) d b True NULL s = Some (root nil r1, b1, m, s1)"
        "rep nil s1 r1" "fr (nodes r) s s1"
      using mm_delete_min_rep [OF l(2) 2(2) i(2,4) m] by blast
    have n: "inorder r = m # inorder r1" using inorder_del_min [OF 2(2) m] .
    let ?s = "pc m c (pr m (root nil r1) (pl m (root nil l) (pc m c (pr x (root nil r1) s1))))"
    note R = rep_replace [OF N(1) s1(2,3) n]
    have sib: "b1 \<or> sib_left (Node c l m r1)"
      using del_inv_sib_left [OF N(4,5)] del_inv_del_min [OF 2(2) i(2,4) m] by (cases b1) simp_all
    obtain s2 where s2: "(if \<not> b1 then mm_delete_right m b1 ?s else Some (m, b1, ?s)) = Some (root nil t', bal, s2)"
      "rep nil s2 t'" "fr (nodes (Node c l m r1)) ?s s2"
      using finish_right [OF R(1) sib refl] N(6) 2 m by (cases b1) auto
    have "fr (nodes (Node c l x r)) s s2"
      using fr_trans [OF R(2) fr_mono [OF s2(3) _ f(7)]] n rep_fields(1) [OF R(1)] by auto
    moreover have "m \<noteq> x" "m \<in> N" "m \<noteq> root nil l \<or> l = Leaf" "x \<notin> nodes r" using f(7,9) n by auto
    moreover have "V s1 x = V s x" using fr_view [OF f(1) _ s1(3) f(2)] f(7,9) by auto
    ultimately show ?thesis
      using s1 s2(1,2) 2 f(1-5) rep_root [OF l(2)] fr_ok [OF s1(3)]
      by (subst mm_delete_node.simps) (auto simp: get put ok_put view_put split: if_splits)
  next
    case 3
    obtain l1 b1 where l1: "del (sizes (V s)) d l = (l1, b1)" by force
    obtain s1 tg1 where s1: "mm_delete_node (root nil l) d b False NULL s = Some (root nil l1, b1, tg1, s1)"
        "rep nil s1 l1" "fr (nodes l) s s1"
      using Node.IH(1) [OF l(1) 3(3) o(1) i(1,3) l1] by blast
    have n: "nodes l1 \<subseteq> nodes l"
      using inorder_del [OF 3(3) o(1)] l1 by (simp add: set_remove1_subset)
    obtain s2 where "(if \<not> b1 then mm_delete_left x b1 (pl x (root nil l1) s1)
        else Some (x, b1, pl x (root nil l1) s1)) = Some (root nil t', bal, s2)"
      "rep nil s2 t'" "fr (nodes (Node c l x r)) s s2"
      using finish_left_sub [OF N(1,4,5) s1(2,3) n del_inv_del [OF 3(3) o(1) i(1,3) l1] refl]
        N(6) 3 l1 by (cases b1) auto
    then show ?thesis
      using s1 f(1-4) 3(1,2) subsetD [OF f(7) N(2)] fr_ok [OF s1(3)]
      by (subst mm_delete_node.simps) (auto simp: get put cmp_node split: if_splits)
  next
    case 4
    obtain r1 b1 where r1: "del (sizes (V s)) d r = (r1, b1)" by force
    obtain s1 tg1 where s1: "mm_delete_node (root nil r) d b False NULL s = Some (root nil r1, b1, tg1, s1)"
        "rep nil s1 r1" "fr (nodes r) s s1"
      using Node.IH(2) [OF l(2) 4(3) o(2) i(2,4) r1] by blast
    have n: "nodes r1 \<subseteq> nodes r"
      using inorder_del [OF 4(3) o(2)] r1 by (simp add: set_remove1_subset)
    obtain s2 where "(if \<not> b1 then mm_delete_right x b1 (pr x (root nil r1) s1)
        else Some (x, b1, pr x (root nil r1) s1)) = Some (root nil t', bal, s2)"
      "rep nil s2 t'" "fr (nodes (Node c l x r)) s s2"
      using finish_right_sub [OF N(1,4,5) s1(2,3) n del_inv_del [OF 4(3) o(2) i(2,4) r1] refl]
        N(6) 4 r1 by (cases b1) auto
    then show ?thesis
      using s1 f(1-4) 4(1,2) subsetD [OF f(7) N(2)] fr_ok [OF s1(3)]
      by (subst mm_delete_node.simps) (auto simp: get put cmp_node split: if_splits)
  qed
qed simp

end

end
