(* ===== verification/FreeTree.thy ===== *)
theory FreeTree
  imports TreePtr
begin

text \<open>
  The free segments as the rest of the allocator sees them: a set of addresses kept in the
  heap, of which \<open>mm_search\<close> returns the best fit and to which \<open>mm_insert\<close> and
  \<open>mm_delete\<close> add and remove a node. \<open>free_set\<close> is the representation invariant (a
  red-black tree in key order, hanging from the root word at the bottom of the heap, with the
  sentinel behind it); \<open>tree_frame\<close> bounds what the operations write. The locale
  \<open>free_store\<close> is the contract the allocator uses.
\<close>

definition tree_frame :: "ptr set \<Rightarrow> heap \<Rightarrow> heap \<Rightarrow> bool" where
  "tree_frame P s s' \<longleftrightarrow> same_bounds s s' \<and>
     (\<forall>a. (a < unat (mem_start_brk s) \<or> unat (mem_start_brk s) + 4 \<le> a) \<and>
        (\<forall>p\<in>P. a < unat p + 4 \<or> unat p + 16 \<le> a) \<longrightarrow> mem_bytes s' a = mem_bytes s a) \<and>
     (\<forall>p\<in>P. n_size (node_at s' p) = n_size (node_at s p) \<and>
        n_alloc (node_at s' p) = n_alloc (node_at s p) \<and> n_null (node_at s' p) = n_null (node_at s p))"

definition above_root :: "ptr set \<Rightarrow> heap \<Rightarrow> bool" where
  "above_root N s \<longleftrightarrow> (\<forall>p\<in>N. unat (mem_start_brk s) + 4 \<le> unat p) \<and> mem_ok s (unat (mem_start_brk s)) 4"

definition root_word :: "heap \<Rightarrow> ptr" where
  "root_word s = rd32 (mem_bytes s) (unat (mem_start_brk s))"

definition put_root :: "ptr \<Rightarrow> heap \<Rightarrow> heap" where
  "put_root v s = s\<lparr>mem_bytes := wr32 (mem_bytes s) (unat (mem_start_brk s)) v\<rparr>"

definition tree_in :: "ptr set \<Rightarrow> heap \<Rightarrow> tree \<Rightarrow> bool" where
  "tree_in N s t \<longleftrightarrow> ns.rep N (data_null s) s t \<and> above_root N s \<and> root_word s = root (data_null s) t"

definition free_set :: "heap \<Rightarrow> ptr set \<Rightarrow> bool" where
  "free_set s F \<longleftrightarrow> (\<exists>t. nodes t = F \<and> rb_inv t \<and> ordered (sizes (node_at s)) t \<and>
     tree_in (insert (data_null s) F) s t)"

lemma same_bounds_data_null: "same_bounds s s' \<Longrightarrow> data_null s' = data_null s"
  by (simp add: same_bounds_def data_null_def mem_heap_lo_def)

lemma same_bounds_above: "same_bounds s s' \<Longrightarrow> above_root N s' = above_root N s"
  by (simp add: above_root_def same_bounds_def mem_ok_def)

lemma frame_tree_frame: "frame P s s' \<Longrightarrow> tree_frame P s s'"
  by (simp add: frame_def tree_frame_def)

lemma tree_frame_trans: "tree_frame P s s' \<Longrightarrow> tree_frame P s' s'' \<Longrightarrow> tree_frame P s s''"
  by (simp add: tree_frame_def same_bounds_def)

lemma tree_frame_node:
  assumes "tree_frame P s s'" "apart N" "above_root N s" "P \<subseteq> N" "x \<in> N" "x \<notin> P"
  shows "node_at s' x = node_at s x"
proof (rule node_at_cong)
  fix i :: nat assume i: "i < 16"
  have "unat x + i < unat p + 4 \<or> unat p + 16 \<le> unat x + i" if "p \<in> P" for p
  proof -
    have "p \<in> N" "p \<noteq> x" using that assms(4,6) by auto
    then show ?thesis using assms(2,5) i by (fastforce simp: apart_def)
  qed
  then show "mem_bytes s' (unat x + i) = mem_bytes s (unat x + i)"
    using assms(1,3,5) by (simp add: tree_frame_def above_root_def trans_le_add1)
qed

lemma tree_frame_mono:
  assumes "tree_frame P s s'" "P \<subseteq> Q" "Q \<subseteq> N" "apart N" "above_root N s"
  shows "tree_frame Q s s'"
proof -
  have "n_size (node_at s' p) = n_size (node_at s p) \<and> n_alloc (node_at s' p) = n_alloc (node_at s p)
      \<and> n_null (node_at s' p) = n_null (node_at s p)" if "p \<in> Q" for p
  proof (cases "p \<in> P")
    case False
    have "P \<subseteq> N" "p \<in> N" using assms(2,3) that by auto
    then show ?thesis using tree_frame_node [OF assms(1,4,5) _ _ False] by simp
  qed (use assms(1) in \<open>simp add: tree_frame_def\<close>)
  moreover have "mem_bytes s' a = mem_bytes s a"
    if "a < unat (mem_start_brk s) \<or> unat (mem_start_brk s) + 4 \<le> a" "\<forall>p\<in>Q. a < unat p + 4 \<or> unat p + 16 \<le> a" for a
    using that assms(1,2) by (simp add: tree_frame_def subset_iff)
  ultimately show ?thesis using assms(1) by (simp add: tree_frame_def)
qed

lemma put_root_bounds [simp]: "same_bounds s (put_root v s') = same_bounds s s'"
  by (simp add: put_root_def same_bounds_def)

lemma node_put_root: "above_root N s \<Longrightarrow> p \<in> N \<Longrightarrow> node_at (put_root v s) p = node_at s p"
  by (auto simp: node_at_def put_root_def above_root_def Let_def rd32_wr32_other)

lemma put_root_tree_frame:
  assumes "above_root P s"
  shows "tree_frame P s (put_root v s)"
  using assms node_put_root [OF assms]
  by (simp add: tree_frame_def) (auto simp: put_root_def above_root_def wr32_other)

lemma root_word_put [simp]: "root_word (put_root v s) = v"
  by (simp add: root_word_def put_root_def)

lemma get_root_word: "above_root N s \<Longrightarrow> get_root s = Some (root_word s)"
  by (simp add: get_root_def root_word_def above_root_def load32_def mem_heap_lo_def)

lemma set_root_put: "above_root N s \<Longrightarrow> set_root v s = Some (put_root v s)"
  by (simp add: set_root_def put_root_def above_root_def store32_def mem_heap_lo_def)

lemma frame_root_word:
  assumes "frame P s s'" "P \<subseteq> N" "above_root N s"
  shows "root_word s' = root_word s"
proof -
  have "mem_bytes s' i = mem_bytes s i" if "i < unat (mem_start_brk s) + 4" for i
  proof -
    have "i < unat p + 4" if "p \<in> P" for p
    proof -
      have "unat (mem_start_brk s) + 4 \<le> unat p" using assms(2,3) that by (auto simp: above_root_def)
      then show ?thesis using \<open>i < _\<close> by linarith
    qed
    then show ?thesis using assms(1) by (simp add: frame_def)
  qed
  then show ?thesis
    using assms(1) by (auto simp: root_word_def frame_def same_bounds_def intro!: rd32_cong)
qed

text \<open>The last two assignments of \<open>mm_insert\<close> and \<open>mm_delete\<close>: the root word and its colour.\<close>

definition set_new_root :: "ptr \<Rightarrow> heap \<Rightarrow> heap option" where
  "set_new_root r s = do { s \<leftarrow> set_root r s; r \<leftarrow> get_root s; set_color r MM_COLOR_BLACK s }"

lemma set_new_root_rep:
  assumes t: "ns.rep N (data_null s) s t" and a: "above_root N s"
  shows "\<exists>s'. set_new_root (root (data_null s) t) s = Some s' \<and> tree_in N s' (paint MM_COLOR_BLACK t) \<and>
    tree_frame (nodes t) s s'"
proof -
  let ?nil = "data_null s" and ?s = "put_root (root (data_null s) t) s"
  have N: "nodes t \<subseteq> N" "region N s" using t by (simp_all add: ns.rep_def)
  have r: "region N ?s" using N(2) by (simp add: region_def node_ok_def mem_ok_def put_root_def)
  have n: "?nil \<in> N" using t by (simp add: ns.rep_def ns.is_nil_def)
  have "tree_at (node_at ?s) ?nil t = tree_at (node_at s) ?nil t"
    using N(1) node_put_root [OF a] by (intro tree_at_cong) auto
  then have t': "ns.rep N ?nil ?s t"
    using t r n node_put_root [OF a] by (simp add: ns.rep_def ns.is_nil_def)
  note p = ns.rep_paint [OF t']
  let ?s' = "put_color (root ?nil t) False ?s"
  have b: "same_bounds ?s ?s'" using p by (simp add: frame_def)
  have a': "above_root N ?s" using a same_bounds_above [of s ?s N] by simp
  have d: "data_null ?s = ?nil" "data_null ?s' = ?nil"
    using same_bounds_data_null [OF b] same_bounds_data_null [of s ?s] by simp_all
  have "set_new_root (root ?nil t) s = Some ?s'"
    using ns.put(3) [OF r, of "root ?nil t" False] ns.rep_root [OF t']
    by (simp add: set_new_root_def set_root_put [OF a] get_root_word [OF a'])
  moreover have "tree_in N ?s' (paint False t)"
    using p same_bounds_above [OF b, of N] a' frame_root_word [OF conjunct2 [OF p] N(1) a']
    by (simp add: tree_in_def d)
  moreover have "tree_frame (nodes t) s ?s'"
    using tree_frame_trans [OF put_root_tree_frame frame_tree_frame [OF conjunct2 [OF p]]] a N(1)
    by (auto simp: above_root_def)
  ultimately show ?thesis by blast
qed

lemma mm_insert_eq: "mm_insert new s = do {
     root \<leftarrow> get_root s;
     (root', s) \<leftarrow> mm_insert_node root new s;
     set_new_root root' s }"
  by (simp add: mm_insert_def set_new_root_def)

lemma mm_delete_eq: "mm_delete d b s = do {
     root \<leftarrow> get_root s;
     (root', _, _, s) \<leftarrow> mm_delete_node root d b False NULL s;
     set_new_root root' s }"
  by (simp add: mm_delete_def set_new_root_def)

lemma mm_insert_tree:
  assumes t: "tree_in N s t" and new: "new \<in> N" "new \<notin> nodes t" "new \<noteq> data_null s" "\<not> n_null (node_at s new)"
  shows "\<exists>s'. mm_insert new s = Some s' \<and> tree_in N s' (insert_root (sizes (node_at s)) new t) \<and>
    tree_frame (insert new (nodes t)) s s'"
proof -
  let ?nil = "data_null s" and ?t = "ins (sizes (node_at s)) new t"
  have r: "ns.rep N ?nil s t" "above_root N s" "root_word s = root ?nil t" using t by (simp_all add: tree_in_def)
  obtain s1 where s1: "mm_insert_node (root ?nil t) new s = Some (root ?nil ?t, s1)" "ns.rep N ?nil s1 ?t"
      "frame (insert new (nodes t)) s s1"
    using ns.mm_insert_node_rep [OF r(1) new] by blast
  have b: "same_bounds s s1" using s1(3) by (simp add: frame_def)
  then obtain s2 where s2: "set_new_root (root ?nil ?t) s1 = Some s2"
      "tree_in N s2 (paint False ?t)" "tree_frame (nodes ?t) s1 s2"
    using set_new_root_rep [of N s1 ?t] s1(2) r(2) same_bounds_data_null same_bounds_above by metis
  have "tree_frame (insert new (nodes t)) s s2"
    using tree_frame_trans [OF frame_tree_frame [OF s1(3)]] s2(3) by simp
  then show ?thesis using s1(1) s2(1,2) r by (simp add: mm_insert_eq get_root_word insert_root_def)
qed

lemma mm_delete_tree:
  assumes t: "tree_in N s t" "d \<in> nodes t" "ordered (sizes (node_at s)) t" "rb_inv t"
  shows "\<exists>s'. mm_delete d b s = Some s' \<and> tree_in N s' (delete_root (sizes (node_at s)) d t) \<and>
    tree_frame (nodes t) s s'"
proof -
  let ?nil = "data_null s"
  obtain u bal where u: "del (sizes (node_at s)) d t = (u, bal)" by force
  have r: "ns.rep N ?nil s t" "above_root N s" "root_word s = root ?nil t" using t by (simp_all add: tree_in_def)
  have i: "invh t" "invc t" using t(4) by (simp_all add: rb_inv_def)
  have N: "nodes t \<subseteq> N" "region N s" "apart N" using r(1) by (simp_all add: ns.rep_def region_def)
  obtain s1 tg where s1: "mm_delete_node (root ?nil t) d b False NULL s = Some (root ?nil u, bal, tg, s1)"
      "ns.rep N ?nil s1 u" "frame (nodes t) s s1"
    using ns.mm_delete_node_rep [OF r(1) t(2,3) i u] by blast
  have b: "same_bounds s s1" using s1(3) by (simp add: frame_def)
  then obtain s2 where s2: "set_new_root (root ?nil u) s1 = Some s2"
      "tree_in N s2 (paint False u)" "tree_frame (nodes u) s1 s2"
    using set_new_root_rep [of N s1 u] s1(2) r(2) same_bounds_data_null same_bounds_above by metis
  have n: "nodes u \<subseteq> nodes t"
    using inorder_del [OF t(2,3)] u by (simp add: set_remove1_subset)
  have "tree_frame (nodes t) s1 s2" using tree_frame_mono [OF s2(3) n N(1,3)] r(2) b same_bounds_above by blast
  then have "tree_frame (nodes t) s s2"
    using tree_frame_trans [OF frame_tree_frame [OF s1(3)]] by simp
  then show ?thesis using s1(1) s2(1,2) r u by (simp add: mm_delete_eq get_root_word delete_root_def)
qed

subsection \<open>The free store\<close>

definition addable :: "heap \<Rightarrow> ptr set \<Rightarrow> ptr \<Rightarrow> bool" where
  "addable s F new \<longleftrightarrow> new \<notin> insert (data_null s) F \<and> node_ok s new \<and> apart (insert new (insert (data_null s) F)) \<and>
     unat (mem_start_brk s) + 4 \<le> unat new \<and> \<not> n_null (node_at s new)"

text \<open>Two heaps that agree on the words the tree over \<open>F\<close> consists of.\<close>

definition tree_same :: "ptr set \<Rightarrow> heap \<Rightarrow> heap \<Rightarrow> bool" where
  "tree_same F s s' \<longleftrightarrow> mem_start_brk s' = mem_start_brk s \<and> mem_max_addr s' = mem_max_addr s \<and>
     (\<forall>a. unat (mem_start_brk s) \<le> a \<and> a < unat (mem_start_brk s) + 4 \<longrightarrow> mem_bytes s' a = mem_bytes s a) \<and>
     (\<forall>p\<in>insert (data_null s) F. \<forall>a. unat p + 4 \<le> a \<and> a < unat p + 16 \<longrightarrow> mem_bytes s' a = mem_bytes s a)"

text \<open>The best fit for \<open>n\<close> units among \<open>F\<close>: the least address among the least fitting sizes.\<close>

definition best_fit :: "(ptr \<Rightarrow> c_uint) \<Rightarrow> ptr set \<Rightarrow> c_uint \<Rightarrow> ptr \<Rightarrow> bool" where
  "best_fit sz F n p \<longleftrightarrow> (if p = NULL then \<forall>q\<in>F. sz q < n
     else p \<in> F \<and> n \<le> sz p \<and> (\<forall>q\<in>F. n \<le> sz q \<longrightarrow> q = p \<or> cmp sz p q))"

locale free_store =
  fixes fs :: "heap \<Rightarrow> ptr set \<Rightarrow> bool"
  assumes search: "fs s F \<Longrightarrow> \<exists>p. mm_search n s = Some p \<and> best_fit (sizes (node_at s)) F n p"
    and insert: "fs s F \<Longrightarrow> addable s F new \<Longrightarrow>
      \<exists>s'. mm_insert new s = Some s' \<and> fs s' (insert new F) \<and> tree_frame (insert new F) s s'"
    and delete: "fs s F \<Longrightarrow> d \<in> F \<Longrightarrow>
      \<exists>s'. mm_delete d ub s = Some s' \<and> fs s' (F - {d}) \<and> tree_frame F s s'"
    and stable: "fs s F \<Longrightarrow> tree_same F s s' \<Longrightarrow> fs s' F"

lemma free_set_tree:
  assumes "free_set s F"
  obtains t where "nodes t = F" "rb_inv t" "ordered (sizes (node_at s)) t" "tree_in (insert (data_null s) F) s t"
  using assms by (auto simp: free_set_def)

lemma NULL_above: "above_root N s \<Longrightarrow> NULL \<notin> N"
  by (auto simp: above_root_def NULL_def)

lemma free_set_search:
  assumes "free_set s F"
  shows "\<exists>p. mm_search n s = Some p \<and> best_fit (sizes (node_at s)) F n p"
proof -
  obtain t where t: "nodes t = F" "rb_inv t" "ordered (sizes (node_at s)) t"
    "tree_in (insert (data_null s) F) s t" using assms by (rule free_set_tree)
  have r: "ns.rep (insert (data_null s) F) (data_null s) s t" "above_root (insert (data_null s) F) s"
    "root_word s = root (data_null s) t" using t(4) by (simp_all add: tree_in_def)
  note n = NULL_above [OF r(2)]
  let ?r = "search (sizes (node_at s)) n t"
  have "mm_search n s = Some (case ?r of None \<Rightarrow> NULL | Some p \<Rightarrow> p)"
    using ns.mm_search_node_rep [OF r(1) n] r(3) by (simp add: mm_search_def get_root_word [OF r(2)])
  moreover have "best_fit (sizes (node_at s)) F n (case ?r of None \<Rightarrow> NULL | Some p \<Rightarrow> p)"
  proof (cases ?r)
    case None
    then show ?thesis using search_none [OF t(3), of n] t(1) by (simp add: best_fit_def)
  next
    case (Some p)
    then show ?thesis using search_some [OF t(3) Some] t(1) n by (auto simp: best_fit_def)
  qed
  ultimately show ?thesis by blast
qed

lemma tree_in_mono:
  assumes "tree_in N s t" "nodes t \<subseteq> N'" "data_null s \<in> N'" "N' \<subseteq> N"
  shows "tree_in N' s t"
  using assms apart_mono [OF _ assms(4)]
  by (auto simp: tree_in_def above_root_def ns.rep_def ns.is_nil_def region_def)

lemma tree_frame_sizes:
  "tree_frame P s s' \<Longrightarrow> x \<in> P \<Longrightarrow> sizes (node_at s') x = sizes (node_at s) x"
  by (simp add: tree_frame_def sizes_def)

lemma free_set_insert:
  assumes "free_set s F" "addable s F new"
  shows "\<exists>s'. mm_insert new s = Some s' \<and> free_set s' (insert new F) \<and> tree_frame (insert new F) s s'"
proof -
  let ?N = "insert (data_null s) F"
  obtain t where t: "nodes t = F" "rb_inv t" "ordered (sizes (node_at s)) t" "tree_in ?N s t"
    using assms(1) by (rule free_set_tree)
  have "tree_in (insert new ?N) s t"
    using t(4) assms(2) by (auto simp: tree_in_def ns.rep_def ns.is_nil_def region_def addable_def above_root_def)
  then obtain s' where s': "mm_insert new s = Some s'"
      "tree_in (insert new ?N) s' (insert_root (sizes (node_at s)) new t)" "tree_frame (insert new F) s s'"
    using mm_insert_tree [of "insert new ?N" s t new] assms(2) t(1) by (auto simp: addable_def)
  have nil: "data_null s' = data_null s" using s'(3) by (simp add: tree_frame_def same_bounds_data_null)
  let ?t = "insert_root (sizes (node_at s)) new t"
  have n: "nodes ?t = insert new F" using t(1) by (simp add: insert_root_def)
  have "ordered (sizes (node_at s)) ?t"
    using ordered_ins [OF t(3)] assms(2) t(1) by (simp add: insert_root_def ordered_def addable_def)
  then have "ordered (sizes (node_at s')) ?t"
    using tree_frame_sizes [OF s'(3)] n ordered_cong [of ?t "sizes (node_at s')" "sizes (node_at s)"] by simp
  then have "free_set s' (insert new F)"
    unfolding free_set_def using n rb_inv_insert [OF t(2)] s'(2) nil by (auto simp: insert_commute)
  then show ?thesis using s' by blast
qed

lemma free_set_delete:
  assumes "free_set s F" "d \<in> F"
  shows "\<exists>s'. mm_delete d ub s = Some s' \<and> free_set s' (F - {d}) \<and> tree_frame F s s'"
proof -
  let ?N = "insert (data_null s) F"
  obtain t where t: "nodes t = F" "rb_inv t" "ordered (sizes (node_at s)) t" "tree_in ?N s t"
    using assms(1) by (rule free_set_tree)
  let ?t = "delete_root (sizes (node_at s)) d t"
  have d: "d \<in> nodes t" using t(1) assms(2) by simp
  obtain s' where s': "mm_delete d ub s = Some s'" "tree_in ?N s' ?t" "tree_frame F s s'"
    using mm_delete_tree [OF t(4) d t(3,2)] t(1) by blast
  have nil: "data_null s' = data_null s" using s'(3) by (simp add: tree_frame_def same_bounds_data_null)
  have i: "inorder ?t = remove1 d (inorder t)" using inorder_del [OF d t(3)] by (simp add: delete_root_def)
  have n: "nodes ?t = F - {d}"
    using t(1) sorted_distinct [of "sizes (node_at s)" "inorder t"] t(3) by (simp add: i ordered_def)
  have "ordered (sizes (node_at s)) ?t"
    using t(3) sorted_wrt_remove1 [of "cmp (sizes (node_at s))"] by (simp add: ordered_def i)
  then have o: "ordered (sizes (node_at s')) ?t"
    using tree_frame_sizes [OF s'(3)] n ordered_cong [of ?t "sizes (node_at s')" "sizes (node_at s)"] by simp
  have "tree_in (insert (data_null s') (F - {d})) s' ?t"
    using tree_in_mono [OF s'(2)] n nil by auto
  then have "free_set s' (F - {d})"
    unfolding free_set_def using n rb_inv_delete [OF d t(3,2)] o by blast
  then show ?thesis using s' by blast
qed

lemma free_set_stable:
  assumes "free_set s F" "tree_same F s s'"
  shows "free_set s' F"
proof -
  let ?N = "insert (data_null s) F"
  obtain t where t: "nodes t = F" "rb_inv t" "ordered (sizes (node_at s)) t" "tree_in ?N s t"
    using assms(1) by (rule free_set_tree)
  have b: "mem_start_brk s' = mem_start_brk s" "mem_max_addr s' = mem_max_addr s"
    using assms(2) by (simp_all add: tree_same_def)
  have nil: "data_null s' = data_null s" using b by (simp add: data_null_def mem_heap_lo_def)
  have w: "rd32 (mem_bytes s') (unat p + j) = rd32 (mem_bytes s) (unat p + j)"
    if "p \<in> ?N" "j \<in> {4, 8, 12}" for p j
    using assms(2) that by (intro rd32_cong) (auto simp: tree_same_def)
  have v: "n_left (node_at s' p) = n_left (node_at s p) \<and> n_right (node_at s' p) = n_right (node_at s p) \<and>
      n_color (node_at s' p) = n_color (node_at s p) \<and> n_null (node_at s' p) = n_null (node_at s p) \<and>
      n_size (node_at s' p) = n_size (node_at s p)" if "p \<in> ?N" for p
    using w [OF that] by (simp add: node_at_sel)
  have "root_word s' = root_word s"
    using assms(2) b unfolding root_word_def by (auto simp: tree_same_def intro!: rd32_cong)
  moreover have "tree_at (node_at s') (data_null s) t = tree_at (node_at s) (data_null s) t"
    using v t(1) by (intro tree_at_fields_cong) auto
  ultimately have "tree_in ?N s' t"
    using t(4) b v by (simp add: tree_in_def nil above_root_def ns.rep_def ns.is_nil_def region_def
        node_ok_def mem_ok_def)
  moreover have "ordered (sizes (node_at s')) t"
    using t(3) ordered_cong [of t "sizes (node_at s')" "sizes (node_at s)"] v t(1) by (simp add: sizes_def)
  ultimately show ?thesis using t(1,2) nil by (auto simp: free_set_def)
qed

interpretation ft: free_store free_set
  by unfold_locales (fact free_set_search free_set_insert free_set_delete free_set_stable)+

end
