(* ===== verification/Mm.thy ===== *)
theory Mm
  imports RBPtr
begin

text \<open>
  The allocator of \<open>malloclab-handout/mm.c\<close>: segments laid out one after the other, each
  with its size and a link back to the segment before it, over the tree of free segments.
  As in the theories below, a function takes the heap last and \<open>None\<close> is a fault. \<open>ub\<close> is
  the value found in the uninitialised variable \<open>balance\<close> of \<open>mm_delete\<close>. What the program
  prints is left out.
\<close>

subsection \<open>Byte loops\<close>

primrec memset_loop :: "nat \<Rightarrow> byte \<Rightarrow> nat \<Rightarrow> heap \<Rightarrow> heap option" where
  "memset_loop a c 0 s = Some s"
| "memset_loop a c (Suc k) s = do { s \<leftarrow> store8 a c s; memset_loop (a + 1) c k s }"

definition mm_memset :: "ptr \<Rightarrow> c_int \<Rightarrow> c_uint \<Rightarrow> heap \<Rightarrow> (ptr \<times> heap) option" where
  "mm_memset b c len s = do { s \<leftarrow> memset_loop (unat b) (ucast c) (unat len) s; Some (b, s) }"

primrec memcpy_loop :: "nat \<Rightarrow> nat \<Rightarrow> nat \<Rightarrow> heap \<Rightarrow> heap option" where
  "memcpy_loop dst src 0 s = Some s"
| "memcpy_loop dst src (Suc k) s = do {
     v \<leftarrow> load8 src s;
     s \<leftarrow> store8 dst v s;
     memcpy_loop (dst + 1) (src + 1) k s }"

definition mm_memcpy :: "ptr \<Rightarrow> ptr \<Rightarrow> c_uint \<Rightarrow> heap \<Rightarrow> (ptr \<times> heap) option" where
  "mm_memcpy dst src n s = do { s \<leftarrow> memcpy_loop (unat dst) (unat src) (unat n) s; Some (dst, s) }"

subsection \<open>Segments\<close>

definition mm_get_prev :: "ptr \<Rightarrow> heap \<Rightarrow> ptr option" where
  "mm_get_prev p s = get_prev p s"

definition mm_get_next :: "ptr \<Rightarrow> heap \<Rightarrow> ptr option" where
  "mm_get_next p s = do { n \<leftarrow> get_size p s; Some (p + push_bit MM_ALIGN n) }"

definition mm_clear_header :: "ptr \<Rightarrow> heap \<Rightarrow> heap option" where
  "mm_clear_header p s = do { (_, s) \<leftarrow> mm_memset p 0 MM_HEADER_SIZE s; Some s }"

definition mm_frag_node :: "ptr \<Rightarrow> c_uint \<Rightarrow> heap \<Rightarrow> (ptr \<times> heap) option" where
  "mm_frag_node now sz s = do {
     nsize \<leftarrow> get_size now s;
     if nsize < sz + drop_bit MM_ALIGN MM_NODE_SIZE
     then do {
       next \<leftarrow> mm_get_next now s;
       s \<leftarrow> set_prev next now s;
       Some (now, s) }
     else do {
       let tsize = nsize - sz;
       s \<leftarrow> set_size now sz s;
       next \<leftarrow> mm_get_next now s;
       s \<leftarrow> mm_clear_header next s;
       s \<leftarrow> set_size next tsize s;
       s \<leftarrow> set_prev next now s;
       nnext \<leftarrow> mm_get_next next s;
       s \<leftarrow> set_prev nnext next s;
       s \<leftarrow> set_alloc next MM_ALLOC_FREE s;
       s \<leftarrow> mm_insert next s;
       Some (now, s) } }"

definition mm_sbrk :: "c_uint \<Rightarrow> heap \<Rightarrow> (ptr \<times> heap) option" where
  "mm_sbrk sz s =
     (if sz < MM_UNIT
      then do {
        let (brk, s) = mem_sbrk MM_UNIT s;
        let p = brk - MM_HEADER_SIZE;
        s \<leftarrow> set_size p (drop_bit MM_ALIGN MM_UNIT) s;
        s \<leftarrow> mm_clear_header (p + MM_UNIT) s;
        s \<leftarrow> set_alloc p MM_ALLOC_ALLOC s;
        mm_frag_node p (drop_bit MM_ALIGN (sz + MM_HEADER_SIZE)) s }
      else do {
        let (brk, s) = mem_sbrk sz s;
        let p = brk - MM_HEADER_SIZE;
        s \<leftarrow> set_size p (drop_bit MM_ALIGN sz) s;
        s \<leftarrow> mm_clear_header (p + sz) s;
        s \<leftarrow> set_alloc p MM_ALLOC_ALLOC s;
        next \<leftarrow> mm_get_next p s;
        s \<leftarrow> set_prev next p s;
        Some (p, s) })"

subsection \<open>The heap checker\<close>

text \<open>The checkers return the truth value the source returns as 0 or 1; \<open>cnt\<close> is the counter.\<close>

partial_function (option) mm_check_node :: "ptr \<Rightarrow> c_int \<Rightarrow> heap \<Rightarrow> (bool \<times> c_int) option" where
  "mm_check_node now cnt s = do {
     nul \<leftarrow> get_null now s;
     if nul = MM_NULL_NULL then Some (True, cnt)
     else do {
       let cnt = cnt + 1;
       l \<leftarrow> get_left now s;
       lnul \<leftarrow> get_null l s;
       bad \<leftarrow> (if lnul = MM_NULL_NOTNULL then mm_cmp_node now l s else Some False);
       if bad then Some (False, cnt)
       else do {
         r \<leftarrow> get_right now s;
         rnul \<leftarrow> get_null r s;
         bad \<leftarrow> (if rnul = MM_NULL_NOTNULL then mm_cmp_node r now s else Some False);
         if bad then Some (False, cnt)
         else do {
           bad \<leftarrow> c_and (is_red (Some now) s)
             (do { lr \<leftarrow> is_red (Some l) s; if lr then Some True else is_red (Some r) s });
           if bad then Some (False, cnt)
           else do {
             (b1, cnt) \<leftarrow> mm_check_node l cnt s;
             (b2, cnt) \<leftarrow> mm_check_node r cnt s;
             Some (b1 \<and> b2, cnt) } } } } }"

text \<open>The loop of \<open>mm_check\<close> over the segments: the number of free ones, or that a link is broken.\<close>

partial_function (option) mm_check_list :: "ptr \<Rightarrow> c_int \<Rightarrow> heap \<Rightarrow> (bool \<times> c_int) option" where
  "mm_check_list now nfree s = do {
     n \<leftarrow> get_size now s;
     if n = 0 then Some (True, nfree)
     else do {
       next \<leftarrow> mm_get_next now s;
       pv \<leftarrow> get_prev next s;
       if pv \<noteq> now then Some (False, nfree)
       else do {
         al \<leftarrow> get_alloc now s;
         let nfree = (if al = MM_ALLOC_FREE then nfree + 1 else nfree);
         next \<leftarrow> mm_get_next now s;
         mm_check_list next nfree s } } }"

definition mm_check :: "heap \<Rightarrow> bool option" where
  "mm_check s = do {
     (okl, nfree) \<leftarrow> mm_check_list (mem_heap_lo s + MM_DATA_SIZE) 0 s;
     if \<not> okl then Some False
     else do {
       root \<leftarrow> get_root s;
       (okt, nnode) \<leftarrow> mm_check_node root 0 s;
       if \<not> okt then Some False else Some (nfree = nnode) } }"

subsection \<open>The package: mm_init, mm_malloc, mm_free, mm_realloc\<close>

text \<open>\<open>data\<close> points to a \<open>struct MM_Data\<close>, whose \<open>root\<close> is at its start and whose \<open>null\<close> is 4 bytes behind it.\<close>

definition mm_init :: "heap \<Rightarrow> heap option" where
  "mm_init s = do {
     let (data, s) = mem_sbrk MM_DATA_SIZE s;
     s \<leftarrow> memset_loop (unat data) 0 (unat MM_DATA_SIZE) s;
     let nil = data + 4;
     s \<leftarrow> store32 (unat data) nil s;
     s \<leftarrow> set_color nil MM_COLOR_BLACK s;
     s \<leftarrow> set_null nil MM_NULL_NULL s;
     let (header, s) = mem_sbrk MM_HEADER_SIZE s;
     mm_clear_header header s }"

definition ALIGN :: "c_uint \<Rightarrow> c_uint" where
  "ALIGN n = (n + 7) AND NOT 7"

definition mm_malloc :: "bool \<Rightarrow> c_uint \<Rightarrow> heap \<Rightarrow> (ptr \<times> heap) option" where
  "mm_malloc ub sz s = do {
     let sz = drop_bit MM_ALIGN (ALIGN sz + MM_HEADER_SIZE);
     p \<leftarrow> mm_search sz s;
     (p, s) \<leftarrow> (if p = NULL
       then mm_sbrk (push_bit MM_ALIGN sz) s
       else do {
         s \<leftarrow> mm_delete p ub s;
         (p, s) \<leftarrow> mm_frag_node p sz s;
         s \<leftarrow> set_alloc p MM_ALLOC_ALLOC s;
         Some (p, s) });
     Some (p + MM_HEADER_SIZE, s) }"

text \<open>The two blocks of \<open>mm_free\<close> that merge the segment with a free neighbour.\<close>

definition free_prev :: "bool \<Rightarrow> ptr \<Rightarrow> ptr \<Rightarrow> heap \<Rightarrow> (ptr \<times> heap) option" where
  "free_prev ub prev now s = do {
     free \<leftarrow> (if prev \<noteq> NULL then map_option (\<lambda>a. a = MM_ALLOC_FREE) (get_alloc prev s) else Some False);
     if free
     then do {
       s \<leftarrow> mm_delete prev ub s;
       psize \<leftarrow> get_size prev s;
       nsize \<leftarrow> get_size now s;
       s \<leftarrow> set_size prev (psize + nsize) s;
       Some (prev, s) }
     else Some (now, s) }"

definition free_next :: "bool \<Rightarrow> ptr \<Rightarrow> ptr \<Rightarrow> heap \<Rightarrow> heap option" where
  "free_next ub next now s = do {
     xsize \<leftarrow> get_size next s;
     free \<leftarrow> (if xsize \<noteq> 0 then map_option (\<lambda>a. a = MM_ALLOC_FREE) (get_alloc next s) else Some False);
     if free
     then do {
       s \<leftarrow> mm_delete next ub s;
       nsize \<leftarrow> get_size now s;
       xsize \<leftarrow> get_size next s;
       set_size now (nsize + xsize) s }
     else Some s }"

definition mm_free :: "bool \<Rightarrow> ptr \<Rightarrow> heap \<Rightarrow> heap option" where
  "mm_free ub ptr s = do {
     let now = ptr - MM_HEADER_SIZE;
     prev \<leftarrow> mm_get_prev now s;
     next \<leftarrow> mm_get_next now s;
     (now, s) \<leftarrow> free_prev ub prev now s;
     s \<leftarrow> free_next ub next now s;
     s \<leftarrow> set_alloc now MM_ALLOC_FREE s;
     next \<leftarrow> mm_get_next now s;
     s \<leftarrow> set_prev next now s;
     mm_insert now s }"

text \<open>The two loops of \<open>mm_realloc\<close> over the free segments that follow.\<close>

definition free_follows :: "ptr \<Rightarrow> heap \<Rightarrow> bool option" where
  "free_follows next s = do {
     n \<leftarrow> get_size next s;
     if n = 0 then Some False else map_option (\<lambda>a. a = MM_ALLOC_FREE) (get_alloc next s) }"

partial_function (option) realloc_sum :: "ptr \<Rightarrow> c_uint \<Rightarrow> c_uint \<Rightarrow> heap \<Rightarrow> (ptr \<times> c_uint) option" where
  "realloc_sum next acc sz s = do {
     f \<leftarrow> free_follows next s;
     if f \<and> acc < sz
     then do {
       n \<leftarrow> get_size next s;
       nnext \<leftarrow> mm_get_next next s;
       realloc_sum nnext (acc + n) sz s }
     else Some (next, acc) }"

partial_function (option) realloc_coalesce :: "bool \<Rightarrow> ptr \<Rightarrow> ptr \<Rightarrow> c_uint \<Rightarrow> heap \<Rightarrow> heap option" where
  "realloc_coalesce ub next now sz s = do {
     f \<leftarrow> c_and (free_follows next s) (map_option (\<lambda>n. n < sz) (get_size now s));
     if f
     then do {
       s \<leftarrow> mm_delete next ub s;
       nsize \<leftarrow> get_size now s;
       xsize \<leftarrow> get_size next s;
       s \<leftarrow> set_size now (nsize + xsize) s;
       nnext \<leftarrow> mm_get_next next s;
       realloc_coalesce ub nnext now sz s }
     else Some s }"

definition realloc_expand :: "bool \<Rightarrow> ptr \<Rightarrow> ptr \<Rightarrow> c_uint \<Rightarrow> heap \<Rightarrow> (ptr \<times> heap) option" where
  "realloc_expand ub ptr now sz s = do {
     next \<leftarrow> mm_get_next now s;
     s \<leftarrow> realloc_coalesce ub next now sz s;
     next \<leftarrow> mm_get_next now s;
     s \<leftarrow> set_prev next now s;
     Some (ptr, s) }"

definition mm_realloc :: "bool \<Rightarrow> ptr \<Rightarrow> c_uint \<Rightarrow> heap \<Rightarrow> (ptr \<times> heap) option" where
  "mm_realloc ub ptr sz s =
     (if ptr = NULL then mm_malloc ub sz s
      else if sz = 0 then do { s \<leftarrow> mm_free ub ptr s; Some (ptr, s) }
      else do {
        let osize = sz;
        let sz = drop_bit MM_ALIGN (ALIGN sz + MM_HEADER_SIZE);
        let now = ptr - MM_HEADER_SIZE;
        nsize \<leftarrow> get_size now s;
        if sz \<le> nsize
        then do {
          (_, s) \<leftarrow> mm_frag_node now sz s;
          Some (ptr, s) }
        else do {
          next \<leftarrow> mm_get_next now s;
          (next, acc) \<leftarrow> realloc_sum next nsize sz s;
          at_end \<leftarrow> c_and (Some (acc < sz)) (map_option (\<lambda>n. n = 0) (get_size next s));
          if at_end
          then do {
            (next, s) \<leftarrow> mm_sbrk (push_bit MM_ALIGN (sz - acc)) s;
            s \<leftarrow> set_alloc next MM_ALLOC_FREE s;
            s \<leftarrow> mm_insert next s;
            realloc_expand ub ptr now sz s }
          else if acc < sz
          then do {
            (new, s) \<leftarrow> mm_malloc ub osize s;
            nsize \<leftarrow> get_size now s;
            (_, s) \<leftarrow> mm_memcpy new ptr (push_bit MM_ALIGN nsize - MM_HEADER_SIZE) s;
            s \<leftarrow> mm_free ub ptr s;
            Some (new, s) }
          else realloc_expand ub ptr now sz s } })"

end
