(* ===== verification/Layout.thy ===== *)
theory Layout
  imports FreeTree Mm
begin

text \<open>
  The segments of the heap of \<open>malloclab-handout/mm.c\<close>: from \<open>mem_heap_lo() + MM_DATA_SIZE\<close> up
  to the empty header before the break, each as long as its size field says, each with the
  address of the one before it in its first word. A segment is \<open>(a, n, al)\<close>: its address, its
  units of 8 bytes and its \<open>alloc\<close> bit. \<open>hinv fs s E segs F\<close> is the invariant of the
  allocator, between the segments and the free store \<open>fs\<close> that holds the set \<open>F\<close>; the
  addresses \<open>E\<close> are those whose link back is out of date, none between two calls. The lemmas
  are the elementary steps of the operations, each proved to keep it.
\<close>

type_synonym seg = "nat \<times> nat \<times> bool"

definition hbits :: "heap \<Rightarrow> nat \<Rightarrow> c_uint" where
  "hbits s a = rd32 (mem_bytes s) (a + 4)"

definition hprev :: "heap \<Rightarrow> nat \<Rightarrow> ptr" where
  "hprev s a = rd32 (mem_bytes s) a"

definition seg_at :: "heap \<Rightarrow> nat \<Rightarrow> nat \<Rightarrow> bool \<Rightarrow> bool" where
  "seg_at s a n al \<longleftrightarrow> bf_size (hbits s a) = of_nat n \<and> bf_flag 29 (hbits s a) = al \<and> \<not> bf_flag 31 (hbits s a)"

fun chain :: "heap \<Rightarrow> nat \<Rightarrow> seg list \<Rightarrow> nat \<Rightarrow> bool" where
  "chain s a [] b \<longleftrightarrow> a = b"
| "chain s a ((x, n, al) # xs) b \<longleftrightarrow> x = a \<and> 2 \<le> n \<and> seg_at s a n al \<and> chain s (a + 8 * n) xs b"

fun links :: "heap \<Rightarrow> nat set \<Rightarrow> nat \<Rightarrow> seg list \<Rightarrow> nat \<Rightarrow> bool" where
  "links s E pv [] e \<longleftrightarrow> (e \<notin> E \<longrightarrow> hprev s e = of_nat pv)"
| "links s E pv ((x, n, al) # xs) e \<longleftrightarrow> (x \<notin> E \<longrightarrow> hprev s x = of_nat pv) \<and> links s E x xs e"

definition lo :: "heap \<Rightarrow> nat" where
  "lo s = unat (mem_start_brk s)"

definition epi :: "heap \<Rightarrow> nat" where
  "epi s = unat (mem_brk s) - 8"

definition addrs :: "seg list \<Rightarrow> nat set" where
  "addrs segs = fst ` set segs"

definition hinv :: "(heap \<Rightarrow> ptr set \<Rightarrow> bool) \<Rightarrow> heap \<Rightarrow> nat set \<Rightarrow> seg list \<Rightarrow> ptr set \<Rightarrow> bool" where
  "hinv fs s E segs F \<longleftrightarrow> 0 < lo s \<and> lo s + 32 \<le> unat (mem_brk s) \<and> unat (mem_brk s) \<le> unat (mem_max_addr s) \<and>
     chain s (lo s + 24) segs (epi s) \<and> links s E 0 segs (epi s) \<and> hbits s (epi s) = 0 \<and>
     fs s F \<and> F \<subseteq> of_nat ` addrs segs"

definition frees :: "seg list \<Rightarrow> ptr set" where
  "frees segs = {p. \<exists>a n. (a, n, False) \<in> set segs \<and> p = of_nat a}"

definition allocs :: "seg list \<Rightarrow> (nat \<times> nat) set" where
  "allocs segs = {(a, n). (a, n, True) \<in> set segs}"

definition heap_inv :: "heap \<Rightarrow> seg list \<Rightarrow> bool" where
  "heap_inv s segs \<longleftrightarrow> hinv free_set s {} segs (frees segs)"

text \<open>The payload of the segment at \<open>a\<close> of \<open>n\<close> units is the same in two heaps.\<close>

definition pay :: "heap \<Rightarrow> heap \<Rightarrow> nat \<Rightarrow> nat \<Rightarrow> bool" where
  "pay s s' a n \<longleftrightarrow> (\<forall>i. a + 8 \<le> i \<and> i < a + 8 * n \<longrightarrow> mem_bytes s' i = mem_bytes s i)"

definition same_area :: "heap \<Rightarrow> heap \<Rightarrow> bool" where
  "same_area s s' \<longleftrightarrow> mem_start_brk s' = mem_start_brk s \<and> mem_max_addr s' = mem_max_addr s"

text \<open>The payloads of the segments outside the free store are kept, and the memory the heap lies in.\<close>

definition keep :: "ptr set \<Rightarrow> seg list \<Rightarrow> heap \<Rightarrow> heap \<Rightarrow> bool" where
  "keep F segs s s' \<longleftrightarrow> same_area s s' \<and> (\<forall>(a, n, al)\<in>set segs. of_nat a \<notin> F \<longrightarrow> pay s s' a n)"

subsection \<open>Lists of segments\<close>

lemma same_area_refl [simp]: "same_area s s"
  by (simp add: same_area_def)

lemma same_area_trans: "same_area s s' \<Longrightarrow> same_area s' s'' \<Longrightarrow> same_area s s''"
  by (simp add: same_area_def)

lemma same_bounds_area: "same_bounds s s' \<Longrightarrow> same_area s s'"
  by (simp add: same_bounds_def same_area_def)

lemma pay_refl [simp]: "pay s s a n"
  by (simp add: pay_def)

lemma pay_trans: "pay s s' a n \<Longrightarrow> pay s' s'' a n \<Longrightarrow> pay s s'' a n"
  by (simp add: pay_def)

lemma pay_mono: "pay s s' a n \<Longrightarrow> k \<le> n \<Longrightarrow> pay s s' a k"
  by (simp add: pay_def)

lemma chain_append: "chain s a (xs @ ys) b \<longleftrightarrow> (\<exists>c. chain s a xs c \<and> chain s c ys b)"
  by (induction xs arbitrary: a) auto

lemma chain_le: "chain s a xs b \<Longrightarrow> a \<le> b"
  by (induction xs arbitrary: a) force+

lemma chain_det: "chain s a xs b \<Longrightarrow> chain s a xs c \<Longrightarrow> b = c"
  by (induction xs arbitrary: a) auto

lemma chain_mem: "chain s a xs b \<Longrightarrow> (x, n, al) \<in> set xs \<Longrightarrow>
    a \<le> x \<and> x + 8 * n \<le> b \<and> 2 \<le> n \<and> seg_at s x n al"
proof (induction xs arbitrary: a)
  case (Cons y ys)
  obtain c m bl where y: "y = (c, m, bl)" by (cases y)
  show ?case using Cons.prems Cons.IH [of "c + 8 * m"] chain_le [of s "c + 8 * m" ys b] by (auto simp: y)
qed simp

lemma chain_disj:
  "chain s a xs b \<Longrightarrow> (x, n, al) \<in> set xs \<Longrightarrow> (y, k, bl) \<in> set xs \<Longrightarrow> x = y \<and> n = k \<and> al = bl \<or> x + 8 * n \<le> y \<or> y + 8 * k \<le> x"
proof (induction xs arbitrary: a)
  case (Cons z zs)
  obtain c m cl where z: "z = (c, m, cl)" by (cases z)
  show ?case using Cons.prems Cons.IH [of "c + 8 * m"] chain_mem [of s "c + 8 * m" zs b] by (auto simp: z)
qed simp

lemma chain_cong:
  "(\<And>x n al. (x, n, al) \<in> set xs \<Longrightarrow> seg_at s' x n al = seg_at s x n al) \<Longrightarrow> chain s' a xs b = chain s a xs b"
  by (induction xs arbitrary: a) auto

lemma links_append: "links s E pv (xs @ (y, n, al) # ys) e \<longleftrightarrow> links s E pv xs y \<and> links s E y ys e"
  by (induction xs arbitrary: pv) auto

lemma links_cong:
  "(\<And>x. x \<in> addrs xs \<union> {e} \<Longrightarrow> x \<notin> E' \<Longrightarrow> x \<notin> E \<and> hprev s' x = hprev s x) \<Longrightarrow>
   links s E pv xs e \<Longrightarrow> links s' E' pv xs e"
proof (induction xs arbitrary: pv)
  case (Cons y ys)
  obtain a n al where y: "y = (a, n, al)" by (cases y)
  have "links s' E' a ys e" by (rule Cons.IH) (use Cons.prems in \<open>auto simp: y addrs_def\<close>)
  then show ?case using Cons.prems(1) [of a] Cons.prems(2) by (auto simp: y addrs_def)
qed (auto simp: addrs_def)

lemma addrs_simps [simp]: "addrs [] = {}" "addrs ((a, n, al) # xs) = insert a (addrs xs)"
    "addrs (xs @ ys) = addrs xs \<union> addrs ys"
  by (simp_all add: addrs_def image_Un)

lemma frees_simps [simp]: "frees [] = {}"
    "frees ((a, n, al) # xs) = (if al then frees xs else insert (of_nat a) (frees xs))"
    "frees (xs @ ys) = frees xs \<union> frees ys"
  by (auto simp: frees_def)

lemma allocs_simps [simp]: "allocs [] = {}"
    "allocs ((a, n, al) # xs) = (if al then insert (a, n) (allocs xs) else allocs xs)"
    "allocs (xs @ ys) = allocs xs \<union> allocs ys"
  by (auto simp: allocs_def)

lemma unat_of: "a < 4294967296 \<Longrightarrow> unat (of_nat a :: 32 word) = a"
  by (simp add: take_bit_nat_eq_self unat_of_nat)

lemma of_nat_inj: "a < 4294967296 \<Longrightarrow> b < 4294967296 \<Longrightarrow> (of_nat a :: 32 word) = of_nat b \<longleftrightarrow> a = b"
  by (metis unat_of)

lemma size_of: "8 * n < 4294967296 \<Longrightarrow> take_bit 29 (of_nat n :: 32 word) = of_nat n"
  by (rule word_unat_eq_iff [THEN iffD2]) (simp add: unsigned_take_bit_eq unat_of take_bit_nat_eq_self)

subsection \<open>What the invariant says of one segment\<close>

lemma hinvD:
  assumes "hinv fs s E (xs @ (a, n, al) # ys) F"
  shows "chain s (lo s + 24) xs a" "seg_at s a n al" "2 \<le> n" "chain s (a + 8 * n) ys (epi s)"
    "lo s + 24 \<le> a" "a + 8 * n \<le> epi s" "links s E 0 xs a" "links s E a ys (epi s)"
  using assms chain_le [of s "lo s + 24" xs a] chain_le [of s "a + 8 * n" ys "epi s"]
  by (auto simp: hinv_def chain_append links_append)

lemma hinv_bounds:
  assumes "hinv fs s E segs F"
  shows "epi s + 8 = unat (mem_brk s)" "epi s + 8 \<le> unat (mem_max_addr s)" "unat (mem_max_addr s) < 4294967296"
    "lo s + 24 \<le> epi s" "0 < lo s" "hbits s (epi s) = 0" "fs s F" "F \<subseteq> of_nat ` addrs segs"
  using assms unsigned_less [of "mem_max_addr s", where 'a = nat] by (auto simp: hinv_def epi_def)

lemma hinv_mem:
  assumes "hinv fs s E segs F" "(a, n, al) \<in> set segs"
  shows "lo s + 24 \<le> a" "a + 8 * n \<le> epi s" "2 \<le> n" "seg_at s a n al" "8 * n < 4294967296" "a < 4294967296"
  using assms chain_mem [of s "lo s + 24" segs "epi s" a n al] hinv_bounds [OF assms(1)]
  by (auto simp: hinv_def)

lemma hinv_disj:
  assumes "hinv fs s E segs F" "(x, n, al) \<in> set segs" "(y, k, bl) \<in> set segs"
  shows "x = y \<and> n = k \<and> al = bl \<or> x + 8 * n \<le> y \<or> y + 8 * k \<le> x"
  using chain_disj [of s "lo s + 24" segs "epi s", OF _ assms(2,3)] assms(1) by (simp add: hinv_def)

lemma hinv_addrs:
  assumes "hinv fs s E segs F" "x \<in> addrs segs"
  shows "lo s + 24 \<le> x" "x + 16 \<le> epi s" "x < 4294967296"
  using assms(2) hinv_mem [OF assms(1)] by (fastforce simp: addrs_def)+

lemma hinv_addrs_apart:
  assumes "hinv fs s E segs F" "x \<in> addrs segs" "y \<in> addrs segs" "x \<noteq> y"
  shows "x + 16 \<le> y \<or> y + 16 \<le> x"
proof -
  obtain n al k bl where *: "(x, n, al) \<in> set segs" "(y, k, bl) \<in> set segs"
    using assms(2,3) by (auto simp: addrs_def)
  then show ?thesis
    using hinv_disj [OF assms(1) *] hinv_mem(3) [OF assms(1) *(1)] hinv_mem(3) [OF assms(1) *(2)] assms(4) by auto
qed

lemma data_null_unat:
  assumes "hinv fs s E segs F"
  shows "unat (data_null s) = lo s + 4"
proof -
  have "lo s + 4 < 4294967296" using hinv_bounds [OF assms] by linarith
  then show ?thesis
    using unat_add_lem [of "mem_start_brk s" 4] by (simp add: data_null_def mem_heap_lo_def lo_def)
qed

definition node_set :: "heap \<Rightarrow> seg list \<Rightarrow> ptr set" where
  "node_set s segs = insert (data_null s) (of_nat ` addrs segs)"

lemma hinv_apart: "hinv fs s E segs F \<Longrightarrow> apart (node_set s segs)"
  using hinv_addrs_apart data_null_unat hinv_addrs
  by (fastforce simp: apart_def node_set_def unat_of)

lemma hinv_above:
  assumes "hinv fs s E segs F"
  shows "above_root (node_set s segs) s"
  using data_null_unat [OF assms] hinv_addrs [OF assms] hinv_bounds [OF assms]
  by (fastforce simp: above_root_def node_set_def unat_of mem_ok_def lo_def)

lemma hinv_node_ok:
  assumes "hinv fs s E segs F" "p \<in> node_set s segs"
  shows "node_ok s p"
  using assms data_null_unat [OF assms(1)] hinv_addrs [OF assms(1)] hinv_bounds [OF assms(1)]
  by (fastforce simp: node_ok_def node_set_def unat_of mem_ok_def lo_def)

lemma data_null_not_seg:
  assumes "hinv fs s E segs F" "x \<in> addrs segs"
  shows "of_nat x \<noteq> data_null s"
proof
  assume "of_nat x = data_null s"
  then have "x = lo s + 4" using data_null_unat [OF assms(1)] unat_of hinv_addrs(3) [OF assms] by metis
  then show False using hinv_addrs(1) [OF assms] by simp
qed

subsection \<open>A change between two headers\<close>

text \<open>
  \<open>chg a b\<close>: a change of the heap that stays after the link of the header at \<open>a\<close> and before
  the size field of the header at \<open>b\<close>.
\<close>

definition chg :: "nat \<Rightarrow> nat \<Rightarrow> heap \<Rightarrow> heap \<Rightarrow> bool" where
  "chg a b s s' \<longleftrightarrow> same_bounds s s' \<and> (\<forall>i. i < a + 4 \<or> b + 4 \<le> i \<longrightarrow> mem_bytes s' i = mem_bytes s i)"

lemma chg_trans: "chg a b s s' \<Longrightarrow> chg a b s' s'' \<Longrightarrow> chg a b s s''"
  by (simp add: chg_def same_bounds_def)

lemma chg_hdr: "chg a b s s' \<Longrightarrow> x < a + 1 \<or> b + 4 \<le> x \<Longrightarrow> hprev s' x = hprev s x"
  unfolding hprev_def by (rule rd32_cong) (auto simp: chg_def)

lemma chg_bits: "chg a b s s' \<Longrightarrow> x + 4 < a + 1 \<or> b \<le> x \<Longrightarrow> hbits s' x = hbits s x"
  unfolding hbits_def by (rule rd32_cong) (auto simp: chg_def)

lemma same_bounds_lo: "same_bounds s s' \<Longrightarrow> lo s' = lo s \<and> epi s' = epi s"
  by (simp add: same_bounds_def lo_def epi_def)

lemma end_subset: "E \<subseteq> {b} \<Longrightarrow> a < b \<Longrightarrow> E \<subseteq> {a<..b :: nat}"
  by auto

lemma hinv_replace:
  assumes H: "hinv fs s E (xs @ (a, n, al) # ms @ ys) F" "chain s a ((a, n, al) # ms) b"
    and S: "chg a b s s'" and C: "chain s' a ((a, n', al') # ms') b"
    and E: "E \<subseteq> {a<..b}" and L: "links s' E' a ms' b"
    and F: "fs s' F'" "F' \<subseteq> of_nat ` addrs (xs @ (a, n', al') # ms' @ ys)"
  shows "hinv fs s' E' (xs @ (a, n', al') # ms' @ ys) F'"
proof -
  note D = hinvD [OF H(1)] and B = hinv_bounds [OF H(1)]
  have sb: "same_bounds s s'" using S by (simp add: chg_def)
  have ys: "chain s b ys (epi s)" using D(4) H(2) by (auto simp: chain_append) (metis chain_det)
  have be: "a + 16 \<le> b" "b \<le> epi s"
    using H(2) chain_le [of s "a + 8 * n" ms b] chain_le [OF ys] by auto
  have "seg_at s' x k bl = seg_at s x k bl" if "(x, k, bl) \<in> set xs \<union> set ys" for x k bl
  proof -
    have "x + 16 \<le> a \<or> b \<le> x"
      using that chain_mem [OF D(1), of x k bl] chain_mem [OF ys, of x k bl] by auto
    then show ?thesis using chg_bits [OF S, of x] by (auto simp: seg_at_def)
  qed
  then have ch: "chain s' (lo s + 24) xs a" "chain s' b ys (epi s)"
    using chain_cong [of xs s' s "lo s + 24" a] chain_cong [of ys s' s b "epi s"] D(1) ys by auto
  have lx: "links s' E' 0 xs a"
  proof (rule links_cong [OF _ D(7)])
    fix x assume "x \<in> addrs xs \<union> {a}" "x \<notin> E'"
    then have "x \<le> a" using chain_mem [OF D(1)] by (fastforce simp: addrs_def)
    then show "x \<notin> E \<and> hprev s' x = hprev s x" using chg_hdr [OF S, of x] E be by auto
  qed
  have ly: "links s' E' a (ms' @ ys) (epi s)"
  proof (cases ys)
    case Nil
    then show ?thesis using L ys by simp
  next
    case (Cons y ys')
    obtain k bl where y: "y = (b, k, bl)" "2 \<le> k" "chain s (b + 8 * k) ys' (epi s)"
      using ys by (cases y) (auto simp: Cons)
    have l: "links s E b ys' (epi s)" using D(8) by (simp add: Cons y links_append)
    have "links s' E' b ys' (epi s)"
    proof (rule links_cong [OF _ l])
      fix x assume "x \<in> addrs ys' \<union> {epi s}" "x \<notin> E'"
      then have "b + 8 * k \<le> x"
        using chain_mem [OF y(3)] chain_le [OF y(3)] by (fastforce simp: addrs_def)
      then show "x \<notin> E \<and> hprev s' x = hprev s x" using chg_hdr [OF S, of x] E y(2) by fastforce
    qed
    then show ?thesis using L by (simp add: Cons y links_append)
  qed
  have "hbits s' (epi s) = 0" using chg_bits [OF S, of "epi s"] B(6) be by simp
  moreover have "chain s' (lo s + 24) (xs @ (a, n', al') # ms' @ ys) (epi s)"
    using ch C by (auto simp: chain_append)
  ultimately show ?thesis
    using H(1) sb lx ly F same_bounds_lo [OF sb] by (simp add: hinv_def links_append same_bounds_def)
qed

subsection \<open>Tree operations keep the layout\<close>

lemma hinv_fs:
  assumes H: "hinv fs s E segs F" and T: "tree_frame P s s'" "P \<subseteq> of_nat ` addrs segs"
    and F: "fs s' F'" "F' \<subseteq> of_nat ` addrs segs"
  shows "hinv fs s' E segs F'"
proof -
  note B = hinv_bounds [OF H] and A = hinv_addrs [OF H]
  have sb: "same_bounds s s'" using T by (simp add: tree_frame_def)
  have P: "\<exists>y\<in>addrs segs. p = of_nat y \<and> unat p = y" if "p \<in> P" for p
    using that T(2) A(3) unat_of by fastforce
  have byte: "mem_bytes s' i = mem_bytes s i"
    if "lo s + 4 \<le> i" "\<forall>y\<in>addrs segs. i < y + 4 \<or> y + 16 \<le> i" for i
    using that T(1) P by (fastforce simp: tree_frame_def lo_def)
  have pv: "hprev s' x = hprev s x" if "x \<in> addrs segs \<union> {epi s}" for x
    unfolding hprev_def
  proof (rule rd32_cong)
    fix i assume i: "x \<le> i" "i < x + 4"
    have "i < y + 4 \<or> y + 16 \<le> i" if "y \<in> addrs segs" for y
      using i that \<open>x \<in> _\<close> A(2) hinv_addrs_apart [OF H, of x y] by fastforce
    moreover have "lo s + 4 \<le> i" using i \<open>x \<in> _\<close> A(1) B(4) by fastforce
    ultimately show "mem_bytes s' i = mem_bytes s i" using byte by blast
  qed
  have bits: "seg_at s' x n al = seg_at s x n al" if "(x, n, al) \<in> set segs" for x n al
  proof -
    have x: "x \<in> addrs segs" using that by (force simp: addrs_def)
    have "n_size (node_at s' (of_nat x)) = n_size (node_at s (of_nat x)) \<and>
       n_alloc (node_at s' (of_nat x)) = n_alloc (node_at s (of_nat x)) \<and>
       n_null (node_at s' (of_nat x)) = n_null (node_at s (of_nat x))"
    proof (cases "of_nat x \<in> P")
      case True
      then show ?thesis using T(1) by (simp add: tree_frame_def)
    next
      case False
      have "P \<subseteq> node_set s segs" "of_nat x \<in> node_set s segs" using T(2) x by (auto simp: node_set_def)
      then have "node_at s' (of_nat x) = node_at s (of_nat x)"
        using tree_frame_node [OF T(1) hinv_apart [OF H] hinv_above [OF H] _ _ False] by blast
      then show ?thesis by simp
    qed
    then show ?thesis using A(3) [OF x] by (simp add: node_at_sel unat_of seg_at_def hbits_def)
  qed
  have "hbits s' (epi s) = 0"
  proof -
    have "mem_bytes s' i = mem_bytes s i" if "epi s + 4 \<le> i" for i
      using byte [of i] that A(2) B(4) by fastforce
    then show ?thesis using B(6) rd32_cong [of "epi s + 4" "mem_bytes s'" "mem_bytes s"] by (simp add: hbits_def)
  qed
  moreover have "chain s' (lo s + 24) segs (epi s)" using H chain_cong [OF bits] by (simp add: hinv_def)
  moreover have "links s' E 0 segs (epi s)" using H pv by (auto simp: hinv_def elim!: links_cong [rotated])
  ultimately show ?thesis using H F sb same_bounds_lo [OF sb] by (simp add: hinv_def same_bounds_def)
qed

lemma keep_fs:
  assumes H: "hinv fs s E segs F" and T: "tree_frame P s s'" "P \<subseteq> of_nat ` addrs segs"
  shows "keep P segs s s'"
proof -
  have "mem_bytes s' i = mem_bytes s i"
    if x: "(x, n, al) \<in> set segs" "of_nat x \<notin> P" and i: "x + 8 \<le> i" "i < x + 8 * n" for x n al i
  proof -
    have "i < unat p + 4 \<or> unat p + 16 \<le> i" if p: "p \<in> P" for p
    proof -
      obtain y where y: "y \<in> addrs segs" "p = of_nat y" "unat p = y"
        using p T(2) hinv_addrs(3) [OF H] unat_of by fastforce
      obtain k bl where k: "(y, k, bl) \<in> set segs" using y(1) by (auto simp: addrs_def)
      have "x \<noteq> y" using x(2) p y(2) by auto
      then show ?thesis
        using hinv_disj [OF H x(1) k] hinv_mem(3) [OF H k] i y(3) by auto
    qed
    then show ?thesis using T(1) hinv_mem(1) [OF H x(1)] i by (simp add: tree_frame_def lo_def)
  qed
  then show ?thesis using T(1) by (auto simp: keep_def pay_def tree_frame_def same_bounds_area)
qed

lemma keep_trans: "keep P segs s s' \<Longrightarrow> keep P segs s' s'' \<Longrightarrow> keep P segs s s''"
  by (fastforce simp: keep_def dest: pay_trans intro: same_area_trans)

lemma keep_mono: "keep P segs s s' \<Longrightarrow> P \<subseteq> Q \<Longrightarrow> keep Q segs s s'"
  by (auto simp: keep_def)

lemma keep_sub: "keep P segs s s' \<Longrightarrow> set segs' \<subseteq> set segs \<Longrightarrow> keep P segs' s s'"
  by (auto simp: keep_def)

lemma keep_pay: "keep P segs s s' \<Longrightarrow> (a, n, al) \<in> set segs \<Longrightarrow> of_nat a \<notin> P \<Longrightarrow> pay s s' a n"
  by (auto simp: keep_def)

lemma keep_insert:
  assumes "keep (insert (of_nat x) P) segs s s'" "of_nat x \<notin> (of_nat ` addrs segs' :: ptr set)" "set segs' \<subseteq> set segs"
  shows "keep P segs' s s'"
proof -
  have "pay s s' a n" if "(a, n, al) \<in> set segs'" "of_nat a \<notin> P" for a n al
  proof -
    have "a \<in> addrs segs'" using that(1) by (force simp: addrs_def)
    then have "(of_nat a :: ptr) \<noteq> of_nat x" using assms(2) by (metis imageI)
    then show ?thesis using keep_pay [OF assms(1)] that assms(3) by blast
  qed
  then show ?thesis using assms(1) by (auto simp: keep_def)
qed

lemma keep_refl [simp]: "keep P segs s s"
  by (simp add: keep_def)

lemma chg_tree_same:
  assumes H: "hinv fs s E segs F" and S: "chg a b s s'" "lo s + 20 \<le> a"
    and out: "\<forall>x\<in>addrs segs. of_nat x \<in> F \<longrightarrow> x + 16 \<le> a \<or> b \<le> x"
  shows "tree_same F s s'"
proof -
  have "mem_bytes s' i = mem_bytes s i" if p: "p \<in> F" and i: "unat p + 4 \<le> i" "i < unat p + 16" for p i
  proof -
    obtain x where x: "x \<in> addrs segs" "p = of_nat x" using hinv_bounds(8) [OF H] p by auto
    then have "unat p = x" using hinv_addrs(3) [OF H x(1)] by (simp add: unat_of)
    have "x + 16 \<le> a \<or> b \<le> x" using out p x by blast
    then have "i < a + 4 \<or> b + 4 \<le> i" using i \<open>unat p = x\<close> by linarith
    then show ?thesis using S(1) by (auto simp: chg_def)
  qed
  moreover have "mem_bytes s' i = mem_bytes s i" if "i < lo s + 20" for i
    using that S by (auto simp: chg_def)
  ultimately show ?thesis
    using S(1) data_null_unat [OF H] by (auto simp: tree_same_def chg_def same_bounds_def lo_def)
qed

lemma hinv_mid:
  assumes "hinv fs s E (xs @ mid @ ys) F" "chain s a mid b" "mid \<noteq> []"
  shows "chain s (lo s + 24) xs a" "chain s b ys (epi s)"
proof -
  obtain x n al ms where m: "mid = (x, n, al) # ms" using assms(3) by (cases mid) auto
  then have x: "x = a" using assms(2) by simp
  then show xs: "chain s (lo s + 24) xs a" using assms(1) m by (auto simp: hinv_def chain_append)
  obtain c where "chain s a mid c" "chain s c ys (epi s)"
    using assms(1) m x by (auto simp: hinv_def chain_append)
  then show "chain s b ys (epi s)" using chain_det [OF assms(2)] by blast
qed

lemma keep_chg:
  assumes H: "hinv fs s E (xs @ mid @ ys) F" and S: "chg a b s s'" and m: "chain s a mid b" "mid \<noteq> []"
  shows "keep P (xs @ ys) s s'"
proof -
  note c = hinv_mid [OF H m]
  have "pay s s' x n" if "(x, n, al) \<in> set (xs @ ys)" for x n al
  proof -
    have "x + 8 * n \<le> a \<or> b \<le> x"
      using that chain_mem [OF c(1), of x n al] chain_mem [OF c(2), of x n al] by auto
    then show ?thesis using S by (auto simp: pay_def chg_def)
  qed
  then show ?thesis using S by (auto simp: keep_def chg_def same_bounds_area)
qed

subsection \<open>Writing headers\<close>

definition wr_bits :: "nat \<Rightarrow> c_uint \<Rightarrow> heap \<Rightarrow> heap" where
  "wr_bits a v s = s\<lparr>mem_bytes := wr32 (mem_bytes s) (a + 4) v\<rparr>"

definition wr_prev :: "nat \<Rightarrow> ptr \<Rightarrow> heap \<Rightarrow> heap" where
  "wr_prev a v s = s\<lparr>mem_bytes := wr32 (mem_bytes s) a v\<rparr>"

definition fill :: "nat \<Rightarrow> byte \<Rightarrow> nat \<Rightarrow> heap \<Rightarrow> heap" where
  "fill a c k s = s\<lparr>mem_bytes := (\<lambda>i. if a \<le> i \<and> i < a + k then c else mem_bytes s i)\<rparr>"

definition hdr_ok :: "heap \<Rightarrow> nat \<Rightarrow> bool" where
  "hdr_ok s a \<longleftrightarrow> lo s \<le> a \<and> a + 8 \<le> unat (mem_max_addr s)"

definition sep8 :: "nat \<Rightarrow> nat \<Rightarrow> bool" where
  "sep8 a b \<longleftrightarrow> a = b \<or> a + 8 \<le> b \<or> b + 8 \<le> a"

lemma hdr_ok_less: "hdr_ok s a \<Longrightarrow> a < 4294967296"
  using unsigned_less [of "mem_max_addr s", where 'a = nat] by (simp add: hdr_ok_def)

lemma hdr_ok_wr [simp]:
  "hdr_ok (wr_bits a v s) = hdr_ok s" "hdr_ok (wr_prev a v s) = hdr_ok s" "hdr_ok (fill a c k s) = hdr_ok s"
  by (simp_all add: fun_eq_iff hdr_ok_def wr_bits_def wr_prev_def fill_def lo_def)

lemma hdr_get:
  assumes "hdr_ok s a"
  shows "get_prev (of_nat a) s = Some (hprev s a)" "get_bits (of_nat a) s = Some (hbits s a)"
    "get_size (of_nat a) s = Some (bf_size (hbits s a))" "get_alloc (of_nat a) s = Some (bf_flag 29 (hbits s a))"
    "get_null (of_nat a) s = Some (bf_flag 31 (hbits s a))"
  using assms hdr_ok_less [OF assms]
  by (simp_all add: get_prev_def get_bits_def get_size_def get_alloc_def get_null_def load32_def unat_of
      hdr_ok_def mem_ok_def lo_def hprev_def hbits_def)

lemma hdr_set:
  assumes "hdr_ok s a"
  shows "set_prev (of_nat a) v s = Some (wr_prev a v s)"
    "set_size (of_nat a) v s = Some (wr_bits a (bf_set_size v (hbits s a)) s)"
    "set_alloc (of_nat a) b s = Some (wr_bits a (bf_set_flag 29 b (hbits s a)) s)"
  using assms hdr_ok_less [OF assms]
  by (simp_all add: set_prev_def set_size_def set_alloc_def set_bits_def get_bits_def load32_def store32_def
      unat_of hdr_ok_def mem_ok_def lo_def hbits_def wr_bits_def wr_prev_def)

lemma hdr_wr:
  assumes "sep8 a b"
  shows "hbits (wr_bits a v s) b = (if a = b then v else hbits s b)" "hprev (wr_bits a v s) b = hprev s b"
    "hprev (wr_prev a v s) b = (if a = b then v else hprev s b)" "hbits (wr_prev a v s) b = hbits s b"
    "hbits (fill a 0 8 s) b = (if a = b then 0 else hbits s b)"
    "hprev (fill a 0 8 s) b = (if a = b then 0 else hprev s b)"
  using assms
  by (auto simp: sep8_def hbits_def hprev_def wr_bits_def wr_prev_def fill_def rd32_wr32_other)
    (simp_all add: rd32_def)

lemma chg_wr:
  assumes "chg a b s s'"
  shows "a \<le> x \<Longrightarrow> x + 4 \<le> b \<Longrightarrow> chg a b s (wr_bits x v s')"
    "a + 4 \<le> x \<Longrightarrow> x \<le> b \<Longrightarrow> chg a b s (wr_prev x v s')"
    "a + 4 \<le> x \<Longrightarrow> x + k \<le> b + 4 \<Longrightarrow> chg a b s (fill x c k s')"
  using assms by (auto simp: chg_def wr_bits_def wr_prev_def fill_def same_bounds_def wr32_other)

lemma chg_refl [simp]: "chg a b s s"
  by (simp add: chg_def)

lemma memset_loop_fill:
  "mem_ok s a k \<Longrightarrow> memset_loop a c k s = Some (fill a c k s)"
proof (induction k arbitrary: a s)
  case 0
  have "(\<lambda>i. if a \<le> i \<and> i < a + 0 then c else mem_bytes s i) = mem_bytes s" by (auto simp: fun_eq_iff)
  then show ?case by (simp add: fill_def)
next
  case (Suc k)
  have "fill (Suc a) c k (s\<lparr>mem_bytes := (mem_bytes s)(a := c)\<rparr>) = fill a c (Suc k) s"
    by (auto simp: fill_def fun_eq_iff intro!: heap.equality)
  then show ?case using Suc by (simp add: store8_def mem_ok_def)
qed

lemma clear_header:
  assumes "hdr_ok s a"
  shows "mm_clear_header (of_nat a) s = Some (fill a 0 8 s)"
  using assms memset_loop_fill [of s a 8 0] hdr_ok_less [OF assms]
  by (simp add: mm_clear_header_def mm_memset_def unat_of hdr_ok_def mem_ok_def lo_def)

lemma get_next:
  assumes "hdr_ok s a" "bf_size (hbits s a) = of_nat n"
  shows "mm_get_next (of_nat a) s = Some (of_nat (a + 8 * n))"
  using assms by (simp add: mm_get_next_def hdr_get push_bit_eq_mult mult.commute)

subsection \<open>Steps of the operations\<close>

lemma hinv_link:
  assumes "hinv fs s E (xs @ (a, n, al) # ys) F" "a + 8 * n \<notin> E"
  shows "hprev s (a + 8 * n) = of_nat a"
  using hinvD(4,8) [OF assms(1)] assms(2) by (cases ys) auto

lemma hinv_hdr:
  assumes "hinv fs s E segs F" "lo s \<le> x" "x \<le> epi s"
  shows "hdr_ok s x"
  using hinv_bounds [OF assms(1)] assms(2,3) by (simp add: hdr_ok_def)

lemma hinv_seg:
  assumes "hinv fs s E (xs @ (a, n, al) # ys) F"
  shows "hdr_ok s a" "bf_size (hbits s a) = of_nat n" "bf_flag 29 (hbits s a) = al" "\<not> bf_flag 31 (hbits s a)"
    "8 * n < 4294967296" "hdr_ok s (a + 8 * n)" "unat (of_nat a :: ptr) = a"
  using hinvD [OF assms] hinv_hdr [OF assms] hinv_bounds [OF assms] unat_of [of a]
  by (auto simp: seg_at_def)

lemma hinv_distinct:
  assumes "hinv fs s E (xs @ (x, n, al) # ys) F"
  shows "of_nat x \<notin> (of_nat ` (addrs xs \<union> addrs ys) :: ptr set)"
proof
  assume "of_nat x \<in> (of_nat ` (addrs xs \<union> addrs ys) :: ptr set)"
  then obtain y where y: "y \<in> addrs xs \<union> addrs ys" "(of_nat x :: ptr) = of_nat y" by blast
  note D = hinvD [OF assms] and A = hinv_addrs(3) [OF assms]
  have "y = x" using y A [of x] A [of y] of_nat_inj [of x y] by auto
  moreover have "y + 16 \<le> x \<or> x + 16 \<le> y"
    using y(1) chain_mem [OF D(1)] chain_mem [OF D(4)] D(3) by (fastforce simp: addrs_def)
  ultimately show False by simp
qed

context free_store
begin

lemma step:
  assumes H: "hinv fs s E (xs @ (a, n, al) # ms @ ys) F" and m: "chain s a ((a, n, al) # ms) b"
    and S: "chg a b s s'" and C: "chain s' a ((a, n', al') # ms') b"
    and E: "E \<subseteq> {a<..b}" and L: "links s' E' a ms' b"
    and out: "of_nat a \<notin> F" "of_nat ` addrs ms \<inter> F = {}"
  shows "hinv fs s' E' (xs @ (a, n', al') # ms' @ ys) F \<and> keep P (xs @ ys) s s'"
proof -
  have H': "hinv fs s E (xs @ ((a, n, al) # ms) @ ys) F" using H by simp
  have c: "chain s (lo s + 24) xs a" "chain s b ys (epi s)" using hinv_mid [OF H' m] by simp_all
  have "x + 16 \<le> a \<or> b \<le> x" if "x \<in> addrs (xs @ (a, n, al) # ms @ ys)" "of_nat x \<in> F" for x
  proof -
    have "x \<in> addrs xs \<union> addrs ys" using that out by auto
    then show ?thesis
      using chain_mem [OF c(1)] chain_mem [OF c(2)] by (fastforce simp: addrs_def)
  qed
  then have "tree_same F s s'"
    using chg_tree_same [OF H S] hinvD(5) [OF H] by simp
  then have "fs s' F" using stable hinv_bounds(7) [OF H] by blast
  moreover have "F \<subseteq> of_nat ` addrs (xs @ (a, n', al') # ms' @ ys)"
    using hinv_bounds(8) [OF H] out by auto
  ultimately show ?thesis
    using hinv_replace [OF H m S C E L] keep_chg [OF H' S m] by simp
qed

lemma step_alloc:
  assumes H: "hinv fs s E (xs @ (a, n, al) # ys) F" "E \<subseteq> {a + 8 * n}" "of_nat a \<notin> F"
  shows "\<exists>s'. set_alloc (of_nat a) b s = Some s' \<and> hinv fs s' E (xs @ (a, n, b) # ys) F \<and>
    keep P (xs @ ys) s s' \<and> pay s s' a n"
proof -
  let ?s = "wr_bits a (bf_set_flag 29 b (hbits s a)) s"
  note D = hinvD [OF H(1)] and G = hinv_seg [OF H(1)]
  have "chain ?s a [(a, n, b)] (a + 8 * n)"
    using D(3) G by (simp add: seg_at_def hdr_wr sep8_def)
  moreover have S: "chg a (a + 8 * n) s ?s" using D(3) by (intro chg_wr) simp_all
  moreover have "links ?s E a [] (a + 8 * n)"
    using hinv_link [OF H(1)] D(3) by (simp add: hdr_wr sep8_def)
  ultimately have "hinv fs ?s E (xs @ (a, n, b) # [] @ ys) F \<and> keep P (xs @ ys) s ?s"
    using H D(2,3) by (intro step [where ms = "[]" and n = n and al = al and E = E]) (simp_all add: end_subset)
  moreover have "pay s ?s a n" by (simp add: pay_def wr_bits_def wr32_other)
  ultimately show ?thesis using hdr_set(3) [OF G(1)] by auto
qed

lemma step_link:
  assumes H: "hinv fs s E (xs @ (a, n, al) # ys) F" "E \<subseteq> {a + 8 * n}" "of_nat a \<notin> F"
  shows "\<exists>s'. mm_get_next (of_nat a) s = Some (of_nat (a + 8 * n)) \<and>
    set_prev (of_nat (a + 8 * n)) (of_nat a) s = Some s' \<and> hinv fs s' {} (xs @ (a, n, al) # ys) F \<and>
    keep P (xs @ ys) s s' \<and> pay s s' a n"
proof -
  let ?b = "a + 8 * n"
  let ?s = "wr_prev ?b (of_nat a) s"
  note D = hinvD [OF H(1)] and G = hinv_seg [OF H(1)]
  have "chain ?s a [(a, n, al)] ?b"
    using D(3) G by (simp add: seg_at_def hdr_wr sep8_def)
  moreover have S: "chg a ?b s ?s" using D(3) by (intro chg_wr) simp_all
  moreover have "links ?s {} a [] ?b" by (simp add: hdr_wr sep8_def)
  ultimately have "hinv fs ?s {} (xs @ (a, n, al) # [] @ ys) F \<and> keep P (xs @ ys) s ?s"
    using H D(2,3) by (intro step [where ms = "[]" and n = n and al = al and E = E]) (simp_all add: end_subset)
  moreover have "pay s ?s a n" by (simp add: pay_def wr_prev_def wr32_other)
  ultimately show ?thesis using hdr_set(1) [OF G(6)] get_next [OF G(1,2)] by auto
qed

lemma step_merge:
  assumes H: "hinv fs s E (xs @ (a, n, al) # (c, m, bl) # ys) F" "E \<subseteq> {a<..c + 8 * m}" "of_nat a \<notin> F" "of_nat c \<notin> F"
  shows "\<exists>s'. set_size (of_nat a) (of_nat n + of_nat m) s = Some s' \<and>
    hinv fs s' {c + 8 * m} (xs @ (a, n + m, al) # ys) F \<and> keep P (xs @ ys) s s' \<and> pay s s' a n"
proof -
  let ?s = "wr_bits a (bf_set_size (of_nat (n + m)) (hbits s a)) s" and ?b = "c + 8 * m"
  note D = hinvD [OF H(1)] and G = hinv_seg [OF H(1)]
  have c: "c = a + 8 * n" "2 \<le> m" "seg_at s c m bl" using D(4) by auto
  have b: "?b \<le> epi s" "epi s + 8 \<le> unat (mem_max_addr s)" "unat (mem_max_addr s) < 4294967296"
    using D(4) chain_le [of s ?b ys "epi s"] hinv_bounds [OF H(1)] by (auto simp: c)
  have nm: "8 * (n + m) < 4294967296" using b c(1) by (simp add: distrib_left)
  have "chain ?s a [(a, n + m, al)] ?b"
    using D(3) G c size_of [OF nm] by (simp add: seg_at_def hdr_wr sep8_def)
  moreover have "chg a ?b s ?s" using D(3) c by (intro chg_wr) simp_all
  moreover have "chain s a ((a, n, al) # [(c, m, bl)]) ?b" using D(2,3) c by simp
  ultimately have "hinv fs ?s {?b} (xs @ (a, n + m, al) # [] @ ys) F \<and> keep P (xs @ ys) s ?s"
    using H by (intro step [where ms = "[(c, m, bl)]" and n = n and al = al and E = E and b = ?b]) simp_all
  moreover have "pay s ?s a n" by (simp add: pay_def wr_bits_def wr32_other)
  ultimately show ?thesis using hdr_set(2) [OF G(1)] by auto
qed

lemma step_delete:
  assumes H: "hinv fs s E segs F" "p \<in> F"
  shows "\<exists>s'. mm_delete p ub s = Some s' \<and> hinv fs s' E segs (F - {p}) \<and> keep F segs s s'"
proof -
  note B = hinv_bounds [OF H(1)]
  obtain s' where s': "mm_delete p ub s = Some s'" "fs s' (F - {p})" "tree_frame F s s'"
    using delete [OF B(7) H(2)] by blast
  then show ?thesis using hinv_fs [OF H(1) s'(3) B(8) s'(2)] keep_fs [OF H(1) s'(3) B(8)] B(8) by auto
qed

lemma step_insert:
  assumes H: "hinv fs s E (xs @ (a, n, al) # ys) F" "of_nat a \<notin> F"
  shows "\<exists>s'. mm_insert (of_nat a) s = Some s' \<and> hinv fs s' E (xs @ (a, n, al) # ys) (insert (of_nat a) F) \<and>
    keep (insert (of_nat a) F) (xs @ (a, n, al) # ys) s s'"
proof -
  note B = hinv_bounds [OF H(1)] and D = hinvD [OF H(1)] and G = hinv_seg [OF H(1)]
  let ?segs = "xs @ (a, n, al) # ys" and ?N = "node_set s (xs @ (a, n, al) # ys)"
  have N: "of_nat a \<in> ?N" "insert (of_nat a) (insert (data_null s) F) \<subseteq> ?N"
    using B(8) by (auto simp: node_set_def)
  have "\<not> n_null (node_at s (of_nat a))" using G by (simp add: node_at_sel hbits_def)
  moreover have "of_nat a \<noteq> data_null s" using data_null_not_seg [OF H(1)] by simp
  moreover have "lo s + 4 \<le> a" using D(5) by simp
  ultimately have "addable s F (of_nat a)"
    using hinv_node_ok [OF H(1) N(1)] apart_mono [OF hinv_apart [OF H(1)] N(2)] H(2) G(7)
    by (simp add: addable_def lo_def)
  then obtain s' where s': "mm_insert (of_nat a) s = Some s'" "fs s' (insert (of_nat a) F)"
      "tree_frame (insert (of_nat a) F) s s'"
    using insert [OF B(7)] by blast
  have "insert (of_nat a) F \<subseteq> of_nat ` addrs ?segs" using B(8) by auto
  then show ?thesis using hinv_fs [OF H(1) s'(3) _ s'(2)] keep_fs [OF H(1) s'(3)] s'(1) by blast
qed

end

end
