(* ===== verification/MmSteps.thy ===== *)
theory MmSteps
  imports Layout
begin

text \<open>
  The operations of \<open>malloclab-handout/mm.c\<close> that split and create segments,
  \<open>mm_frag_node\<close> and \<open>mm_sbrk\<close>, on a heap that satisfies the invariant of \<open>Layout\<close>:
  they return, and what they do to the list of segments and the free store.
\<close>

lemma of_nat_less: "a < 4294967296 \<Longrightarrow> b < 4294967296 \<Longrightarrow> (of_nat a :: 32 word) < of_nat b \<longleftrightarrow> a < b"
  by (simp add: word_less_nat_alt unat_of)

lemma of_nat_le: "a < 4294967296 \<Longrightarrow> b < 4294967296 \<Longrightarrow> (of_nat a :: 32 word) \<le> of_nat b \<longleftrightarrow> a \<le> b"
  by (simp add: word_le_nat_alt unat_of)

lemma drop3_of_nat: "m < 4294967296 \<Longrightarrow> drop_bit 3 (of_nat m :: 32 word) = of_nat (m div 8)"
  by (simp add: word_unat_eq_iff unat_shr unat_of)

text \<open>The writes that cut a segment of \<open>n\<close> units after \<open>k\<close>: the state before the insertion.\<close>

definition cut :: "nat \<Rightarrow> nat \<Rightarrow> nat \<Rightarrow> heap \<Rightarrow> heap" where
  "cut a k n s =
    (let x = a + 8 * k;
         s = wr_bits a (bf_set_size (of_nat k) (hbits s a)) s;
         s = fill x 0 8 s;
         s = wr_bits x (bf_set_size (of_nat (n - k)) (hbits s x)) s;
         s = wr_prev x (of_nat a) s;
         s = wr_prev (a + 8 * n) (of_nat x) s
     in wr_bits x (bf_set_flag 29 False (hbits s x)) s)"

text \<open>
  Extending the heap: the old empty header becomes the header of a segment of \<open>n\<close> units and a
  new empty header, not linked back yet, is written behind it.
\<close>

definition grow :: "nat \<Rightarrow> heap \<Rightarrow> heap" where
  "grow n s =
    (let e = epi s;
         s = s\<lparr>mem_brk := mem_brk s + of_nat (8 * n)\<rparr>;
         s = wr_bits e (bf_set_size (of_nat n) (hbits s e)) s;
         s = fill (e + 8 * n) 0 8 s
     in wr_bits e (bf_set_flag 29 True (hbits s e)) s)"

context free_store
begin

lemma step_cut:
  assumes H: "hinv fs s E (xs @ (a, n, al) # ys) F" "E \<subseteq> {a + 8 * n}" "of_nat a \<notin> F"
    and k: "2 \<le> k" "k + 2 \<le> n"
  shows "hinv fs (cut a k n s) {} (xs @ (a, k, al) # (a + 8 * k, n - k, False) # ys) F \<and>
    keep P (xs @ ys) s (cut a k n s) \<and> pay s (cut a k n s) a k"
proof -
  let ?x = "a + 8 * k" and ?b = "a + 8 * n" and ?s = "cut a k n s"
  note D = hinvD [OF H(1)] and G = hinv_seg [OF H(1)]
  have sep: "sep8 a ?x" "sep8 ?x a" "sep8 ?x ?b" "sep8 ?b ?x" "sep8 ?b a" "sep8 a ?b" "sep8 a a" "sep8 ?x ?x" "sep8 ?b ?b"
    "a \<noteq> ?x" "?x \<noteq> ?b" "a \<noteq> ?b"
    using k D(3) by (auto simp: sep8_def)
  have sz: "take_bit 29 (of_nat k :: 32 word) = of_nat k" "take_bit 29 (of_nat (n - k) :: 32 word) = of_nat (n - k)"
    using G(5) k by (intro size_of; simp)+
  have "chain ?s a [(a, k, al), (?x, n - k, False)] ?b"
  proof -
    have "a + 8 * k + 8 * (n - k) = a + 8 * n" "2 \<le> n - k" using k by simp_all
    then show ?thesis
      using k G(2-4) sep sz by (simp add: cut_def Let_def seg_at_def hdr_wr del: of_nat_diff)
  qed
  moreover have "chg a ?b s ?s"
    unfolding cut_def Let_def using k by (intro chg_wr chg_refl) simp_all
  moreover have "links ?s {} a [(?x, n - k, False)] ?b"
    using sep by (simp add: cut_def Let_def hdr_wr)
  ultimately have "hinv fs ?s {} (xs @ (a, k, al) # [(?x, n - k, False)] @ ys) F \<and> keep P (xs @ ys) s ?s"
    using H D(2,3) by (intro step [where ms = "[]" and n = n and al = al and E = E and b = ?b]) (simp_all add: end_subset)
  moreover have "pay s ?s a k"
    using k by (simp add: pay_def cut_def Let_def wr_bits_def wr_prev_def fill_def wr32_other)
  ultimately show ?thesis by simp
qed

lemma frag_cut:
  assumes H: "hinv fs s E (xs @ (a, n, al) # ys) F" and k: "2 \<le> k" "k + 2 \<le> n"
  shows "mm_frag_node (of_nat a) (of_nat k) s = do {
    s \<leftarrow> mm_insert (of_nat (a + 8 * k)) (cut a k n s); Some (of_nat a, s) }"
proof -
  let ?x = "a + 8 * k" and ?b = "a + 8 * n"
  note D = hinvD [OF H] and G = hinv_seg [OF H]
  have ok: "hdr_ok s a" "hdr_ok s ?x" "hdr_ok s ?b" using D(5,6) k by (auto intro: hinv_hdr [OF H])
  have sep: "sep8 a ?x" "sep8 ?x a" "sep8 ?x ?b" "sep8 ?b ?x" "sep8 ?b a" "sep8 a ?b" "sep8 a a" "sep8 ?x ?x" "sep8 ?b ?b"
    "a \<noteq> ?x" "?x \<noteq> ?b" "a \<noteq> ?b"
    using k D(3) by (auto simp: sep8_def)
  have sz: "take_bit 29 (of_nat k :: 32 word) = of_nat k" "take_bit 29 (of_nat (n - k) :: 32 word) = of_nat (n - k)"
    using G(5) k by (intro size_of; simp)+
  have lt: "\<not> (of_nat n :: 32 word) < of_nat k + 2"
    using of_nat_less [of n "k + 2"] G(5) k by (simp add: add.commute)
  have df: "(of_nat n :: 32 word) - of_nat k = of_nat (n - k)" using k by (simp add: of_nat_diff)
  have e: "?x + 8 * (n - k) = ?b" using k by simp
  let ?s1 = "wr_bits a (bf_set_size (of_nat k) (hbits s a)) s"
  let ?s2 = "fill ?x 0 8 ?s1"
  let ?s3 = "wr_bits ?x (bf_set_size (of_nat (n - k)) (hbits ?s2 ?x)) ?s2"
  let ?s4 = "wr_prev ?x (of_nat a) ?s3"
  let ?s5 = "wr_prev ?b (of_nat ?x) ?s4"
  have next1: "mm_get_next (of_nat a) ?s1 = Some (of_nat ?x)"
    using sz sep ok by (intro get_next) (simp_all add: hdr_wr)
  have next2: "mm_get_next (of_nat ?x) ?s4 = Some (of_nat ?b)"
    using sz sep ok by (subst get_next [where n = "n - k"]) (simp_all add: hdr_wr e)
  show ?thesis
    using G(2) ok lt next1 next2
    unfolding mm_frag_node_def cut_def Let_def
    by (simp add: hdr_get hdr_set clear_header df del: of_nat_add of_nat_mult of_nat_diff)
qed

text \<open>
  \<open>mm_frag_node\<close> cuts the segment when the rest can hold a node, which then joins the free
  store, and leaves it whole otherwise; either way the link of the following header is right.
\<close>

lemma frag:
  assumes H: "hinv fs s E (xs @ (a, n, al) # ys) F" "E \<subseteq> {a + 8 * n}" "of_nat a \<notin> F"
    and k: "2 \<le> k" "k \<le> n"
  shows "\<exists>s' k' ms. mm_frag_node (of_nat a) (of_nat k) s = Some (of_nat a, s') \<and> k \<le> k' \<and> k' \<le> n \<and>
    allocs ms = {} \<and> hinv fs s' {} (xs @ (a, k', al) # ms @ ys) (frees ms \<union> F) \<and>
    keep F (xs @ ys) s s' \<and> pay s s' a k"
proof (cases "n < k + 2")
  case True
  note G = hinv_seg [OF H(1)]
  obtain s' where s': "mm_get_next (of_nat a) s = Some (of_nat (a + 8 * n))"
      "set_prev (of_nat (a + 8 * n)) (of_nat a) s = Some s'" "hinv fs s' {} (xs @ (a, n, al) # ys) F"
      "keep F (xs @ ys) s s'" "pay s s' a n"
    using step_link [OF H] by blast
  have "(of_nat n :: 32 word) < of_nat k + 2"
    using of_nat_less [of n "k + 2"] G(5) k True by (simp add: add.commute)
  then have "mm_frag_node (of_nat a) (of_nat k) s = Some (of_nat a, s')"
    using s'(1,2) hdr_get(3) [OF G(1)] G(2) by (simp add: mm_frag_node_def)
  then show ?thesis using s'(3,4) pay_mono [OF s'(5) k(2)] k(2)
    by (intro exI [of _ s'] exI [of _ n] exI [of _ "[]"]) simp
next
  case False
  let ?x = "a + 8 * k" and ?c = "cut a k n s"
  have kn: "k + 2 \<le> n" using False by simp
  note C = step_cut [OF H k(1) kn, of F]
  have C': "hinv fs ?c {} ((xs @ [(a, k, al)]) @ (?x, n - k, False) # ys) F" using C by simp
  have A: "of_nat ?x \<notin> (of_nat ` (addrs xs \<union> {a} \<union> addrs ys) :: ptr set)"
    using hinv_distinct [OF C'] by simp
  then have x: "of_nat ?x \<notin> F" using hinv_bounds(8) [OF H(1)] by auto
  obtain s' where s': "mm_insert (of_nat ?x) ?c = Some s'"
      "hinv fs s' {} ((xs @ [(a, k, al)]) @ (?x, n - k, False) # ys) (insert (of_nat ?x) F)"
      "keep (insert (of_nat ?x) F) ((xs @ [(a, k, al)]) @ (?x, n - k, False) # ys) ?c s'"
    using step_insert [OF C' x] by blast
  have "keep F (xs @ (a, k, al) # ys) ?c s'"
    by (rule keep_insert [OF s'(3)]) (use A in auto)
  note K = this
  have "keep F (xs @ ys) ?c s' \<and> pay ?c s' a k"
    by (rule conjI [OF keep_sub [OF K] keep_pay [OF K _ H(3)]]) auto
  then have "keep F (xs @ ys) s s'" "pay s s' a k" using C keep_trans pay_trans by blast+
  moreover have "mm_frag_node (of_nat a) (of_nat k) s = Some (of_nat a, s')"
    using frag_cut [OF H(1) k(1) kn] s'(1) by simp
  ultimately show ?thesis using s'(2) k(2)
    by (intro exI [of _ s'] exI [of _ k] exI [of _ "[(?x, n - k, False)]"]) simp
qed

lemma step_grow:
  assumes H: "hinv fs s {} segs F" and n: "2 \<le> n" "unat (mem_brk s) + 8 * n \<le> unat (mem_max_addr s)"
  defines "s' \<equiv> grow n s" and "e \<equiv> epi s"
  shows "hinv fs s' {e + 8 * n} (segs @ [(e, n, True)]) F \<and> keep {} segs s s'"
proof -
  note B = hinv_bounds [OF H]
  let ?b = "e + 8 * n"
  have u: "unat (mem_brk s + of_nat (8 * n)) = unat (mem_brk s) + 8 * n"
    using n B(3) unat_add_lem [of "mem_brk s" "of_nat (8 * n)"] by (simp add: unat_of del: of_nat_mult)
  have bounds: "mem_start_brk s' = mem_start_brk s" "mem_max_addr s' = mem_max_addr s"
    "mem_brk s' = mem_brk s + of_nat (8 * n)"
    by (simp_all add: s'_def grow_def Let_def wr_bits_def fill_def)
  then have l: "lo s' = lo s" "epi s' = ?b" using u B(1) by (simp_all add: lo_def epi_def e_def)
  have byte: "mem_bytes s' i = mem_bytes s i" if "i < e + 4" for i
    using that n(1) by (simp add: s'_def grow_def Let_def wr_bits_def fill_def wr32_other e_def)
  have pv: "hprev s' x = hprev s x" if "x \<le> e" for x
    unfolding hprev_def using that byte by (intro rd32_cong) simp
  have bt: "hbits s' x = hbits s x" if "x + 8 \<le> e" for x
    unfolding hbits_def using that byte by (intro rd32_cong) simp
  have sep: "sep8 e ?b" "sep8 ?b e" "e \<noteq> ?b" "sep8 e e" "sep8 ?b ?b" using n(1) by (auto simp: sep8_def)
  have hb: "hbits (s\<lparr>mem_brk := v\<rparr>) x = hbits s x" for v x by (simp add: hbits_def)
  have sz: "take_bit 29 (of_nat n :: 32 word) = of_nat n" using n B(3) by (intro size_of) simp
  have ne: "hbits s' ?b = 0" "seg_at s' e n True"
    using sep sz B(6) by (simp_all add: s'_def grow_def Let_def hdr_wr e_def [symmetric] seg_at_def hb)
  have ch: "chain s (lo s + 24) segs e" using H by (simp add: hinv_def e_def)
  have M: "x + 16 \<le> e" if "x \<in> addrs segs" for x using hinv_addrs(2) [OF H that] by (simp add: e_def)
  have "chain s' (lo s + 24) segs e = chain s (lo s + 24) segs e"
    using M bt by (intro chain_cong) (fastforce simp: seg_at_def addrs_def)
  then have c: "chain s' (lo s + 24) (segs @ [(e, n, True)]) ?b"
    using ch ne(2) n(1) by (auto simp: chain_append)
  have "links s' {?b} 0 segs e"
  proof (rule links_cong)
    show "links s {} 0 segs e" using H by (simp add: hinv_def e_def)
    show "x \<notin> {} \<and> hprev s' x = hprev s x" if "x \<in> addrs segs \<union> {e}" for x
      using that M pv by fastforce
  qed
  then have k: "links s' {?b} 0 (segs @ [(e, n, True)]) ?b" by (simp add: links_append)
  have "tree_same F s s'"
  proof -
    have "mem_bytes s' i = mem_bytes s i" if p: "p \<in> F" and i: "i < unat p + 16" for p i
    proof -
      obtain x where x: "x \<in> addrs segs" "p = of_nat x" using B(8) p by auto
      then show ?thesis using byte i M [OF x(1)] hinv_addrs(3) [OF H x(1)] by (simp add: unat_of)
    qed
    then show ?thesis
      using bounds byte data_null_unat [OF H] B(4) by (auto simp: tree_same_def e_def lo_def)
  qed
  then have "fs s' F" using stable B(7) by blast
  moreover have "keep {} segs s s'"
    using hinv_mem(2) [OF H] byte bounds by (fastforce simp: keep_def pay_def e_def same_area_def)
  ultimately show ?thesis
    using c k ne(1) l B n u bounds by (auto simp: hinv_def)
qed

lemma grow_run:
  assumes H: "hinv fs s {} segs F" and n: "2 \<le> n" "unat (mem_brk s) + 8 * n \<le> unat (mem_max_addr s)" "8 * n < 2147483648"
  shows "mem_sbrk (of_nat (8 * n)) s = (mem_brk s, s\<lparr>mem_brk := mem_brk s + of_nat (8 * n)\<rparr>)"
    "mem_brk s - MM_HEADER_SIZE = of_nat (epi s)"
    "do { t \<leftarrow> set_size (of_nat (epi s)) (of_nat n) (s\<lparr>mem_brk := mem_brk s + of_nat (8 * n)\<rparr>);
        t \<leftarrow> mm_clear_header (of_nat (epi s) + of_nat (8 * n)) t;
        set_alloc (of_nat (epi s)) True t } = Some (grow n s)"
proof -
  note B = hinv_bounds [OF H]
  let ?s = "s\<lparr>mem_brk := mem_brk s + of_nat (8 * n)\<rparr>" and ?e = "epi s"
  have u: "unat (mem_brk s + of_nat (8 * n)) = unat (mem_brk s) + 8 * n"
    using n B(3) unat_add_lem [of "mem_brk s" "of_nat (8 * n)"] by (simp add: unat_of del: of_nat_mult)
  have un: "unat (of_nat (8 * n) :: c_int) = 8 * n" using n(3) by (intro unat_of) simp
  have "\<not> of_nat (8 * n) <s (0 :: c_int)"
    unfolding word_sless_alt using sint_neg_unat [of "of_nat (8 * n)"] un n(3) by simp
  moreover have "\<not> mem_max_addr s < mem_brk s + of_nat (8 * n)"
    using u n(2) by (simp add: word_less_nat_alt)
  ultimately show "mem_sbrk (of_nat (8 * n)) s = (mem_brk s, ?s)" by (simp add: mem_sbrk_def Let_def)
  have "mem_brk s = of_nat (?e + 8)" using B(1) by simp
  then show "mem_brk s - MM_HEADER_SIZE = of_nat ?e" by simp
  have ok: "hdr_ok ?s ?e" "hdr_ok ?s (?e + 8 * n)" "hbits ?s ?e = hbits s ?e"
    using B n by (auto simp: hdr_ok_def lo_def hbits_def)
  have "sep8 (?e + 8 * n) ?e" "sep8 ?e ?e" "?e + 8 * n \<noteq> ?e" using n(1) by (auto simp: sep8_def)
  then show "do { t \<leftarrow> set_size (of_nat ?e) (of_nat n) ?s;
      t \<leftarrow> mm_clear_header (of_nat ?e + of_nat (8 * n)) t; set_alloc (of_nat ?e) True t } = Some (grow n s)"
    using ok clear_header [of _ "?e + 8 * n"]
    by (simp add: hdr_set grow_def Let_def hdr_wr del: of_nat_add of_nat_mult add: of_nat_add [symmetric])
qed

lemma sbrk_run:
  assumes H: "hinv fs s {} segs F"
    and k: "1 \<le> k" "unat (mem_brk s) + max 144 (8 * k) \<le> unat (mem_max_addr s)" "8 * k < 2147483648"
  shows "mm_sbrk (of_nat (8 * k)) s =
    (if k < 18 then mm_frag_node (of_nat (epi s)) (of_nat (k + 1)) (grow 18 s)
     else do {
       next \<leftarrow> mm_get_next (of_nat (epi s)) (grow k s);
       t \<leftarrow> set_prev next (of_nat (epi s)) (grow k s);
       Some (of_nat (epi s), t) })"
proof (cases "k < 18")
  case True
  then have lt: "of_nat (8 * k) < MM_UNIT" using of_nat_less [of "8 * k" 144] by simp
  have sz: "drop_bit 3 (of_nat (8 * k) + 8 :: 32 word) = of_nat (k + 1)"
    using drop3_of_nat [of "8 * k + 8"] True by (simp add: add.commute)
  have n: "2 \<le> (18::nat)" "unat (mem_brk s) + 8 * 18 \<le> unat (mem_max_addr s)" "8 * 18 < (2147483648::nat)"
    using k by auto
  obtain t u where "set_size (of_nat (epi s)) (of_nat 18) (s\<lparr>mem_brk := mem_brk s + of_nat (8 * 18)\<rparr>) = Some t"
      "mm_clear_header (of_nat (epi s) + of_nat (8 * 18)) t = Some u" "set_alloc (of_nat (epi s)) True u = Some (grow 18 s)"
    using grow_run(3) [OF H n] by (auto simp: bind_eq_Some_conv)
  moreover have "mem_brk s = of_nat (epi s) + 8" using grow_run(2) [OF H n] by (simp add: algebra_simps)
  ultimately show ?thesis
    using grow_run(1,2) [OF H n] True lt sz by (simp add: mm_sbrk_def Let_def add.commute [of 144] del: of_nat_mult of_nat_add)
next
  case False
  then have lt: "\<not> of_nat (8 * k) < MM_UNIT" using of_nat_less [of "8 * k" 144] k(3) by simp
  have sz: "drop_bit 3 (of_nat (8 * k) :: 32 word) = of_nat k"
    using drop3_of_nat [of "8 * k"] k(3) by simp
  have n: "2 \<le> k" "unat (mem_brk s) + 8 * k \<le> unat (mem_max_addr s)" "8 * k < (2147483648::nat)"
    using k False by auto
  obtain t u where "set_size (of_nat (epi s)) (of_nat k) (s\<lparr>mem_brk := mem_brk s + of_nat (8 * k)\<rparr>) = Some t"
      "mm_clear_header (of_nat (epi s) + of_nat (8 * k)) t = Some u" "set_alloc (of_nat (epi s)) True u = Some (grow k s)"
    using grow_run(3) [OF H n] by (auto simp: bind_eq_Some_conv)
  then show ?thesis
    using grow_run(1,2) [OF H n] False lt sz by (simp add: mm_sbrk_def Let_def del: of_nat_mult of_nat_add)
qed

text \<open>\<open>mm_sbrk\<close> returns the new segment, of at least the units it was asked for.\<close>

lemma sbrk_spec:
  assumes H: "hinv fs s {} segs F"
    and k: "1 \<le> k" "unat (mem_brk s) + max 144 (8 * k) \<le> unat (mem_max_addr s)" "8 * k < 2147483648"
  shows "\<exists>s' n ms. mm_sbrk (of_nat (8 * k)) s = Some (of_nat (epi s), s') \<and> k \<le> n \<and>
    allocs ms = {} \<and> hinv fs s' {} (segs @ (epi s, n, True) # ms) (frees ms \<union> F) \<and> keep F segs s s'"
proof -
  let ?n = "max 18 k" and ?e = "epi s"
  have n: "2 \<le> ?n" "unat (mem_brk s) + 8 * ?n \<le> unat (mem_max_addr s)" using k by auto
  let ?s = "grow ?n s"
  have X: "hinv fs ?s {?e + 8 * ?n} (segs @ (?e, ?n, True) # []) F" "keep {} segs s ?s"
    using step_grow [OF H n] by simp_all
  have e: "of_nat ?e \<notin> F" using hinv_distinct [OF X(1)] hinv_bounds(8) [OF H] by auto
  note R = sbrk_run [OF H k]
  show ?thesis
  proof (cases "k < 18")
    case True
    obtain s' k' ms where s': "mm_frag_node (of_nat ?e) (of_nat (k + 1)) ?s = Some (of_nat ?e, s')" "k + 1 \<le> k'"
        "allocs ms = {}" "hinv fs s' {} (segs @ (?e, k', True) # ms @ []) (frees ms \<union> F)" "keep F (segs @ []) ?s s'"
      using frag [OF X(1) _ e, of "k + 1"] True k by auto
    have "keep F segs s s'" using keep_trans [OF keep_mono [OF X(2)]] s'(5) by simp
    then show ?thesis using s' R True
      by (intro exI [of _ s'] exI [of _ k'] exI [of _ ms]) (simp add: max_def)
  next
    case False
    obtain s' where s': "mm_get_next (of_nat ?e) ?s = Some (of_nat (?e + 8 * ?n))"
        "set_prev (of_nat (?e + 8 * ?n)) (of_nat ?e) ?s = Some s'"
        "hinv fs s' {} (segs @ (?e, ?n, True) # []) F" "keep F (segs @ []) ?s s'"
      using step_link [OF X(1) _ e] by blast
    have "keep F segs s s'" using keep_trans [OF keep_mono [OF X(2)]] s'(4) by simp
    then show ?thesis using s' R False
      by (intro exI [of _ s'] exI [of _ ?n] exI [of _ "[]"]) (simp add: max_def)
  qed
qed

end

end
