(* ===== verification/MmOps.thy ===== *)
theory MmOps
  imports MmSteps
begin

text \<open>
  \<open>mm_malloc\<close>, \<open>mm_free\<close> and \<open>mm_realloc\<close> of \<open>malloclab-handout/mm.c\<close> on a heap that
  satisfies the invariant: they return, keep it, change the set of allocated blocks as they
  should and leave the contents of the other blocks alone.
\<close>

subsection \<open>Sizes in units\<close>

definition units :: "c_uint \<Rightarrow> nat" where
  "units sz = (unat sz + 7) div 8 + 1"

lemma and_not_7: "(x :: c_uint) AND NOT 7 = push_bit 3 (drop_bit 3 x)"
proof (rule bit_word_eqI)
  fix n assume "n < LENGTH(32)"
  have "bit (7 :: c_uint) n \<longleftrightarrow> n < 3"
    using bit_mask_iff [of 3 n, where 'a = "c_uint"] \<open>n < _\<close> by (simp add: mask_eq_exp_minus_1)
  then show "bit (x AND NOT 7) n = bit (push_bit 3 (drop_bit 3 x)) n"
    using \<open>n < _\<close> by (auto simp: bit_simps)
qed

lemma align_units:
  assumes "unat sz + 15 < 4294967296"
  shows "drop_bit 3 (ALIGN sz + 8) = of_nat (units sz)"
proof -
  have u: "unat (sz + 7) = unat sz + 7" using assms unat_add_lem [of sz 7] by simp
  let ?q = "(unat sz + 7) div 8"
  have "?q < 4294967296" using assms by linarith
  then have "drop_bit 3 (sz + 7) = of_nat ?q" using u by (simp add: word_unat_eq_iff unat_shr unat_of)
  then have "ALIGN sz = of_nat (8 * ?q)"
    unfolding ALIGN_def and_not_7 by (simp add: push_bit_eq_mult mult.commute)
  then have "ALIGN sz + 8 = of_nat (8 * ?q + 8)" by simp
  moreover have "8 * ?q + 8 < 4294967296" using assms by linarith
  ultimately show ?thesis using drop3_of_nat [of "8 * ?q + 8"] by (simp add: units_def)
qed

lemma units_bounds: "unat sz + 8 \<le> 8 * units sz" "8 * units sz \<le> unat sz + 15" "1 \<le> unat sz \<Longrightarrow> 2 \<le> units sz"
  using div_mult_mod_eq [of "unat sz + 7" 8] mod_less_divisor [of 8 "unat sz + 7"]
  by (simp_all add: units_def)

lemma push3_of_nat: "push_bit 3 (of_nat k :: 32 word) = of_nat (8 * k)"
  by (simp add: push_bit_eq_mult mult.commute)

subsection \<open>Allocated and free segments\<close>

lemma alloc_not_free:
  assumes "hinv fs s E segs F" "(a, n, True) \<in> set segs"
  shows "of_nat a \<notin> frees segs"
proof
  assume "of_nat a \<in> frees segs"
  then obtain y m where y: "(y, m, False) \<in> set segs" "(of_nat a :: ptr) = of_nat y" by (auto simp: frees_def)
  have "a = y" using y(2) of_nat_inj hinv_mem(6) [OF assms] hinv_mem(6) [OF assms(1) y(1)] by blast
  then show False using hinv_disj [OF assms y(1)] hinv_mem(3) [OF assms] hinv_mem(3) [OF assms(1) y(1)] by simp
qed

text \<open>All blocks but those at the addresses \<open>X\<close> keep their contents.\<close>

definition kept :: "nat set \<Rightarrow> seg list \<Rightarrow> heap \<Rightarrow> heap \<Rightarrow> bool" where
  "kept X segs s s' \<longleftrightarrow> same_area s s' \<and> (\<forall>(a, n)\<in>allocs segs. a \<notin> X \<longrightarrow> pay s s' a n)"

lemma kept_trans: "kept X segs s s' \<Longrightarrow> kept X segs s' s'' \<Longrightarrow> kept X segs s s''"
  unfolding kept_def using pay_trans same_area_trans by blast

lemma kept_mono: "kept X segs s s' \<Longrightarrow> X \<subseteq> Y \<Longrightarrow> kept Y segs s s'"
  by (auto simp: kept_def)

lemma kept_sub:
  assumes "kept X L s s'" "\<And>x m. (x, m) \<in> allocs segs \<Longrightarrow> x \<notin> Y \<Longrightarrow> (x, m) \<in> allocs L \<and> x \<notin> X"
  shows "kept Y segs s s'"
  using assms unfolding kept_def by blast

lemma keep_kept: "hinv fs s E segs F \<Longrightarrow> keep (frees segs) segs t t' \<Longrightarrow> kept {} segs t t'"
  using alloc_not_free by (fastforce simp: kept_def allocs_def keep_def)

lemma frees_mid:
  assumes "hinv fs s E (xs @ (a, n, al) # ys) F"
  shows "of_nat a \<notin> frees xs \<union> frees ys"
  using hinv_distinct [OF assms] by (force simp: frees_def addrs_def)

lemma allocs_mid:
  assumes "hinv fs s E (xs @ (a, n, al) # ys) F"
  shows "(a, m) \<notin> allocs xs \<union> allocs ys"
  using hinv_distinct [OF assms] by (force simp: allocs_def addrs_def)

lemma keep_allocs:
  assumes "keep P (xs @ ys) s s'" "P \<subseteq> frees xs \<union> frees ys" "hinv fs t E (xs @ (a, n, al) # ys) F"
  shows "kept {a} (xs @ (a, n, al) # ys) s s'"
proof -
  have "pay s s' x m" if x: "(x, m, True) \<in> set (xs @ (a, n, al) # ys)" "x \<noteq> a" for x m
  proof (rule keep_pay [OF assms(1)])
    show "(x, m, True) \<in> set (xs @ ys)" using x by auto
    show "of_nat x \<notin> P" using alloc_not_free [OF assms(3) x(1)] assms(2) by (auto split: if_splits)
  qed
  then show ?thesis using assms(1) by (auto simp: kept_def allocs_def keep_def)
qed

lemma keep_kept_sub:
  assumes "keep {} L s s'" "\<And>x m. (x, m) \<in> allocs segs \<Longrightarrow> x \<notin> X \<Longrightarrow> (x, m) \<in> allocs L"
  shows "kept X segs s s'"
  using assms by (fastforce simp: kept_def keep_def allocs_def)

subsection \<open>Coalescing\<close>

text \<open>The segments after the one at \<open>a\<close> has been freed: it is merged with a free segment before it and
  with a free segment behind it. \<open>merge_prev\<close> and \<open>merge_next\<close> are the two merges.\<close>

fun merge_next :: "nat \<Rightarrow> nat \<Rightarrow> seg list \<Rightarrow> seg list" where
  "merge_next b k ((c, m, False) # zs) = (b, k + m, False) # zs"
| "merge_next b k zs = (b, k, False) # zs"

definition merge_prev :: "seg list \<Rightarrow> nat \<Rightarrow> nat \<Rightarrow> seg list \<times> nat \<times> nat" where
  "merge_prev xs a n =
    (if xs \<noteq> [] \<and> \<not> snd (snd (last xs)) then (butlast xs, fst (last xs), fst (snd (last xs)) + n) else (xs, a, n))"

fun free_in :: "nat \<Rightarrow> seg list \<Rightarrow> seg list" where
  "free_in a [] = []"
| "free_in a ((b, k, al) # zs) =
    (if b = a then merge_next b k zs
     else case zs of
       (c, m, _) # us \<Rightarrow> if c = a \<and> \<not> al then merge_next b (k + m) us else (b, k, al) # free_in a zs
     | [] \<Rightarrow> [(b, k, al)])"

text \<open>No two free segments follow each other.\<close>

fun coalesced :: "seg list \<Rightarrow> bool" where
  "coalesced ((a, n, al) # (b, m, bl) # xs) \<longleftrightarrow> (al \<or> bl) \<and> coalesced ((b, m, bl) # xs)"
| "coalesced _ \<longleftrightarrow> True"

lemma free_in_mid:
  assumes "a \<notin> addrs xs" "merge_prev xs a n = (zs, b, k)"
  shows "free_in a (xs @ (a, n, True) # ys) = zs @ merge_next b k ys"
  using assms
proof (induction xs arbitrary: zs)
  case (Cons x xs)
  obtain c m cl where x: "x = (c, m, cl)" by (cases x)
  show ?case
  proof (cases xs)
    case Nil
    then show ?thesis using Cons.prems by (auto simp: x merge_prev_def split: if_splits)
  next
    case (Cons y ws)
    then obtain us where u: "merge_prev xs a n = (us, b, k)" "zs = x # us"
      using Cons.prems(2) by (auto simp: merge_prev_def split: if_splits)
    have "free_in a (xs @ (a, n, True) # ys) = us @ merge_next b k ys"
      using Cons.IH [OF _ u(1)] Cons.prems(1) by (simp add: x)
    then show ?thesis using Cons.prems(1) Cons u(2) by (cases y) (auto simp: x)
  qed
qed (simp add: merge_prev_def)

lemma coalesced_Cons:
  "coalesced (x # xs) \<longleftrightarrow> coalesced xs \<and> (xs \<noteq> [] \<longrightarrow> snd (snd x) \<or> snd (snd (hd xs)))"
  by (cases "x # xs" rule: coalesced.cases) auto

lemma coalesced_append:
  "coalesced (xs @ ys) \<longleftrightarrow> coalesced xs \<and> coalesced ys \<and>
    (xs \<noteq> [] \<and> ys \<noteq> [] \<longrightarrow> snd (snd (last xs)) \<or> snd (snd (hd ys)))"
proof (induction xs)
  case (Cons x xs)
  then show ?case by (cases xs; cases ys) (auto simp: coalesced_Cons)
qed simp

lemma coalesced_free:
  assumes "coalesced (xs @ (a, n, True) # ys)" "merge_prev xs a n = (zs, b, k)"
  shows "coalesced (zs @ merge_next b k ys)"
proof -
  have c: "coalesced xs" "coalesced ys" using assms(1) coalesced_append [of "xs @ [(a, n, True)]" ys]
    by (simp_all add: coalesced_append)
  have z: "coalesced zs \<and> (zs \<noteq> [] \<longrightarrow> snd (snd (last zs)))"
  proof (cases "xs = [] \<or> snd (snd (last xs))")
    case False
    then obtain us e m where "xs = us @ [(e, m, False)]" by (metis append_butlast_last_id prod.collapse)
    then show ?thesis using c(1) assms(2) by (auto simp: merge_prev_def coalesced_append)
  qed (use c(1) assms(2) in \<open>auto simp: merge_prev_def\<close>)
  have m: "coalesced (merge_next b k ys)"
    using c(2) by (cases "(b, k, ys)" rule: merge_next.cases) (auto elim: coalesced.elims)
  show ?thesis using z m by (auto simp: coalesced_append)
qed

context free_store
begin

lemma malloc_spec:
  assumes H: "hinv fs s {} segs (frees segs)" and sz: "1 \<le> unat sz" "unat sz < 2147483000"
    and room: "unat (mem_brk s) + max 144 (unat sz + 15) \<le> unat (mem_max_addr s)"
  shows "\<exists>a n s' segs'. mm_malloc ub sz s = Some (of_nat (a + 8), s') \<and> hinv fs s' {} segs' (frees segs') \<and>
    (a, n) \<notin> allocs segs \<and> allocs segs' = insert (a, n) (allocs segs) \<and> units sz \<le> n \<and> kept {} segs s s'"
proof -
  let ?k = "units sz"
  have k: "drop_bit 3 (ALIGN sz + 8) = of_nat ?k" "2 \<le> ?k" "8 * ?k \<le> unat sz + 15"
    using align_units [of sz] units_bounds [of sz] sz by simp_all
  obtain p where p: "mm_search (of_nat ?k) s = Some p" "best_fit (sizes (node_at s)) (frees segs) (of_nat ?k) p"
    using search hinv_bounds(7) [OF H] by blast
  show ?thesis
  proof (cases "p = NULL")
    case True
    have "unat (mem_brk s) + max 144 (8 * ?k) \<le> unat (mem_max_addr s)" using room k(3) by linarith
    then obtain s' n ms where s': "mm_sbrk (of_nat (8 * ?k)) s = Some (of_nat (epi s), s')" "?k \<le> n" "allocs ms = {}"
        "hinv fs s' {} (segs @ (epi s, n, True) # ms) (frees ms \<union> frees segs)" "keep (frees segs) segs s s'"
      using sbrk_spec [OF H, of ?k] k room sz(2) by auto
    have "(epi s, n) \<notin> allocs segs"
      using hinv_mem(2,3) [OF H] by (fastforce simp: allocs_def)
    moreover have "mm_malloc ub sz s = Some (of_nat (epi s + 8), s')"
      using p(1) True s'(1) k(1) by (simp add: mm_malloc_def Let_def push3_of_nat del: of_nat_mult)
    moreover have "hinv fs s' {} (segs @ (epi s, n, True) # ms) (frees (segs @ (epi s, n, True) # ms))"
      using s'(4) by (simp add: Un_commute)
    ultimately show ?thesis using s'(2,3) keep_kept [OF H s'(5)]
      by (intro exI [of _ "epi s"] exI [of _ n] exI [of _ s'] exI [of _ "segs @ (epi s, n, True) # ms"]) simp
  next
    case False
    then have b: "p \<in> frees segs" "of_nat ?k \<le> sizes (node_at s) p" using p(2) by (simp_all add: best_fit_def)
    then obtain a n where a: "(a, n, False) \<in> set segs" "p = of_nat a" by (auto simp: frees_def)
    then obtain xs ys where segs: "segs = xs @ (a, n, False) # ys" by (auto dest: split_list)
    note H' = H [unfolded segs] note G = hinv_seg [OF H']
    have kn: "?k \<le> n"
      using b(2) G(2,5,7) of_nat_le [of ?k n] k(3) sz(2) by (simp add: sizes_def node_at_sel a(2) hbits_def)
    have fr: "frees segs - {p} = frees xs \<union> frees ys" using frees_mid [OF H'] by (auto simp: segs a(2))
    obtain s1 where s1: "mm_delete p ub s = Some s1" "hinv fs s1 {} segs (frees segs - {p})" "keep (frees segs) segs s s1"
      using step_delete [OF H b(1)] by blast
    have H1: "hinv fs s1 {} (xs @ (a, n, False) # ys) (frees xs \<union> frees ys)" 
    using s1(2) [unfolded fr] segs by simp
    obtain s2 k' ms where s2: "mm_frag_node (of_nat a) (of_nat ?k) s1 = Some (of_nat a, s2)" "?k \<le> k'" "allocs ms = {}"
        "hinv fs s2 {} (xs @ (a, k', False) # ms @ ys) (frees ms \<union> (frees xs \<union> frees ys))"
        "keep (frees xs \<union> frees ys) (xs @ ys) s1 s2"
      using frag [OF H1 _ frees_mid [OF H'] k(2) kn] by blast
    have na: "of_nat a \<notin> frees ms \<union> (frees xs \<union> frees ys)" using frees_mid [OF s2(4)] by simp
    obtain s3 where s3: "set_alloc (of_nat a) True s2 = Some s3"
        "hinv fs s3 {} (xs @ (a, k', True) # ms @ ys) (frees ms \<union> (frees xs \<union> frees ys))" "keep {} (xs @ ms @ ys) s2 s3"
      using step_alloc [OF s2(4) _ na, of True "{}"] by blast
    have "kept {a} segs s1 s2" using keep_allocs [OF s2(5) _ H'] segs by simp
    moreover have "kept {a} segs s2 s3"
      using keep_allocs [OF keep_sub [OF s3(3)] _ H'] segs by auto
    moreover have "kept {a} segs s s1" using kept_mono [OF keep_kept [OF H s1(3)]] by simp
    ultimately have "kept {a} segs s s3" by (blast intro: kept_trans)
    then have "kept {} segs s s3"
      by (rule kept_sub) (use allocs_mid [OF H'] in \<open>auto simp: segs\<close>)
    moreover have "mm_malloc ub sz s = Some (of_nat (a + 8), s3)"
      using p(1) False s1(1) s2(1) s3(1) k(1) by (simp add: mm_malloc_def Let_def a(2))
    moreover have "hinv fs s3 {} (xs @ (a, k', True) # ms @ ys) (frees (xs @ (a, k', True) # ms @ ys))"
      using s3(2) by (simp add: ac_simps)
    ultimately show ?thesis using s2(2,3) allocs_mid [OF H']
      by (intro exI [of _ a] exI [of _ k'] exI [of _ s3] exI [of _ "xs @ (a, k', True) # ms @ ys"]) (auto simp: segs)
  qed
qed

subsection \<open>mm_free\<close>

text \<open>
  The state between the steps of \<open>mm_free\<close>: the segment \<open>b\<close> that is being freed ends at
  \<open>e\<close> and is not in the free store; the others are as their \<open>alloc\<close> bits say.
\<close>

definition freeing :: "heap \<Rightarrow> seg list \<Rightarrow> nat \<Rightarrow> nat \<Rightarrow> bool \<Rightarrow> seg list \<Rightarrow> bool" where
  "freeing s xs b k bl ys \<longleftrightarrow>
     (\<exists>E. E \<subseteq> {b + 8 * k} \<and> hinv fs s E (xs @ (b, k, bl) # ys) (frees xs \<union> frees ys))"

lemma free_prev_spec:
  assumes H: "freeing s xs a n True ys"
  shows "\<exists>s' xs' b k bl. free_prev ub (hprev s a) (of_nat a) s = Some (of_nat b, s') \<and>
    freeing s' xs' b k bl ys \<and> b + 8 * k = a + 8 * n \<and> allocs xs' = allocs xs \<and>
    kept {a} (xs @ (a, n, True) # ys) s s' \<and> merge_prev xs a n = (xs', b, k)"
proof -
  obtain E where E: "E \<subseteq> {a + 8 * n}" "hinv fs s E (xs @ (a, n, True) # ys) (frees xs \<union> frees ys)"
    using H by (auto simp: freeing_def)
  have aE: "a \<notin> E" using E(1) hinvD(3) [OF E(2)] by auto
  show ?thesis
  proof (cases xs rule: rev_exhaust)
    case Nil
    then have "hprev s a = NULL" using hinvD(7) [OF E(2)] aE by (simp add: NULL_def)
    then show ?thesis using H Nil
      by (intro exI [of _ s] exI [of _ xs] exI [of _ a] exI [of _ n] exI [of _ True])
        (simp add: free_prev_def kept_def merge_prev_def)
  next
    case (snoc zs y)
    obtain c m cl where y: "y = (c, m, cl)" by (cases y)
    have E': "hinv fs s E (zs @ (c, m, cl) # (a, n, True) # ys) (frees xs \<union> frees ys)"
      using E(2) by (simp add: snoc y)
    note G = hinv_seg [OF E'] and D = hinvD [OF E']
    have c: "a = c + 8 * m" using D(4) by simp
    have pv: "hprev s a = of_nat c" using hinv_link [OF E'] aE by (simp add: c)
    have c0: "(of_nat c :: ptr) \<noteq> NULL"
      using of_nat_inj [of c 0] hdr_ok_less [OF G(1)] D(5) hinv_bounds(5) [OF E'] by (auto simp: NULL_def)
    show ?thesis
    proof (cases cl)
      case True
      then have "free_prev ub (hprev s a) (of_nat a) s = Some (of_nat a, s)"
        using hdr_get(4) [OF G(1)] G(3) c0 by (simp add: free_prev_def pv)
      then show ?thesis using H True
        by (intro exI [of _ s] exI [of _ xs] exI [of _ a] exI [of _ n] exI [of _ True])
          (simp add: kept_def merge_prev_def snoc y)
    next
      case False
      let ?F = "frees xs \<union> frees ys"
      have cF: "of_nat c \<in> ?F" using False by (simp add: snoc y)
      obtain s1 where s1: "mm_delete (of_nat c) ub s = Some s1"
          "hinv fs s1 E (zs @ (c, m, cl) # (a, n, True) # ys) (?F - {of_nat c})"
          "keep ?F (zs @ (c, m, cl) # (a, n, True) # ys) s s1"
        using step_delete [OF E' cF] by blast
      have nc: "of_nat c \<notin> frees zs \<union> frees ys" using frees_mid [OF E'] by simp
      then have fr: "?F - {of_nat c} = frees zs \<union> frees ys" using False by (auto simp: snoc y)
      note H1 = s1(2) [unfolded fr]
      have na: "of_nat a \<notin> frees zs \<union> frees ys"
        using frees_mid [OF E(2)] by (simp add: snoc y split: if_splits)
      have sub: "E \<subseteq> {c<..a + 8 * n}" using E(1) c hinvD(3) [OF E(2)] by auto
      obtain s2 where s2: "set_size (of_nat c) (of_nat m + of_nat n) s1 = Some s2"
          "hinv fs s2 {a + 8 * n} (zs @ (c, m + n, cl) # ys) (frees zs \<union> frees ys)" "keep {} (zs @ ys) s1 s2"
        using step_merge [OF H1 sub nc na] by blast
      have g: "get_size (of_nat c) s1 = Some (of_nat m)" "get_size (of_nat a) s1 = Some (of_nat n)"
        using hinv_seg [OF H1] hinv_seg [of fs s1 E "zs @ [(c, m, cl)]" a n True ys] H1 by (simp_all add: hdr_get)
      have "free_prev ub (hprev s a) (of_nat a) s = Some (of_nat c, s2)"
        using hdr_get(4) [OF G(1)] G(3) c0 s1(1) s2(1) g False by (simp add: free_prev_def pv)
      moreover have "freeing s2 zs c (m + n) cl ys"
        using s2(2) c unfolding freeing_def by (intro exI [of _ "{a + 8 * n}"]) (simp add: algebra_simps)
      moreover have "kept {a} (xs @ (a, n, True) # ys) s s1"
        by (rule keep_allocs [OF keep_sub [OF s1(3)] _ E(2)]) (auto simp: snoc y)
      moreover have "kept {a} (xs @ (a, n, True) # ys) s1 s2"
        by (rule keep_kept_sub [OF s2(3)]) (use False in \<open>auto simp: snoc y split: if_splits\<close>)
      ultimately show ?thesis using False kept_trans [of "{a}" "xs @ (a, n, True) # ys" s s1 s2]
        by (intro exI [of _ s2] exI [of _ zs] exI [of _ c] exI [of _ "m + n"] exI [of _ cl])
          (simp add: snoc y c merge_prev_def)
    qed
  qed
qed

lemma free_next_spec:
  assumes H: "freeing s xs b k bl ys"
  shows "\<exists>s' ys' m. free_next ub (of_nat (b + 8 * k)) (of_nat b) s = Some s' \<and>
    freeing s' xs b m bl ys' \<and> allocs ys' = allocs ys \<and> kept {b} (xs @ (b, k, bl) # ys) s s' \<and>
    merge_next b k ys = (b, m, False) # ys'"
proof -
  obtain E where E: "E \<subseteq> {b + 8 * k}" "hinv fs s E (xs @ (b, k, bl) # ys) (frees xs \<union> frees ys)"
    using H by (auto simp: freeing_def)
  note G = hinv_seg [OF E(2)]
  show ?thesis
  proof (cases ys)
    case Nil
    then have "hbits s (b + 8 * k) = 0" using hinvD(4) [OF E(2)] hinv_bounds(6) [OF E(2)] by simp
    then have "free_next ub (of_nat (b + 8 * k)) (of_nat b) s = Some s"
      using hdr_get(3) [OF G(6)] by (simp add: free_next_def)
    then show ?thesis using H Nil by (intro exI [of _ s] exI [of _ ys] exI [of _ k]) (simp add: kept_def)
  next
    case (Cons y zs)
    obtain c m cl where y: "y = (c, m, cl)" by (cases y)
    note E' = E(2) [unfolded Cons y]
    have c: "c = b + 8 * k" using hinvD(4) [OF E'] by simp
    have Gc: "bf_size (hbits s c) = of_nat m" "bf_flag 29 (hbits s c) = cl" "8 * m < 4294967296" "2 \<le> m" "hdr_ok s c"
      using hinv_seg [of fs s E "xs @ [(b, k, bl)]" c m cl zs] hinvD(3) [of fs s E "xs @ [(b, k, bl)]" c m cl zs] E' by simp_all
    have m0: "(of_nat m :: 32 word) \<noteq> 0"
      using of_nat_inj [of m 0] Gc(3,4) by simp
    show ?thesis
    proof (cases cl)
      case True
      then have "free_next ub (of_nat (b + 8 * k)) (of_nat b) s = Some s"
        using hdr_get(3,4) [OF Gc(5)] Gc m0 by (simp add: free_next_def flip: c)
      then show ?thesis using H True by (intro exI [of _ s] exI [of _ ys] exI [of _ k]) (simp add: kept_def Cons y)
    next
      case False
      let ?F = "frees xs \<union> frees ys"
      have cF: "of_nat c \<in> ?F" using False by (simp add: Cons y)
      obtain s1 where s1: "mm_delete (of_nat c) ub s = Some s1" "hinv fs s1 E (xs @ (b, k, bl) # ys) (?F - {of_nat c})"
          "keep ?F (xs @ (b, k, bl) # ys) s s1"
        using step_delete [OF E(2) cF] by blast
      have "of_nat c \<notin> frees xs \<union> frees zs"
        using frees_mid [of fs s E "xs @ [(b, k, bl)]" c m cl zs] E' by simp
      then have fr: "?F - {of_nat c} = frees xs \<union> frees zs" using False by (auto simp: Cons y)
      have H1: "hinv fs s1 E (xs @ (b, k, bl) # (c, m, cl) # zs) (frees xs \<union> frees zs)"
        using s1(2) fr by (simp add: Cons y)
      have sub: "E \<subseteq> {b<..c + 8 * m}" using E(1) c hinvD(3) [OF E(2)] by auto
      have nb: "of_nat b \<notin> frees xs \<union> frees zs" using frees_mid [OF H1] False by (simp add: y)
      obtain s2 where s2: "set_size (of_nat b) (of_nat k + of_nat m) s1 = Some s2"
          "hinv fs s2 {c + 8 * m} (xs @ (b, k + m, bl) # zs) (frees xs \<union> frees zs)" "keep {} (xs @ zs) s1 s2"
        using step_merge [OF H1 sub nb \<open>of_nat c \<notin> _\<close>] by blast
      have g: "get_size (of_nat b) s1 = Some (of_nat k)" "get_size (of_nat c) s1 = Some (of_nat m)"
        using hinv_seg [OF H1] hinv_seg [of fs s1 E "xs @ [(b, k, bl)]" c m cl zs] H1 by (simp_all add: hdr_get)
      have "free_next ub (of_nat (b + 8 * k)) (of_nat b) s = Some s2"
        using hdr_get(3,4) [OF Gc(5)] Gc m0 s1(1) s2(1) g False by (simp add: free_next_def flip: c)
      moreover have "freeing s2 xs b (k + m) bl zs"
        using s2(2) c unfolding freeing_def by (intro exI [of _ "{c + 8 * m}"]) (simp add: algebra_simps)
      moreover have "kept {b} (xs @ (b, k, bl) # ys) s s1"
        by (rule keep_allocs [OF keep_sub [OF s1(3)] _ E(2)]) auto
      moreover have "kept {b} (xs @ (b, k, bl) # ys) s1 s2"
        by (rule keep_kept_sub [OF s2(3)]) (use False in \<open>auto simp: Cons y split: if_splits\<close>)
      ultimately show ?thesis using False kept_trans [of "{b}" "xs @ (b, k, bl) # ys" s s1 s2]
        by (intro exI [of _ s2] exI [of _ zs] exI [of _ "k + m"]) (simp add: Cons y)
    qed
  qed
qed

lemma free_spec:
  assumes H: "hinv fs s {} segs (frees segs)" and a: "(a, n) \<in> allocs segs"
  shows "\<exists>s' segs'. mm_free ub (of_nat (a + 8)) s = Some s' \<and> hinv fs s' {} segs' (frees segs') \<and>
    allocs segs' = allocs segs - {(a, n)} \<and> kept {a} segs s s' \<and>
    segs' = free_in a segs \<and> (coalesced segs \<longrightarrow> coalesced segs')"
proof -
  obtain xs ys where segs: "segs = xs @ (a, n, True) # ys"
    using a by (auto simp: allocs_def dest: split_list)
  note H' = H [unfolded segs] note G = hinv_seg [OF H']
  have "freeing s xs a n True ys" using H' by (auto simp: freeing_def)
  then obtain s1 zs b k bl where s1: "free_prev ub (hprev s a) (of_nat a) s = Some (of_nat b, s1)"
      "freeing s1 zs b k bl ys" "b + 8 * k = a + 8 * n" "allocs zs = allocs xs" "kept {a} segs s s1"
      "merge_prev xs a n = (zs, b, k)"
    using free_prev_spec segs by blast
  obtain s2 us m where s2: "free_next ub (of_nat (b + 8 * k)) (of_nat b) s1 = Some s2"
      "freeing s2 zs b m bl us" "allocs us = allocs ys" "kept {b} (zs @ (b, k, bl) # ys) s1 s2"
      "merge_next b k ys = (b, m, False) # us"
    using free_next_spec [OF s1(2)] by blast
  obtain E where E: "E \<subseteq> {b + 8 * m}" "hinv fs s2 E (zs @ (b, m, bl) # us) (frees zs \<union> frees us)"
    using s2(2) by (auto simp: freeing_def)
  note nb = frees_mid [OF E(2)]
  obtain s3 where s3: "set_alloc (of_nat b) False s2 = Some s3"
      "hinv fs s3 E (zs @ (b, m, False) # us) (frees zs \<union> frees us)" "keep {} (zs @ us) s2 s3"
    using step_alloc [OF E(2,1) nb] by blast
  obtain s4 where s4: "mm_get_next (of_nat b) s3 = Some (of_nat (b + 8 * m))"
      "set_prev (of_nat (b + 8 * m)) (of_nat b) s3 = Some s4"
      "hinv fs s4 {} (zs @ (b, m, False) # us) (frees zs \<union> frees us)" "keep {} (zs @ us) s3 s4"
    using step_link [OF s3(2) E(1) nb] by blast
  obtain s5 where s5: "mm_insert (of_nat b) s4 = Some s5"
      "hinv fs s5 {} (zs @ (b, m, False) # us) (insert (of_nat b) (frees zs \<union> frees us))"
      "keep (insert (of_nat b) (frees zs \<union> frees us)) (zs @ (b, m, False) # us) s4 s5"
    using step_insert [OF s4(3) nb] by blast
  have "mm_free ub (of_nat (a + 8)) s = Some s5"
    using hdr_get(1) [OF G(1)] get_next [OF G(1,2)] s1(1,3) s2(1) s3(1) s4(1,2) s5(1)
    by (simp add: mm_free_def Let_def mm_get_prev_def)
  moreover have "hinv fs s5 {} (zs @ (b, m, False) # us) (frees (zs @ (b, m, False) # us))"
    using s5(2) by simp
  moreover have A: "allocs (zs @ (b, m, False) # us) = allocs segs - {(a, n)}"
    using allocs_mid [OF H'] s1(4) s2(3) by (auto simp: segs)
  moreover have "kept {a} segs s s5"
  proof -
    have ba: "(b, x) \<notin> allocs zs \<union> allocs us" for x using allocs_mid [OF E(2)] by simp
    have "kept {a} segs s1 s2"
      by (rule kept_sub [OF s2(4)]) (use s1(4) s2(3) ba in \<open>auto simp: segs\<close>)
    moreover have "kept {a} segs s2 s3" "kept {a} segs s3 s4"
      using s1(4) s2(3) by (auto intro!: keep_kept_sub [OF s3(3)] keep_kept_sub [OF s4(4)] simp: segs)
    moreover have "kept {a} segs s4 s5"
      by (rule kept_sub [OF keep_kept [OF s5(2)]]) (use s5(3) A in auto)
    ultimately show ?thesis using s1(5) by (blast intro: kept_trans)
  qed
  moreover have "a \<notin> addrs xs" using hinv_distinct [OF H'] by (auto simp: addrs_def)
  then have "zs @ (b, m, False) # us = free_in a segs" using free_in_mid [OF _ s1(6)] s2(5) segs by simp
  moreover have "coalesced segs \<longrightarrow> coalesced (zs @ (b, m, False) # us)"
    using coalesced_free [OF _ s1(6), of ys] s2(5) segs by metis
  ultimately show ?thesis by blast
qed

end

end
