(* ===== verification/MmInit.thy ===== *)
theory MmInit
  imports MmOps
begin

text \<open>
  \<open>mm_init\<close> of \<open>malloclab-handout/mm.c\<close> on a fresh heap of \<open>memlib.c\<close>: it establishes the
  invariant with no segments and an empty free store.
\<close>

definition fresh :: "heap \<Rightarrow> bool" where
  "fresh s \<longleftrightarrow> mem_brk s = mem_start_brk s \<and> 0 < lo s \<and> lo s + 32 \<le> unat (mem_max_addr s)"

lemma sbrk_ok:
  assumes "unat (mem_brk s) + n \<le> unat (mem_max_addr s)" "n < 2147483648"
  shows "mem_sbrk (of_nat n) s = (mem_brk s, s\<lparr>mem_brk := mem_brk s + of_nat n\<rparr>)"
    "unat (mem_brk s + of_nat n) = unat (mem_brk s) + n"
proof -
  have m: "unat (mem_max_addr s) < 4294967296" by (rule unat32_less)
  have un: "unat (of_nat n :: c_int) = n" using assms(2) by (intro unat_of) simp
  show u: "unat (mem_brk s + of_nat n) = unat (mem_brk s) + n"
    using assms m unat_add_lem [of "mem_brk s" "of_nat n"] un by simp
  have "\<not> of_nat n <s (0 :: c_int)"
    unfolding word_sless_alt using sint_neg_unat [of "of_nat n"] un assms(2) by simp
  moreover have "\<not> mem_max_addr s < mem_brk s + of_nat n"
    using u assms(1) by (simp add: word_less_nat_alt)
  ultimately show "mem_sbrk (of_nat n) s = (mem_brk s, s\<lparr>mem_brk := mem_brk s + of_nat n\<rparr>)"
    by (simp add: mem_sbrk_def Let_def)
qed

definition init_bytes :: "nat \<Rightarrow> ptr \<Rightarrow> (nat \<Rightarrow> byte) \<Rightarrow> (nat \<Rightarrow> byte)" where
  "init_bytes l nil m =
    (let m = (\<lambda>i. if l \<le> i \<and> i < l + 24 then 0 else m i);
         m = wr32 m l nil;
         m = wr32 m (l + 8) (bf_set_flag 30 False (rd32 m (l + 8)));
         m = wr32 m (l + 8) (bf_set_flag 31 True (rd32 m (l + 8)))
     in (\<lambda>i. if l + 24 \<le> i \<and> i < l + 32 then 0 else m i))"

lemma rd32_zero: "(\<And>i. a \<le> i \<Longrightarrow> i < a + 4 \<Longrightarrow> m i = 0) \<Longrightarrow> rd32 m a = 0"
  by (simp add: rd32_def)

lemma rd32_if_other:
  "a + 4 \<le> b \<or> c \<le> a \<Longrightarrow> rd32 (\<lambda>i. if b \<le> i \<and> i < c then v else m i) a = rd32 m a"
  by (rule rd32_cong) auto

lemma init_bytes_facts:
  "rd32 (init_bytes l nil m) l = nil"
  "rd32 (init_bytes l nil m) (l + 8) = bf_set_flag 31 True (bf_set_flag 30 False 0)"
  "rd32 (init_bytes l nil m) (l + 24) = 0" "rd32 (init_bytes l nil m) (l + 28) = 0"
  by (simp_all add: init_bytes_def Let_def rd32_if_other rd32_wr32_other rd32_zero)

lemma mm_init_run:
  assumes "fresh s"
  shows "mm_init s = Some (s\<lparr>mem_brk := mem_brk s + 32, mem_bytes := init_bytes (lo s) (data_null s) (mem_bytes s)\<rparr>)"
proof -
  have b: "unat (mem_brk s) = lo s" "mem_brk s = mem_start_brk s" "lo s + 32 \<le> unat (mem_max_addr s)"
    using assms by (simp_all add: fresh_def lo_def)
  have m: "unat (mem_max_addr s) < 4294967296" by (rule unat32_less)
  have nu: "unat (data_null s) = lo s + 4"
    using b m unat_add_lem [of "mem_start_brk s" 4] by (simp add: data_null_def mem_heap_lo_def lo_def)
  have b24: "unat (mem_start_brk s + 24) = lo s + 24" using sbrk_ok(2) [of s 24] b by simp
  have s1: "mem_sbrk 24 s = (mem_brk s, s\<lparr>mem_brk := mem_brk s + 24\<rparr>)"
    using sbrk_ok(1) [of s 24] b by simp
  have s2: "mem_sbrk 8 (s\<lparr>mem_brk := mem_brk s + 24, mem_bytes := M\<rparr>) =
      (mem_brk s + 24, s\<lparr>mem_brk := mem_brk s + 32, mem_bytes := M\<rparr>)" for M
    using sbrk_ok(1) [of "s\<lparr>mem_brk := mem_brk s + 24, mem_bytes := M\<rparr>" 8] b b24 by (simp add: add.assoc)
  have ok: "lo s = unat (mem_start_brk s)" by (simp add: lo_def)
  show ?thesis
    using b(3) nu b24 unfolding mm_init_def
    by (simp add: s1 Let_def memset_loop_fill mem_ok_def fill_def b(1,2) store32_def
        data_null_def mem_heap_lo_def set_color_def set_null_def set_bits_def get_bits_def load32_def s2 [unfolded b(2)]
        mm_clear_header_def mm_memset_def init_bytes_def ok [symmetric] add.commute [of "lo s"] cong: if_cong)
qed

lemma mm_init_free_set:
  assumes "fresh s"
  defines "s' \<equiv> s\<lparr>mem_brk := mem_brk s + 32, mem_bytes := init_bytes (lo s) (data_null s) (mem_bytes s)\<rparr>"
  shows "free_set s' {}"
proof -
  have m: "unat (mem_max_addr s) < 4294967296" by (rule unat32_less)
  have nu: "unat (data_null s) = lo s + 4"
    using assms(1) m unat_add_lem [of "mem_start_brk s" 4] by (simp add: fresh_def data_null_def mem_heap_lo_def lo_def)
  have d: "data_null s' = data_null s" by (simp add: s'_def data_null_def mem_heap_lo_def)
  note f = init_bytes_facts [of "lo s" "data_null s" "mem_bytes s"]
  have "rd32 (mem_bytes s') (unat (data_null s) + 4) = bf_set_flag 31 True (bf_set_flag 30 False 0)"
    using f(2) by (simp add: nu s'_def add.commute)
  then have "n_null (node_at s' (data_null s))" "\<not> n_color (node_at s' (data_null s))"
    by (simp_all add: node_at_sel)
  moreover have "region {data_null s} s'" "above_root {data_null s} s'"
    using assms(1) nu by (simp_all add: region_def apart_def node_ok_def mem_ok_def above_root_def s'_def fresh_def lo_def)
  moreover have "root_word s' = data_null s" using f(1) by (simp add: root_word_def s'_def lo_def)
  ultimately have "tree_in {data_null s} s' Leaf"
    by (simp add: tree_in_def d ns.rep_def ns.is_nil_def)
  then show ?thesis
    unfolding free_set_def d by (intro exI [of _ Leaf]) (simp add: rb_inv_def ordered_def)
qed

lemma mm_init_inv:
  assumes "fresh s"
  shows "\<exists>s'. mm_init s = Some s' \<and> heap_inv s' [] \<and> unat (mem_brk s') = lo s + 32 \<and>
    mem_start_brk s' = mem_start_brk s \<and> mem_max_addr s' = mem_max_addr s"
proof -
  define s' where "s' = s\<lparr>mem_brk := mem_brk s + 32, mem_bytes := init_bytes (lo s) (data_null s) (mem_bytes s)\<rparr>"
  have b: "unat (mem_brk s') = lo s + 32" "mem_start_brk s' = mem_start_brk s" "mem_max_addr s' = mem_max_addr s"
    "mem_bytes s' = init_bytes (lo s) (data_null s) (mem_bytes s)"
    using assms sbrk_ok(2) [of s 32] by (simp_all add: fresh_def lo_def s'_def)
  have l: "lo s' = lo s" "epi s' = lo s + 24" using b by (simp_all add: lo_def epi_def)
  have "free_set s' {}" using mm_init_free_set [OF assms] by (simp add: s'_def)
  then have "heap_inv s' []"
    using assms b init_bytes_facts [of "lo s" "data_null s" "mem_bytes s"]
    by (simp add: heap_inv_def hinv_def l hprev_def hbits_def fresh_def add.commute)
  then show ?thesis using mm_init_run [OF assms] b by (simp add: s'_def [symmetric])
qed

end
