(* ===== verification/MmRealloc.thy ===== *)
theory MmRealloc
  imports MmInit
begin

text \<open>
  \<open>mm_realloc\<close> of \<open>malloclab-handout/mm.c\<close>: its two loops over the free segments behind the
  block, and the three ways it goes on.
\<close>

definition usum :: "seg list \<Rightarrow> nat" where
  "usum xs = sum_list (map (\<lambda>(a, n, al). n) xs)"

text \<open>The units of the free segments at the head of a list.\<close>

fun lead :: "seg list \<Rightarrow> nat" where
  "lead [] = 0"
| "lead ((a, n, al) # xs) = (if al then 0 else n + lead xs)"

lemma usum_simps [simp]: "usum [] = 0" "usum ((a, n, al) # xs) = n + usum xs"
  by (simp_all add: usum_def)

lemma lead_append_free: "allocs xs = {} \<Longrightarrow> lead (xs @ ys) = usum xs + lead ys"
  by (induction xs rule: lead.induct) (auto split: if_splits)

lemma hinv_elem:
  assumes "hinv fs s E segs F" "(c, m, cl) \<in> set segs"
  shows "hdr_ok s c" "bf_size (hbits s c) = of_nat m" "bf_flag 29 (hbits s c) = cl" "(of_nat m :: c_uint) \<noteq> 0"
  using hinv_mem [OF assms] hinv_hdr [OF assms(1), of c] of_nat_inj [of m 0] by (auto simp: seg_at_def)

lemma free_follows_seg:
  "hinv fs s E segs F \<Longrightarrow> (c, m, cl) \<in> set segs \<Longrightarrow> free_follows (of_nat c) s = Some (\<not> cl)"
  using hinv_elem [of fs s E segs F c m cl] by (simp add: free_follows_def hdr_get)

lemma size_epi: "hinv fs s E segs F \<Longrightarrow> get_size (of_nat (epi s)) s = Some 0"
  using hinv_hdr [of fs s E segs F "epi s"] hinv_bounds [of fs s E segs F] by (simp add: hdr_get)

lemma free_follows_epi: "hinv fs s E segs F \<Longrightarrow> free_follows (of_nat (epi s)) s = Some False"
  by (simp add: free_follows_def size_epi)

lemma realloc_sum_spec:
  assumes H: "hinv fs s E segs F" and k: "k < 536870912"
  shows "chain s c ys (epi s) \<Longrightarrow> set ys \<subseteq> set segs \<Longrightarrow> 8 * acc \<le> c \<Longrightarrow>
    \<exists>us rest. ys = us @ rest \<and> allocs us = {} \<and>
      realloc_sum (of_nat c) (of_nat acc) (of_nat k) s = Some (of_nat (c + 8 * usum us), of_nat (acc + usum us)) \<and>
      chain s (c + 8 * usum us) rest (epi s) \<and> (acc + usum us < k \<longrightarrow> lead rest = 0)"
proof (induction ys arbitrary: c acc)
  case Nil
  then show ?case using free_follows_epi [OF H]
    by (intro exI [of _ "[]"]) (subst realloc_sum.simps, simp)
next
  case (Cons y ys)
  obtain m cl where y: "y = (c, m, cl)" "chain s (c + 8 * m) ys (epi s)" "(c, m, cl) \<in> set segs"
    using Cons.prems by (cases y) auto
  note e = hinv_elem [OF H y(3)] and f = free_follows_seg [OF H y(3)]
  have lt: "acc < 536870912" using hdr_ok_less [OF e(1)] Cons.prems(3) by simp
  have cond: "(of_nat acc :: c_uint) < of_nat k \<longleftrightarrow> acc < k" using of_nat_less [of acc k] lt k by simp
  show ?case
  proof (cases "\<not> cl \<and> acc < k")
    case True
    obtain us rest where u: "ys = us @ rest" "allocs us = {}"
      "realloc_sum (of_nat (c + 8 * m)) (of_nat (acc + m)) (of_nat k) s =
         Some (of_nat (c + 8 * m + 8 * usum us), of_nat (acc + m + usum us))"
      "chain s (c + 8 * m + 8 * usum us) rest (epi s)" "acc + m + usum us < k \<longrightarrow> lead rest = 0"
      using Cons.IH [OF y(2), of "acc + m"] Cons.prems by auto
    show ?thesis
    proof (rule exI [of _ "y # us"], rule exI [of _ rest], intro conjI)
      show "realloc_sum (of_nat c) (of_nat acc) (of_nat k) s =
          Some (of_nat (c + 8 * usum (y # us)), of_nat (acc + usum (y # us)))"
        using True f e(2) cond u(3) get_next [OF e(1,2)] hdr_get(3) [OF e(1)]
        by (subst realloc_sum.simps) (simp add: y(1) add_mult_distrib2 add.assoc)
    qed (use u True in \<open>simp_all add: y(1) add_mult_distrib2 add.assoc\<close>)
  next
    case False
    then show ?thesis using f cond Cons.prems y(1)
      by (intro exI [of _ "[]"] exI [of _ "y # ys"]) (subst realloc_sum.simps, auto)
  qed
qed

text \<open>The copying loop, for ranges that do not overlap.\<close>

definition copy :: "nat \<Rightarrow> nat \<Rightarrow> nat \<Rightarrow> heap \<Rightarrow> heap" where
  "copy d r k s = s\<lparr>mem_bytes := (\<lambda>i. if d \<le> i \<and> i < d + k then mem_bytes s (r + (i - d)) else mem_bytes s i)\<rparr>"

lemma memcpy_loop_copy:
  "mem_ok s d k \<Longrightarrow> mem_ok s r k \<Longrightarrow> d + k \<le> r \<or> r + k \<le> d \<Longrightarrow> memcpy_loop d r k s = Some (copy d r k s)"
proof (induction k arbitrary: d r s)
  case 0
  have "(\<lambda>i. if d \<le> i \<and> i < d + 0 then mem_bytes s (r + (i - d)) else mem_bytes s i) = mem_bytes s"
    by (auto simp: fun_eq_iff)
  then show ?case by (simp add: copy_def)
next
  case (Suc k)
  let ?s = "s\<lparr>mem_bytes := (mem_bytes s)(d := mem_bytes s r)\<rparr>"
  have "memcpy_loop (Suc d) (Suc r) k ?s = Some (copy (Suc d) (Suc r) k ?s)"
    using Suc by (intro Suc.IH) (auto simp: mem_ok_def)
  moreover have "copy (Suc d) (Suc r) k ?s = copy d r (Suc k) s"
  proof -
    have "mem_bytes (copy (Suc d) (Suc r) k ?s) i = mem_bytes (copy d r (Suc k) s) i" for i
    proof (cases "Suc d \<le> i \<and> i < Suc d + k")
      case True
      then have "Suc r + (i - Suc d) = r + (i - d)" "r + (i - d) \<noteq> d" using Suc.prems(3) by auto
      then show ?thesis using True by (simp add: copy_def)
    next
      case False
      then show ?thesis by (auto simp: copy_def)
    qed
    then show ?thesis by (simp add: copy_def fun_eq_iff)
  qed
  ultimately show ?case using Suc.prems by (simp add: load8_def store8_def mem_ok_def)
qed

lemma same_bounds_copy [simp]: "same_bounds s (copy d r k s)"
  by (simp add: copy_def same_bounds_def)

context free_store
begin

lemma step_copy:
  assumes H: "hinv fs s {} (xs @ (a, n, True) # ys) F" "of_nat a \<notin> F" and k: "k + 8 \<le> 8 * n"
  shows "hinv fs (copy (a + 8) r k s) {} (xs @ (a, n, True) # ys) F \<and> keep P (xs @ ys) s (copy (a + 8) r k s)"
proof -
  let ?s = "copy (a + 8) r k s"
  note D = hinvD [OF H(1)] and G = hinv_seg [OF H(1)]
  have S: "chg a (a + 8 * n) s ?s" using k by (auto simp: chg_def copy_def same_bounds_def)
  have "hbits ?s a = hbits s a" unfolding hbits_def by (rule rd32_cong) (simp add: copy_def)
  then have C: "chain ?s a [(a, n, True)] (a + 8 * n)" using D(2,3) by (simp add: seg_at_def)
  have "hprev ?s (a + 8 * n) = hprev s (a + 8 * n)"
    unfolding hprev_def using k by (intro rd32_cong) (simp add: copy_def)
  then have L: "links ?s {} a [] (a + 8 * n)" using hinv_link [OF H(1)] by simp
  show ?thesis
    using step [of s "{}" xs a n True "[]" ys F "a + 8 * n" ?s n True "[]" "{}" P] H D(2,3) S C L by simp
qed

lemma coalesce_spec:
  "hinv fs s E (xs @ (a, n, True) # ys) (frees xs \<union> frees ys) \<Longrightarrow> E \<subseteq> {a + 8 * n} \<Longrightarrow>
   k < 536870912 \<Longrightarrow> k \<le> n + lead ys \<Longrightarrow>
   \<exists>s' E' m ys'. realloc_coalesce ub (of_nat (a + 8 * n)) (of_nat a) (of_nat k) s = Some s' \<and>
     hinv fs s' E' (xs @ (a, m, True) # ys') (frees xs \<union> frees ys') \<and> E' \<subseteq> {a + 8 * m} \<and>
     k \<le> m \<and> n \<le> m \<and> allocs ys' = allocs ys \<and> pay s s' a n \<and> kept {a} (xs @ (a, n, True) # ys) s s'"
proof (induction ys arbitrary: s E n)
  case Nil
  note G = hinv_seg [OF Nil(1)]
  have "a + 8 * n = epi s" using hinvD(4) [OF Nil(1)] by simp
  then have "realloc_coalesce ub (of_nat (a + 8 * n)) (of_nat a) (of_nat k) s = Some s"
    using free_follows_epi [OF Nil(1)] by (subst realloc_coalesce.simps) (simp add: c_and_def)
  then show ?case using Nil by (intro exI [of _ s] exI [of _ E] exI [of _ n] exI [of _ "[]"]) (simp add: kept_def)
next
  case (Cons y ys)
  obtain c m cl where y: "y = (c, m, cl)" by (cases y)
  note H = Cons.prems(1) [unfolded y] note G = hinv_seg [OF H]
  have c: "c = a + 8 * n" using hinvD(4) [OF H] by simp
  have el: "(c, m, cl) \<in> set (xs @ (a, n, True) # (c, m, cl) # ys)" by simp
  note e = hinv_elem [OF H el] and f = free_follows_seg [OF H el]
  have cond: "(of_nat n :: c_uint) < of_nat k \<longleftrightarrow> n < k"
    using of_nat_less [of n k] G(5) Cons.prems(3) by simp
  show ?case
  proof (cases "\<not> cl \<and> n < k")
    case False
    then have "realloc_coalesce ub (of_nat (a + 8 * n)) (of_nat a) (of_nat k) s = Some s"
      using f cond G(2) hdr_get(3) [OF G(1)] c by (subst realloc_coalesce.simps) (auto simp: c_and_def)
    moreover have "k \<le> n" using False Cons.prems(4) by (auto simp: y)
    ultimately show ?thesis using Cons.prems
      by (intro exI [of _ s] exI [of _ E] exI [of _ n] exI [of _ "y # ys"]) (simp add: kept_def)
  next
    case True
    let ?F = "frees xs \<union> frees (y # ys)"
    have cF: "of_nat c \<in> ?F" using True by (simp add: y)
    obtain s1 where s1: "mm_delete (of_nat c) ub s = Some s1"
        "hinv fs s1 E (xs @ (a, n, True) # y # ys) (?F - {of_nat c})" "keep ?F (xs @ (a, n, True) # y # ys) s s1"
      using step_delete [OF Cons.prems(1) cF] by blast
    have nc: "of_nat c \<notin> frees xs \<union> frees ys"
      using frees_mid [of fs s E "xs @ [(a, n, True)]" c m cl ys] H by simp
    then have fr: "?F - {of_nat c} = frees xs \<union> frees ys" using True by (auto simp: y)
    have H1: "hinv fs s1 E (xs @ (a, n, True) # (c, m, cl) # ys) (frees xs \<union> frees ys)"
      using s1(2) [unfolded fr] by (simp add: y)
    have na: "of_nat a \<notin> ?F" using frees_mid [OF Cons.prems(1)] .
    have sub: "E \<subseteq> {a<..c + 8 * m}" using Cons.prems(2) c hinvD(3) [OF H] by auto
    have na': "of_nat a \<notin> frees xs \<union> frees ys" using na by (auto simp: y split: if_splits)
    obtain s2 where s2: "set_size (of_nat a) (of_nat n + of_nat m) s1 = Some s2"
        "hinv fs s2 {c + 8 * m} (xs @ (a, n + m, True) # ys) (frees xs \<union> frees ys)" "keep {} (xs @ ys) s1 s2"
        "pay s1 s2 a n"
      using step_merge [OF H1 sub na' nc] by blast
    note G1 = hinv_seg [OF H1]
    have e1: "hdr_ok s1 c" "bf_size (hbits s1 c) = of_nat m" using hinv_elem [OF H1, of c m cl] by simp_all
    have sp: "sep8 a c" "a \<noteq> c" using c hinvD(3) [OF H] by (auto simp: sep8_def)
    have s2w: "s2 = wr_bits a (bf_set_size (of_nat n + of_nat m) (hbits s1 a)) s1"
      using s2(1) hdr_set(2) [OF G1(1)] by simp
    have nx: "mm_get_next (of_nat c) s2 = Some (of_nat (c + 8 * m))"
      using e1 sp by (intro get_next) (simp_all add: s2w hdr_wr)
    have b: "a + 8 * (n + m) = c + 8 * m" by (simp add: c)
    obtain s' E' m' ys' where s': "realloc_coalesce ub (of_nat (a + 8 * (n + m))) (of_nat a) (of_nat k) s2 = Some s'"
        "hinv fs s' E' (xs @ (a, m', True) # ys') (frees xs \<union> frees ys')" "E' \<subseteq> {a + 8 * m'}"
        "k \<le> m'" "n + m \<le> m'" "allocs ys' = allocs ys" "pay s2 s' a (n + m)" "kept {a} (xs @ (a, n + m, True) # ys) s2 s'"
      using Cons.IH [OF s2(2)] b Cons.prems(3,4) True by (auto simp: y)
    have "realloc_coalesce ub (of_nat (a + 8 * n)) (of_nat a) (of_nat k) s = Some s'"
      using f cond True G(2) hdr_get(3) [OF G(1)] s1(1) s2(1) nx s'(1) e1 hdr_get(3) [OF e1(1)]
        hdr_get(3) [OF G1(1)] G1(2)
      by (subst realloc_coalesce.simps) (simp add: c_and_def flip: c b)
    moreover have "pay s s' a n"
      using pay_trans [OF pay_trans [OF keep_pay [OF s1(3) _ na, of n True] s2(4)] pay_mono [OF s'(7)]] by simp
    moreover have "kept {a} (xs @ (a, n, True) # y # ys) s s'"
    proof -
      have "kept {a} (xs @ (a, n, True) # y # ys) s s1"
        by (rule keep_allocs [OF keep_sub [OF s1(3)] _ Cons.prems(1)]) auto
      moreover have "kept {a} (xs @ (a, n, True) # y # ys) s1 s2"
        by (rule keep_kept_sub [OF s2(3)]) (use True in \<open>auto simp: y split: if_splits\<close>)
      moreover have "kept {a} (xs @ (a, n, True) # y # ys) s2 s'"
        by (rule kept_sub [OF s'(8)]) (use True in \<open>auto simp: y split: if_splits\<close>)
      ultimately show ?thesis by (blast intro: kept_trans)
    qed
    ultimately show ?thesis using s'(2-6) True
      by (intro exI [of _ s'] exI [of _ E'] exI [of _ m'] exI [of _ ys']) (simp add: y)
  qed
qed

lemma expand_spec:
  assumes H: "hinv fs s {} (xs @ (a, n, True) # ys) (frees xs \<union> frees ys)"
    and k: "k < 536870912" "k \<le> n + lead ys"
  shows "\<exists>s' m ys'. realloc_expand ub ptr (of_nat a) (of_nat k) s = Some (ptr, s') \<and>
    hinv fs s' {} (xs @ (a, m, True) # ys') (frees xs \<union> frees ys') \<and> k \<le> m \<and>
    allocs ys' = allocs ys \<and> pay s s' a n \<and> kept {a} (xs @ (a, n, True) # ys) s s'"
proof -
  note G = hinv_seg [OF H]
  obtain s1 E m ys' where s1: "realloc_coalesce ub (of_nat (a + 8 * n)) (of_nat a) (of_nat k) s = Some s1"
      "hinv fs s1 E (xs @ (a, m, True) # ys') (frees xs \<union> frees ys')" "E \<subseteq> {a + 8 * m}"
      "k \<le> m" "n \<le> m" "allocs ys' = allocs ys" "pay s s1 a n" "kept {a} (xs @ (a, n, True) # ys) s s1"
    using coalesce_spec [OF H _ k] by blast
  obtain s2 where s2: "mm_get_next (of_nat a) s1 = Some (of_nat (a + 8 * m))"
      "set_prev (of_nat (a + 8 * m)) (of_nat a) s1 = Some s2"
      "hinv fs s2 {} (xs @ (a, m, True) # ys') (frees xs \<union> frees ys')" "keep {} (xs @ ys') s1 s2" "pay s1 s2 a m"
    using step_link [OF s1(2,3) frees_mid [OF s1(2)]] by blast
  have "kept {a} (xs @ (a, n, True) # ys) s1 s2"
    by (rule keep_kept_sub [OF s2(4)]) (use s1(6) in auto)
  then have "kept {a} (xs @ (a, n, True) # ys) s s2" using s1(8) kept_trans by blast
  moreover have "pay s s2 a n" using s1(7) pay_mono [OF s2(5) s1(5)] pay_trans by blast
  ultimately show ?thesis
    using s1(1,4,6) s2(1-3) get_next [OF G(1,2)]
    by (intro exI [of _ s2] exI [of _ m] exI [of _ ys']) (simp add: realloc_expand_def)
qed

text \<open>What \<open>mm_realloc\<close> promises of a block \<open>(a, n)\<close>.\<close>

definition realloc_post :: "heap \<Rightarrow> seg list \<Rightarrow> nat \<Rightarrow> nat \<Rightarrow> c_uint \<Rightarrow> (ptr \<times> heap) option \<Rightarrow> bool" where
  "realloc_post s segs a n sz r \<longleftrightarrow> (\<exists>b m s' segs'. r = Some (of_nat (b + 8), s') \<and>
     hinv fs s' {} segs' (frees segs') \<and> (\<forall>x. (b, x) \<notin> allocs segs - {(a, n)}) \<and>
     allocs segs' = insert (b, m) (allocs segs - {(a, n)}) \<and> units sz \<le> m \<and> kept {a} segs s s' \<and>
     (\<forall>i < min (8 * n - 8) (unat sz). mem_bytes s' (b + 8 + i) = mem_bytes s (a + 8 + i)))"

lemma pay_min:
  assumes "pay s s' a (min n m)" "unat sz + 8 \<le> 8 * m" "i < min (8 * n - 8) (unat sz)"
  shows "mem_bytes s' (a + 8 + i) = mem_bytes s (a + 8 + i)"
  using assms by (auto simp: pay_def min_def split: if_splits)

text \<open>The block stays where it is.\<close>

lemma realloc_in_place:
  assumes H: "hinv fs s {} (xs @ (a, n, True) # ys) F"
    and s': "hinv fs s' {} (xs @ (a, m, True) # ys') (frees xs \<union> frees ys')" "allocs ys' = allocs ys"
      "units sz \<le> m" "pay s s' a (min n m')" "units sz \<le> m'" "kept {a} (xs @ (a, n, True) # ys) s s'"
  shows "realloc_post s (xs @ (a, n, True) # ys) a n sz (Some (of_nat (a + 8), s'))"
proof -
  have A: "(a, x) \<notin> allocs xs \<union> allocs ys" for x using allocs_mid [OF H] by simp
  have "hinv fs s' {} (xs @ (a, m, True) # ys') (frees (xs @ (a, m, True) # ys'))" using s'(1) by simp
  moreover have "allocs (xs @ (a, m, True) # ys') = insert (a, m) (allocs (xs @ (a, n, True) # ys) - {(a, n)})"
    using s'(2) A by auto
  moreover have "\<forall>x. (a, x) \<notin> allocs (xs @ (a, n, True) # ys) - {(a, n)}" using A by auto
  moreover have "\<forall>i < min (8 * n - 8) (unat sz). mem_bytes s' (a + 8 + i) = mem_bytes s (a + 8 + i)"
  proof -
    have "unat sz + 8 \<le> 8 * m'" using units_bounds(1) [of sz] s'(5) by simp
    then show ?thesis using pay_min [OF s'(4)] by blast
  qed
  ultimately show ?thesis unfolding realloc_post_def using s'(3,6) by blast
qed

text \<open>The block moves: allocate, copy, free.\<close>

lemma realloc_move:
  assumes H: "hinv fs s {} segs (frees segs)" and a: "(a, n) \<in> allocs segs"
    and sz: "1 \<le> unat sz" "unat sz < 2147483000" "n < units sz"
    and room: "unat (mem_brk s) + max 144 (unat sz + 15) \<le> unat (mem_max_addr s)"
  shows "realloc_post s segs a n sz (do {
     (new, s) \<leftarrow> mm_malloc ub sz s;
     nsize \<leftarrow> get_size (of_nat a) s;
     (_, s) \<leftarrow> mm_memcpy new (of_nat (a + 8)) (push_bit MM_ALIGN nsize - MM_HEADER_SIZE) s;
     s \<leftarrow> mm_free ub (of_nat (a + 8)) s;
     Some (new, s) })"
proof -
  obtain b m s1 segs1 where s1: "mm_malloc ub sz s = Some (of_nat (b + 8), s1)" "hinv fs s1 {} segs1 (frees segs1)"
      "(b, m) \<notin> allocs segs" "allocs segs1 = insert (b, m) (allocs segs)" "units sz \<le> m" "kept {} segs s s1"
    using malloc_spec [OF H sz(1,2) room] by blast
  have in1: "(a, n, True) \<in> set segs1" "(b, m, True) \<in> set segs1" using a s1(4) by (auto simp: allocs_def)
  have ab: "a + 8 * n \<le> b \<or> b + 8 * m \<le> a" using hinv_disj [OF s1(2) in1] sz(3) s1(5) by auto
  note ea = hinv_elem [OF s1(2) in1(1)] and ma = hinv_mem [OF s1(2) in1(1)] and mb = hinv_mem [OF s1(2) in1(2)]
  note B = hinv_bounds [OF s1(2)]
  obtain xs ys where segs1: "segs1 = xs @ (b, m, True) # ys" using in1(2) by (auto dest: split_list)
  let ?k = "8 * n - 8" and ?s = "copy (b + 8) (a + 8) (8 * n - 8) s1"
  have km: "?k + 8 \<le> 8 * m" using sz(3) s1(5) ma(3) by simp
  have C: "hinv fs ?s {} segs1 (frees segs1)" "keep {} (xs @ ys) s1 ?s"
    using step_copy [OF s1(2) [unfolded segs1] alloc_not_free [OF s1(2) in1(2), unfolded segs1] km] segs1 by auto
  have kp: "kept {b} segs1 s1 ?s" by (rule keep_kept_sub [OF C(2)]) (auto simp: segs1)
  obtain s3 segs3 where s3: "mm_free ub (of_nat (a + 8)) ?s = Some s3" "hinv fs s3 {} segs3 (frees segs3)"
      "allocs segs3 = allocs segs1 - {(a, n)}" "kept {a} segs1 ?s s3"
    using free_spec [OF C(1)] a s1(4) by blast
  have nk: "push_bit 3 (of_nat n :: c_uint) - 8 = of_nat ?k"
    using ma(3) by (simp add: push3_of_nat of_nat_diff)
  have u: "unat (of_nat ?k :: c_uint) = ?k" "unat (of_nat (a + 8) :: ptr) = a + 8" "unat (of_nat (b + 8) :: ptr) = b + 8"
    using ma mb B by (intro unat_of; simp)+
  have "mm_memcpy (of_nat (b + 8)) (of_nat (a + 8)) (of_nat ?k) s1 = Some (of_nat (b + 8), ?s)"
  proof -
    have "b + 8 + ?k \<le> a + 8 \<or> a + 8 + ?k \<le> b + 8" using ab km by linarith
    then have "memcpy_loop (b + 8) (a + 8) ?k s1 = Some ?s"
      using ma mb B km by (intro memcpy_loop_copy) (simp_all add: mem_ok_def lo_def)
    then show ?thesis unfolding mm_memcpy_def u by simp
  qed
  then have run: "do { (new, s) \<leftarrow> mm_malloc ub sz s; nsize \<leftarrow> get_size (of_nat a) s;
     (_, s) \<leftarrow> mm_memcpy new (of_nat (a + 8)) (push_bit MM_ALIGN nsize - MM_HEADER_SIZE) s;
     s \<leftarrow> mm_free ub (of_nat (a + 8)) s; Some (new, s) } = Some (of_nat (b + 8), s3)"
    using s1(1) hdr_get(3) [OF ea(1)] ea(2) nk s3(1) by (simp del: of_nat_add)
  have "b \<noteq> a" using ab ma mb by auto
  have "mem_bytes s3 (b + 8 + i) = mem_bytes s (a + 8 + i)" if i: "i < min (8 * n - 8) (unat sz)" for i
  proof -
    have "pay ?s s3 b m" using s3(4) s1(4) \<open>b \<noteq> a\<close> by (auto simp: kept_def)
    then have "mem_bytes s3 (b + 8 + i) = mem_bytes ?s (b + 8 + i)" using i km by (simp add: pay_def)
    also have "\<dots> = mem_bytes s1 (a + 8 + i)" using i by (simp add: copy_def)
    also have "\<dots> = mem_bytes s (a + 8 + i)" using s1(6) a i by (auto simp: kept_def pay_def)
    finally show ?thesis .
  qed
  moreover have nb: "\<forall>x. (b, x) \<notin> allocs segs"
  proof (rule allI, rule notI)
    fix x assume "(b, x) \<in> allocs segs"
    then have "(b, x, True) \<in> set segs1" using s1(4) by (auto simp: allocs_def)
    then show False
      using hinv_disj [OF s1(2) _ in1(2)] hinv_mem(3) [OF s1(2)] mb(3) \<open>(b, x) \<in> _\<close> s1(3) by fastforce
  qed
  moreover have "kept {a} segs s s3"
  proof -
    have "kept {a} segs s s1" using kept_mono [OF s1(6)] by simp
    moreover have "kept {a} segs s1 ?s" by (rule kept_sub [OF kp]) (use s1(4) nb in auto)
    moreover have "kept {a} segs ?s s3" by (rule kept_sub [OF s3(4)]) (use s1(4) in auto)
    ultimately show ?thesis by (blast intro: kept_trans)
  qed
  moreover have "allocs segs3 = insert (b, m) (allocs segs - {(a, n)})"
    using s3(3) s1(4) \<open>b \<noteq> a\<close> by auto
  ultimately show ?thesis unfolding realloc_post_def run using s3(2) s1(5) by blast
qed

lemma realloc_spec:
  assumes H: "hinv fs s {} segs (frees segs)" and a: "(a, n) \<in> allocs segs"
    and sz: "1 \<le> unat sz" "unat sz < 2147483000"
    and room: "unat (mem_brk s) + max 144 (unat sz + 15) \<le> unat (mem_max_addr s)"
  shows "realloc_post s segs a n sz (mm_realloc ub (of_nat (a + 8)) sz s)"
proof -
  obtain xs ys where segs: "segs = xs @ (a, n, True) # ys" using a by (auto simp: allocs_def dest: split_list)
  note H' = H [unfolded segs] note G = hinv_seg [OF H'] and D = hinvD [OF H'] and B = hinv_bounds [OF H]
  have H1: "hinv fs s {} (xs @ (a, n, True) # ys) (frees xs \<union> frees ys)" using H' by simp
  note na = frees_mid [OF H']
  let ?k = "units sz"
  have k: "drop_bit 3 (ALIGN sz + 8) = of_nat ?k" "2 \<le> ?k" "8 * ?k \<le> unat sz + 15" "?k < 536870912" "sz \<noteq> 0"
    using align_units [of sz] units_bounds [of sz] sz by auto
  have a8: "(of_nat (a + 8) :: ptr) \<noteq> NULL" "(of_nat (a + 8) :: ptr) - 8 = of_nat a"
    using of_nat_inj [of "a + 8" 0] D(6) B(2,3) by (simp_all add: NULL_def)
  have le: "(of_nat ?k :: c_uint) \<le> of_nat n \<longleftrightarrow> ?k \<le> n" using of_nat_le [of ?k n] G(5) k(4) by simp
  have run: "mm_realloc ub (of_nat (a + 8)) sz s =
     (if ?k \<le> n then do { (_, s) \<leftarrow> mm_frag_node (of_nat a) (of_nat ?k) s; Some (of_nat (a + 8), s) }
      else do {
          (next, acc) \<leftarrow> realloc_sum (of_nat (a + 8 * n)) (of_nat n) (of_nat ?k) s;
          at_end \<leftarrow> c_and (Some (acc < of_nat ?k)) (map_option (\<lambda>n. n = 0) (get_size next s));
          if at_end
          then do {
            (next, s) \<leftarrow> mm_sbrk (push_bit MM_ALIGN (of_nat ?k - acc)) s;
            s \<leftarrow> set_alloc next MM_ALLOC_FREE s;
            s \<leftarrow> mm_insert next s;
            realloc_expand ub (of_nat (a + 8)) (of_nat a) (of_nat ?k) s }
          else if acc < of_nat ?k
          then do {
            (new, s) \<leftarrow> mm_malloc ub sz s;
            nsize \<leftarrow> get_size (of_nat a) s;
            (_, s) \<leftarrow> mm_memcpy new (of_nat (a + 8)) (push_bit MM_ALIGN nsize - MM_HEADER_SIZE) s;
            s \<leftarrow> mm_free ub (of_nat (a + 8)) s;
            Some (new, s) }
          else realloc_expand ub (of_nat (a + 8)) (of_nat a) (of_nat ?k) s })"
    using a8 k(1,5) G(2) hdr_get(3) [OF G(1)] get_next [OF G(1,2)] le
    by (simp add: mm_realloc_def Let_def del: of_nat_add of_nat_mult)
  show ?thesis
  proof (cases "?k \<le> n")
    case True
    obtain s' k' ms where s': "mm_frag_node (of_nat a) (of_nat ?k) s = Some (of_nat a, s')" "?k \<le> k'" "allocs ms = {}"
        "hinv fs s' {} (xs @ (a, k', True) # ms @ ys) (frees ms \<union> (frees xs \<union> frees ys))"
        "keep (frees xs \<union> frees ys) (xs @ ys) s s'" "pay s s' a ?k"
      using frag [OF H1 _ na k(2) True] by blast
    have "kept {a} (xs @ (a, n, True) # ys) s s'" by (rule keep_allocs [OF s'(5) _ H']) auto
    then have "realloc_post s segs a n sz (Some (of_nat (a + 8), s'))"
      using realloc_in_place [OF H', of s' k' "ms @ ys" sz ?k] s'(2-4,6) True
      by (simp add: segs ac_simps min_def)
    then show ?thesis using run True s'(1) by simp
  next
    case False
    obtain us rest where u: "ys = us @ rest" "allocs us = {}"
        "realloc_sum (of_nat (a + 8 * n)) (of_nat n) (of_nat ?k) s =
          Some (of_nat (a + 8 * n + 8 * usum us), of_nat (n + usum us))"
        "chain s (a + 8 * n + 8 * usum us) rest (epi s)" "n + usum us < ?k \<longrightarrow> lead rest = 0"
      using realloc_sum_spec [OF H' k(4) D(4), of n] by auto
    let ?c = "a + 8 * n + 8 * usum us" and ?acc = "n + usum us"
    have acc: "?acc < 536870912"
      using chain_le [OF u(4)] B(1-3) by simp
    have ca: "(of_nat ?acc :: c_uint) < of_nat ?k \<longleftrightarrow> ?acc < ?k" using of_nat_less [of ?acc ?k] acc k(4) by simp
    have fin: "realloc_post s segs a n sz (realloc_expand ub (of_nat (a + 8)) (of_nat a) (of_nat ?k) t)"
      if t: "hinv fs t {} (xs @ (a, n, True) # zs) (frees xs \<union> frees zs)" "?k \<le> n + lead zs"
        "allocs zs = allocs ys" "pay s t a n" "kept {a} segs s t" for t zs
    proof -
      obtain s' m ys' where s': "realloc_expand ub (of_nat (a + 8)) (of_nat a) (of_nat ?k) t = Some (of_nat (a + 8), s')"
          "hinv fs s' {} (xs @ (a, m, True) # ys') (frees xs \<union> frees ys')" "?k \<le> m"
          "allocs ys' = allocs zs" "pay t s' a n" "kept {a} (xs @ (a, n, True) # zs) t s'"
        using expand_spec [OF t(1) k(4) t(2)] by blast
      have "kept {a} segs t s'" by (rule kept_sub [OF s'(6)]) (use t(3) in \<open>auto simp: segs\<close>)
      then have "kept {a} segs s s'" using t(5) kept_trans by blast
      moreover have "pay s s' a (min n ?k)" using pay_mono [OF pay_trans [OF t(4) s'(5)]] by simp
      ultimately show ?thesis
        using realloc_in_place [OF H' s'(2), of sz ?k] s'(1,3,4) t(3) by (simp add: segs)
    qed
    show ?thesis
    proof (cases "?acc < ?k")
      case f: False
      have "realloc_post s segs a n sz (realloc_expand ub (of_nat (a + 8)) (of_nat a) (of_nat ?k) s)"
        using f lead_append_free [OF u(2), of rest] by (intro fin [OF H1]) (simp_all add: u(1) kept_def)
      then show ?thesis using run False u(3) f ca by (simp add: c_and_def del: of_nat_add of_nat_mult)
    next
      case lt: True
      show ?thesis
      proof (cases rest)
        case Nil
        then have "?c = epi s" using u(4) by simp
        then have sz0: "get_size (of_nat ?c) s = Some 0" using size_epi [OF H] by simp
        let ?d = "?k - ?acc"
        have d: "1 \<le> ?d" "unat (mem_brk s) + max 144 (8 * ?d) \<le> unat (mem_max_addr s)" "8 * ?d < 2147483648"
          using lt room k(3) sz(2) by auto
        have pd: "push_bit 3 ((of_nat ?k :: c_uint) - of_nat ?acc) = of_nat (8 * ?d)"
          using lt push3_of_nat [of ?d] by (simp add: of_nat_diff)
        obtain s1 m ms where s1: "mm_sbrk (of_nat (8 * ?d)) s = Some (of_nat (epi s), s1)" "?d \<le> m" "allocs ms = {}"
            "hinv fs s1 {} (segs @ (epi s, m, True) # ms) (frees ms \<union> frees segs)" "keep (frees segs) segs s s1"
          using sbrk_spec [OF H d] by blast
        have ne: "of_nat (epi s) \<notin> frees ms \<union> frees segs" using frees_mid [OF s1(4)] by simp
        obtain s2 where s2: "set_alloc (of_nat (epi s)) False s1 = Some s2"
            "hinv fs s2 {} (segs @ (epi s, m, False) # ms) (frees ms \<union> frees segs)" "keep {} (segs @ ms) s1 s2"
          using step_alloc [OF s1(4) _ ne, of False "{}"] by blast
        obtain s3 where s3: "mm_insert (of_nat (epi s)) s2 = Some s3"
            "hinv fs s3 {} (segs @ (epi s, m, False) # ms) (insert (of_nat (epi s)) (frees ms \<union> frees segs))"
            "keep (insert (of_nat (epi s)) (frees ms \<union> frees segs)) (segs @ (epi s, m, False) # ms) s2 s3"
          using step_insert [OF s2(2) ne] by blast
        let ?zs = "ys @ (epi s, m, False) # ms"
        have K: "kept {} segs s s3"
        proof -
          have "kept {} segs s1 s2" by (rule keep_kept_sub [OF s2(3)]) auto
          moreover have "kept {} segs s2 s3"
            by (rule kept_sub [OF keep_kept [OF s3(2)]]) (use s3(3) in \<open>auto simp: Un_commute\<close>)
          ultimately show ?thesis using keep_kept [OF H s1(5)] by (blast intro: kept_trans)
        qed
        have "hinv fs s3 {} (xs @ (a, n, True) # ?zs) (frees xs \<union> frees ?zs)"
          using s3(2) by (simp add: segs ac_simps)
        moreover have "?k \<le> n + lead ?zs"
          using s1(2) lead_append_free [OF u(2)] Nil u(1) by simp
        moreover have "pay s s3 a n" using K a by (auto simp: kept_def)
        ultimately have "realloc_post s segs a n sz (realloc_expand ub (of_nat (a + 8)) (of_nat a) (of_nat ?k) s3)"
          using s1(3) kept_mono [OF K] by (intro fin [where zs = ?zs]) simp_all
        then show ?thesis
          using run False u(3) lt ca sz0 s1(1) s2(1) s3(1) pd
          by (simp add: c_and_def del: of_nat_add of_nat_mult)
      next
        case (Cons y rest')
        then obtain m cl where y: "y = (?c, m, cl)" using u(4) by (cases y) simp
        have "(?c, m, cl) \<in> set segs" by (simp add: segs u(1) Cons y)
        note e = hinv_elem [OF H this]
        have "\<not> ?k \<le> n" using False .
        then show ?thesis
          using realloc_move [OF H a sz _ room, of ub] run u(3) lt ca e(4) hdr_get(3) [OF e(1)] e(2)
          by (simp add: c_and_def del: of_nat_add of_nat_mult)
      qed
    qed
  qed
qed

end

end
