(* ===== verification/MmCheck.thy ===== *)
theory MmCheck
  imports MmRealloc
begin

text \<open>
  The heap checker \<open>mm_check\<close> of \<open>malloclab-handout/mm.c\<close> accepts every heap that satisfies
  the invariant: its tests of the list and of the tree succeed and its two counts agree.
\<close>

context node_store
begin

lemma mm_check_node_rep:
  "rep nil s t \<Longrightarrow> ordered (sizes (V s)) t \<Longrightarrow> invc t \<Longrightarrow>
   mm_check_node (root nil t) cnt s = Some (True, cnt + of_nat (length (inorder t)))"
proof (induction t arbitrary: cnt)
  case Leaf
  then show ?case by (subst mm_check_node.simps) (simp add: fields get)
next
  case (Node c l x r)
  note f = rep_fields [OF Node.prems(1)] and sub = rep_sub [OF Node.prems(1)]
  note o = Node.prems(2) [unfolded ordered_node]
  have L: "rep nil s l" "rep nil s r" using sub by simp_all
  note rl = rep_root [OF L(1)] and rr = rep_root [OF L(2)]
  have cl: "l \<noteq> Leaf \<Longrightarrow> mm_cmp_node x (root nil l) s = Some False"
    using cmp_node [OF f(1,2)] rl o cmp_asym by auto
  have cr: "r \<noteq> Leaf \<Longrightarrow> mm_cmp_node (root nil r) x s = Some False"
    using cmp_node [OF f(1) _ f(2)] rr o cmp_asym by auto
  have red: "is_red (Some x) s = Some c" "is_red (Some (root nil l)) s = Some (col l)"
      "is_red (Some (root nil r)) s = Some (col r)"
    using f rl rr by (simp_all add: is_red_def get)
  have "invc l" "invc r" "c \<longrightarrow> \<not> col l \<and> \<not> col r" using Node.prems(3) by simp_all
  then show ?case
    using Node.IH(1) [OF L(1), of "cnt + 1"] Node.IH(2) [OF L(2), of "cnt + 1 + of_nat (length (inorder l))"]
      f rl rr cl cr o red
    by (subst mm_check_node.simps) (auto simp: get Let_def c_and_def algebra_simps)
qed

end

definition n_free :: "seg list \<Rightarrow> nat" where
  "n_free segs = length (filter (\<lambda>(a, n, al). \<not> al) segs)"

lemma mm_check_list_spec:
  assumes H: "hinv fs s {} segs F"
  shows "segs = xs @ ys \<Longrightarrow> chain s c ys (epi s) \<Longrightarrow> links s {} pv ys (epi s) \<Longrightarrow>
    mm_check_list (of_nat c) cnt s = Some (True, cnt + of_nat (n_free ys))"
proof (induction ys arbitrary: xs c pv cnt)
  case Nil
  then show ?case using size_epi [OF H] by (subst mm_check_list.simps) (simp add: n_free_def)
next
  case (Cons y ys)
  obtain m cl where y: "y = (c, m, cl)" "chain s (c + 8 * m) ys (epi s)" "links s {} c ys (epi s)"
    using Cons.prems(2,3) by (cases y) auto
  have el: "(c, m, cl) \<in> set segs" using Cons.prems(1) y by simp
  note e = hinv_elem [OF H el]
  have nx: "mm_get_next (of_nat c) s = Some (of_nat (c + 8 * m))" using get_next [OF e(1,2)] .
  have H': "hinv fs s {} (xs @ (c, m, cl) # ys) F" using H Cons.prems(1) y(1) by simp
  have pv': "get_prev (of_nat (c + 8 * m)) s = Some (of_nat c)"
    using hinv_link [OF H'] hdr_get(1) [OF hinv_seg(6) [OF H']] by simp
  have "segs = (xs @ [y]) @ ys" using Cons.prems(1) by simp
  from Cons.IH [OF this y(2,3)] show ?case
    using nx pv' e hdr_get(3,4) [OF e(1)] Cons.prems(1)
    by (subst mm_check_list.simps) (simp add: y(1) n_free_def Let_def algebra_simps del: of_nat_add of_nat_mult)
qed

lemma card_frees:
  assumes "hinv fs s E segs F"
  shows "card (frees segs) = n_free segs"
proof -
  have "chain s a xs b \<Longrightarrow> b < 4294967296 \<Longrightarrow> card (frees xs) = n_free xs" for a xs b
  proof (induction xs arbitrary: a)
    case Nil
    then show ?case by (simp add: n_free_def)
  next
    case (Cons y ys)
    obtain m cl where y: "y = (a, m, cl)" "chain s (a + 8 * m) ys b" "2 \<le> m"
      using Cons.prems(1) by (cases y) auto
    have "of_nat a \<notin> frees ys"
    proof
      assume "of_nat a \<in> frees ys"
      then obtain z k where z: "(z, k, False) \<in> set ys" "(of_nat a :: ptr) = of_nat z" by (auto simp: frees_def)
      note zm = chain_mem [OF y(2) z(1)]
      have "a < 4294967296" "z < 4294967296" using zm Cons.prems(2) by auto
      then show False using z(2) of_nat_inj zm y(3) by auto
    qed
    moreover have "finite (frees ys)"
      by (rule finite_subset [of _ "of_nat ` fst ` set ys"]) (force simp: frees_def)+
    ultimately show ?case using Cons.IH [OF y(2)] Cons.prems(2) y(1) by (simp add: n_free_def)
  qed
  then show ?thesis using assms hinv_bounds(1-3) [OF assms] by (auto simp: hinv_def)
qed

lemma mm_check_inv:
  assumes "heap_inv s segs"
  shows "mm_check s = Some True"
proof -
  have H: "hinv free_set s {} segs (frees segs)" using assms by (simp add: heap_inv_def)
  note B = hinv_bounds [OF H]
  obtain t where t: "nodes t = frees segs" "rb_inv t" "ordered (sizes (node_at s)) t"
      "tree_in (insert (data_null s) (frees segs)) s t"
    using B(7) by (rule free_set_tree)
  have r: "ns.rep (insert (data_null s) (frees segs)) (data_null s) s t" "root_word s = root (data_null s) t"
      "above_root (insert (data_null s) (frees segs)) s"
    using t(4) by (simp_all add: tree_in_def)
  have n: "mm_check_node (root_word s) 0 s = Some (True, of_nat (length (inorder t)))"
    using ns.mm_check_node_rep [OF r(1) t(3)] t(2) r(2) by (simp add: rb_inv_def)
  have len: "length (inorder t) = n_free segs"
    using card_frees [OF H] t(1) sorted_distinct [of "sizes (node_at s)" "inorder t"] t(3)
    by (simp add: ordered_def distinct_card [symmetric])
  have lo24: "mem_heap_lo s + 24 = of_nat (lo s + 24)" by (simp add: mem_heap_lo_def lo_def)
  have "mm_check_list (of_nat (lo s + 24)) 0 s = Some (True, of_nat (n_free segs))"
    using mm_check_list_spec [OF H, of "[]" segs "lo s + 24" 0] H by (simp add: hinv_def del: of_nat_add)
  then show ?thesis
    using n len get_root_word [OF r(3)] lo24 by (simp add: mm_check_def del: of_nat_add)
qed

end
