(* ===== verification/MmSpec.thy ===== *)
theory MmSpec
  imports MmCheck
begin

text \<open>
  What the allocator of \<open>malloclab-handout/mm.c\<close> promises its clients, over any heap it can
  have produced: the set of allocated blocks, their sizes and their contents are the abstract
  state, and \<open>mm_malloc\<close>, \<open>mm_free\<close> and \<open>mm_realloc\<close> change it as their
  documentation says. The results of the locale \<open>free_store\<close> are used here through its
  interpretation on the tree of the code. A block is a pair of the address of its header and its
  units; its payload is the bytes from 8 behind the address up to its end.
\<close>

subsection \<open>Blocks\<close>

text \<open>The room a request may need: the rounded size, or the least extension of the heap.\<close>

definition room :: "heap \<Rightarrow> c_uint \<Rightarrow> bool" where
  "room s sz \<longleftrightarrow> unat sz < 2147483000 \<and> unat (mem_brk s) + max 144 (unat sz + 15) \<le> unat (mem_max_addr s)"

lemma chain_mod: "chain s a xs b \<Longrightarrow> (x, n, al) \<in> set xs \<Longrightarrow> 8 dvd x - a"
proof (induction xs arbitrary: a)
  case (Cons y ys)
  obtain m bl where y: "y = (a, m, bl)" "chain s (a + 8 * m) ys b" using Cons.prems(1) by (cases y) auto
  show ?case
  proof (cases "(x, n, al) = y")
    case False
    then have "(x, n, al) \<in> set ys" using Cons.prems(2) by simp
    then have d: "8 dvd x - (a + 8 * m)" "a + 8 * m \<le> x" using Cons.IH [OF y(2)] chain_mem [OF y(2)] by blast+
    have "8 dvd (x - (a + 8 * m)) + 8 * m" by (rule dvd_add [OF d(1)]) simp
    moreover have "(x - (a + 8 * m)) + 8 * m = x - a" using d(2) by simp
    ultimately show ?thesis by simp
  qed (simp add: y(1))
qed simp

lemma heap_invD: "heap_inv s segs \<Longrightarrow> hinv free_set s {} segs (frees segs)"
  by (simp add: heap_inv_def)

lemma alloc_facts:
  assumes "heap_inv s segs" "(a, n) \<in> allocs segs"
  shows "unat (of_nat (a + 8) :: ptr) = a + 8" "8 dvd a + 8 - lo s" "lo s + 32 \<le> a + 8"
    "a + 8 * n + 8 \<le> unat (mem_brk s)" "2 \<le> n"
proof -
  note H = heap_invD [OF assms(1)]
  have m: "(a, n, True) \<in> set segs" using assms(2) by (simp add: allocs_def)
  note M = hinv_mem [OF H m] and B = hinv_bounds [OF H]
  show "unat (of_nat (a + 8) :: ptr) = a + 8" using M B by (intro unat_of) simp
  show "lo s + 32 \<le> a + 8" "2 \<le> n" "a + 8 * n + 8 \<le> unat (mem_brk s)" using M B by simp_all
  have "8 dvd a - (lo s + 24)" using chain_mod [OF _ m] H by (auto simp: hinv_def)
  then have d: "8 dvd (a - (lo s + 24)) + 8 * 4" by (rule dvd_add) simp
  have "(a - (lo s + 24)) + 8 * 4 = a + 8 - lo s" using M(1) by simp
  then show "8 dvd a + 8 - lo s" using d by (simp only:)
qed

lemma alloc_ptr:
  assumes "heap_inv s segs" "(unat p - 8, n) \<in> allocs segs" "p \<noteq> 0"
  shows "of_nat (unat p - 8 + 8) = p"
proof -
  have "8 \<le> unat p"
  proof (rule ccontr)
    assume "\<not> 8 \<le> unat p"
    then have "(0, n) \<in> allocs segs" using assms(2) by simp
    then show False using alloc_facts(3) [OF assms(1), of 0 n] hinv_bounds(5) [OF heap_invD [OF assms(1)]] by simp
  qed
  then show ?thesis by simp
qed

lemma same_area_lo: "same_area s s' \<Longrightarrow> lo s' = lo s"
  by (simp add: same_area_def lo_def)

lemma keptD: "kept X segs s s' \<Longrightarrow> (a, n) \<in> allocs segs \<Longrightarrow> a \<notin> X \<Longrightarrow> pay s s' a n"
  by (auto simp: kept_def)

text \<open>On a heap that satisfies the invariant two different allocated blocks
  never overlap, headers included, every block lies between the bottom of the heap's segments and
  the last header below the break, and its payload is aligned relative to the bottom of the heap.\<close>

lemma blocks_disjoint:
  assumes "heap_inv s segs" "(a, n) \<in> allocs segs" "(b, m) \<in> allocs segs"
  shows "((a, n) = (b, m) \<or> a + 8 * n \<le> b \<or> b + 8 * m \<le> a) \<and> lo s + 24 \<le> a \<and> a + 8 * n + 8 \<le> unat (mem_brk s) \<and>
    8 dvd a + 8 - lo s \<and> 16 \<le> 8 * n"
proof -
  have "(a, n, True) \<in> set segs" "(b, m, True) \<in> set segs" using assms(2,3) by (simp_all add: allocs_def)
  then show ?thesis using hinv_disj [OF heap_invD [OF assms(1)]] alloc_facts [OF assms(1,2)] by fastforce
qed

subsection \<open>mm_malloc\<close>

lemma malloc_ok:
  assumes "heap_inv s segs" "1 \<le> unat sz" "room s sz"
  obtains a n s' segs' where "mm_malloc ub sz s = Some (of_nat (a + 8), s')" "heap_inv s' segs'"
    "(a, n) \<notin> allocs segs" "allocs segs' = insert (a, n) (allocs segs)" "unat sz + 8 \<le> 8 * n" "kept {} segs s s'"
proof -
  obtain a n s' segs' where r: "mm_malloc ub sz s = Some (of_nat (a + 8), s')" "heap_inv s' segs'"
      "(a, n) \<notin> allocs segs" "allocs segs' = insert (a, n) (allocs segs)" "units sz \<le> n" "kept {} segs s s'"
    using ft.malloc_spec [OF heap_invD [OF assms(1)]] assms(2,3) unfolding room_def heap_inv_def by blast
  have "unat sz + 8 \<le> 8 * n" using units_bounds(1) [of sz] r(5) by linarith
  then show ?thesis by (rule that [OF r(1-4) _ r(6)])
qed

subsection \<open>A heap to start from\<close>

text \<open>An empty heap of 64 kB at address 64, as \<open>mem_init\<close> leaves it, for the concrete runs below.\<close>

definition heap0 :: heap where
  "heap0 = \<lparr>mem_start_brk = 64, mem_brk = 64, mem_max_addr = 65600, mem_bytes = (\<lambda>_. 0)\<rparr>"

lemma run_init:
  obtains s where "mm_init heap0 = Some s" "heap_inv s []" "unat (mem_brk s) = 96" "mem_max_addr s = 65600"
proof -
  have "fresh heap0" by (simp add: fresh_def heap0_def lo_def)
  then show ?thesis using mm_init_inv [of heap0] that by (auto simp: heap0_def lo_def)
qed

lemma run_malloc_brk:
  assumes s: "heap_inv s []" "unat (mem_brk s) = 96" "mem_max_addr s = 65600"
  shows "\<exists>s'. mm_malloc ub 200 s = Some (of_nat (88 + 8), s') \<and> unat (mem_brk s') = 304"
proof -
  note H = heap_invD [OF s(1)]
  have e: "epi s = 88" using s(2) by (simp add: epi_def)
  have u: "drop_bit 3 (ALIGN 200 + 8) = of_nat 26" "push_bit 3 (of_nat 26 :: c_uint) = of_nat (8 * 26)"
    using align_units [of 200] push3_of_nat [of 26] by (simp_all add: units_def)
  obtain q where q: "mm_search (of_nat 26) s = Some q" "best_fit (sizes (node_at s)) (frees []) (of_nat 26) q"
    using ft.search [OF hinv_bounds(7) [OF H]] by blast
  then have sr: "mm_search (of_nat 26) s = Some NULL" by (simp add: best_fit_def split: if_splits)
  have n: "2 \<le> (26::nat)" "unat (mem_brk s) + 8 * 26 \<le> unat (mem_max_addr s)" using s(2,3) by simp_all
  have X: "hinv free_set (grow 26 s) {epi s + 8 * 26} [(epi s, 26, True)] {}"
    using ft.step_grow [OF H n] by simp
  obtain s' where s': "mm_get_next (of_nat (epi s)) (grow 26 s) = Some (of_nat (epi s + 8 * 26))"
      "set_prev (of_nat (epi s + 8 * 26)) (of_nat (epi s)) (grow 26 s) = Some s'"
    using ft.step_link [of "grow 26 s" "{epi s + 8 * 26}" "[]" "epi s" 26 True "[]" "{}"] X by auto
  have b: "unat (mem_brk (grow 26 s)) = 304"
    using s(2) by (simp add: grow_def Let_def wr_bits_def fill_def unat_word_ariths)
  have "mem_brk s' = mem_brk (grow 26 s)" using s'(2) by (auto simp: set_prev_def store32_def split: if_splits)
  then show ?thesis
    using ft.sbrk_run [OF H, of 26] s s' sr u b e
    by (simp add: mm_malloc_def Let_def)
qed

lemma run_malloc:
  obtains s s' n segs where "mm_init heap0 = Some s" "mm_malloc ub 200 s = Some (of_nat (88 + 8), s')" "heap_inv s' segs"
    "allocs segs = {(88, n)}" "200 + 8 \<le> 8 * n" "unat (mem_brk s') = 304" "mem_max_addr s' = 65600"
proof -
  obtain s where s: "mm_init heap0 = Some s" "heap_inv s []" "unat (mem_brk s) = 96" "mem_max_addr s = 65600"
    by (rule run_init)
  have sz: "1 \<le> unat (200 :: c_uint)" "room s 200" using s(3,4) by (simp_all add: room_def)
  obtain a n s' segs where r: "mm_malloc ub 200 s = Some (of_nat (a + 8), s')" "heap_inv s' segs"
      "(a, n) \<notin> allocs []" "allocs segs = insert (a, n) (allocs [])" "unat (200 :: c_uint) + 8 \<le> 8 * n" "kept {} [] s s'"
    by (rule malloc_ok [OF s(2) sz])
  obtain s2 where r2: "mm_malloc ub 200 s = Some (of_nat (88 + 8), s2)" "unat (mem_brk s2) = 304"
    using run_malloc_brk [OF s(2-4)] by blast
  have "unat (of_nat (a + 8) :: ptr) = a + 8" using alloc_facts(1) [OF r(2)] r(4) by simp
  moreover have "unat (of_nat (88 + 8) :: ptr) = 88 + 8" by simp
  ultimately have "a = 88" using r(1) r2(1) by (metis Pair_inject add_right_cancel option.inject)
  then show ?thesis using s(1,4) r r2 by (intro that [of s s' segs n]) (simp_all add: kept_def same_area_def)
qed

text \<open>C3: on a heap that satisfies the invariant and has room, \<open>mm_malloc\<close>
  returns for every size but 0; the pointer is aligned, it is the payload of a new block large
  enough for the request, every other block keeps its place, size and contents, and the
  invariant holds again.\<close>

theorem mm_malloc_correct:
  assumes "heap_inv s segs" "1 \<le> unat sz" "room s sz"
  shows "\<exists>p s' segs' n. mm_malloc ub sz s = Some (p, s') \<and> heap_inv s' segs' \<and>
    (unat p - 8, n) \<notin> allocs segs \<and> allocs segs' = insert (unat p - 8, n) (allocs segs) \<and>
    8 dvd unat p - lo s \<and> unat sz \<le> 8 * n - 8 \<and> kept {} segs s s'"
proof -
  obtain a n s' segs' where r: "mm_malloc ub sz s = Some (of_nat (a + 8), s')" "heap_inv s' segs'"
      "(a, n) \<notin> allocs segs" "allocs segs' = insert (a, n) (allocs segs)" "unat sz + 8 \<le> 8 * n" "kept {} segs s s'"
    by (rule malloc_ok [OF assms])
  have l: "lo s' = lo s" using r(6) same_area_lo by (simp add: kept_def)
  have A: "(a, n) \<in> allocs segs'" using r(4) by simp
  have u: "unat (of_nat (a + 8) :: ptr) - 8 = a" "8 dvd unat (of_nat (a + 8) :: ptr) - lo s"
    using alloc_facts(1,2) [OF r(2) A] l by (simp_all del: of_nat_add)
  have "unat sz \<le> 8 * n - 8" using r(5) by linarith
  with u r show ?thesis
    by (intro exI [of _ "of_nat (a + 8)"] exI [of _ s'] exI [of _ segs'] exI [of _ n]) (simp del: of_nat_add)
qed

theorem mm_malloc_correct_witness:
  "\<exists>s p s' segs' n. mm_init heap0 = Some s \<and> mm_malloc True 24 s = Some (p, s') \<and> heap_inv s' segs' \<and>
    allocs segs' = {(unat p - 8, n)} \<and> 8 dvd unat p - lo s \<and> 24 \<le> 8 * n - 8"
proof -
  obtain s where s: "mm_init heap0 = Some s" "heap_inv s []" "unat (mem_brk s) = 96" "mem_max_addr s = 65600"
    by (rule run_init)
  have "room s 24" using s(3,4) by (simp add: room_def)
  then show ?thesis using mm_malloc_correct [OF s(2), of 24 True] s(1) by auto
qed

subsection \<open>mm_free\<close>

lemma free_ok:
  assumes "heap_inv s segs" "(a, n) \<in> allocs segs"
  shows "\<exists>s' segs'. mm_free ub (of_nat (a + 8)) s = Some s' \<and> heap_inv s' segs' \<and>
    allocs segs' = allocs segs - {(a, n)} \<and> kept {a} segs s s' \<and>
    segs' = free_in a segs \<and> (coalesced segs \<longrightarrow> coalesced segs')"
  using ft.free_spec [OF heap_invD [OF assms(1)] assms(2), of ub] unfolding heap_inv_def .

text \<open>C4: freeing an allocated block returns, removes exactly that block from the
  allocated ones, leaves the contents of the others as they were, and keeps the invariant. The
  segments of the heap are then exactly those of \<open>free_in\<close>: the freed one is merged with a free
  segment before it and with a free one behind it. A heap without two free segments in a row has
  none afterwards.\<close>

theorem mm_free_correct:
  assumes "heap_inv s segs" "(a, n) \<in> allocs segs"
  shows "\<exists>s'. mm_free ub (of_nat (a + 8)) s = Some s' \<and> heap_inv s' (free_in a segs) \<and>
    allocs (free_in a segs) = allocs segs - {(a, n)} \<and> kept {a} segs s s' \<and>
    (coalesced segs \<longrightarrow> coalesced (free_in a segs))"
  using free_ok [OF assms, of ub] by blast

theorem mm_free_correct_witness:
  "\<exists>s p s' s'' segs n. mm_init heap0 = Some s \<and> mm_malloc False 200 s = Some (p, s') \<and> allocs segs = {(88, n)} \<and>
    mm_free True p s' = Some s'' \<and> heap_inv s'' (free_in 88 segs) \<and> allocs (free_in 88 segs) = {}"
proof -
  obtain s s' n segs where r: "mm_init heap0 = Some s" "mm_malloc False 200 s = Some (of_nat (88 + 8), s')"
      "heap_inv s' segs" "allocs segs = {(88, n)}" by (rule run_malloc)
  obtain s'' where "mm_free True (of_nat (88 + 8)) s' = Some s''" "heap_inv s'' (free_in 88 segs)"
      "allocs (free_in 88 segs) = {}" using mm_free_correct [OF r(3), of 88 n True] r(4) by auto
  then show ?thesis using r(1,2,4)
    by (intro exI [of _ s] exI [of _ "of_nat (88 + 8)"] exI [of _ s'] exI [of _ s''] exI [of _ segs] exI [of _ n])
      (simp del: of_nat_add)
qed

subsection \<open>mm_realloc\<close>

lemma realloc_ok:
  assumes "heap_inv s segs" "(a, n) \<in> allocs segs" "1 \<le> unat sz" "room s sz"
  obtains b m s' segs' where "mm_realloc ub (of_nat (a + 8)) sz s = Some (of_nat (b + 8), s')" "heap_inv s' segs'"
    "(b, m) \<notin> allocs segs - {(a, n)}" "allocs segs' = insert (b, m) (allocs segs - {(a, n)})"
    "unat sz + 8 \<le> 8 * m" "kept {a} segs s s'"
    "\<forall>i < min (8 * n - 8) (unat sz). mem_bytes s' (b + 8 + i) = mem_bytes s (a + 8 + i)"
proof -
  have "ft.realloc_post s segs a n sz (mm_realloc ub (of_nat (a + 8)) sz s)"
    using ft.realloc_spec [OF heap_invD [OF assms(1)] assms(2,3)] assms(4) by (simp add: room_def)
  then obtain b m s' segs' where r: "mm_realloc ub (of_nat (a + 8)) sz s = Some (of_nat (b + 8), s')"
      "heap_inv s' segs'" "\<forall>x. (b, x) \<notin> allocs segs - {(a, n)}"
      "allocs segs' = insert (b, m) (allocs segs - {(a, n)})" "units sz \<le> m" "kept {a} segs s s'"
      "\<forall>i < min (8 * n - 8) (unat sz). mem_bytes s' (b + 8 + i) = mem_bytes s (a + 8 + i)"
    unfolding ft.realloc_post_def heap_inv_def by blast
  have "unat sz + 8 \<le> 8 * m" using units_bounds(1) [of sz] r(5) by linarith
  then show ?thesis by (rule that [OF r(1,2) r(3) [rule_format] r(4) _ r(6,7)])
qed

text \<open>C5: \<open>mm_realloc\<close> of an allocated block returns, through the shrinking,
  the growing, the heap-extending and the moving branch alike: the block is replaced by one large
  enough for the new size, the first bytes of its payload are those of the old one up to the
  smaller of the two sizes, the other blocks keep their place and contents, and the invariant
  holds again.\<close>

theorem mm_realloc_correct:
  assumes "heap_inv s segs" "(a, n) \<in> allocs segs" "1 \<le> unat sz" "room s sz"
  shows "\<exists>b m s' segs'. mm_realloc ub (of_nat (a + 8)) sz s = Some (of_nat (b + 8), s') \<and> heap_inv s' segs' \<and>
    allocs segs' = insert (b, m) (allocs segs - {(a, n)}) \<and> unat sz \<le> 8 * m - 8 \<and> kept {a} segs s s' \<and>
    (\<forall>i < min (8 * n - 8) (unat sz). mem_bytes s' (b + 8 + i) = mem_bytes s (a + 8 + i))"
proof -
  obtain b m s' segs' where r: "mm_realloc ub (of_nat (a + 8)) sz s = Some (of_nat (b + 8), s')"
      "heap_inv s' segs'" "allocs segs' = insert (b, m) (allocs segs - {(a, n)})"
      "unat sz + 8 \<le> 8 * m" "kept {a} segs s s'"
      "\<forall>i < min (8 * n - 8) (unat sz). mem_bytes s' (b + 8 + i) = mem_bytes s (a + 8 + i)"
    by (rule realloc_ok [OF assms])
  then have "unat sz \<le> 8 * m - 8" by linarith
  with r show ?thesis by blast
qed

theorem mm_realloc_correct_witness:
  "\<exists>s p s' q s'' segs n m. mm_init heap0 = Some s \<and> mm_malloc False 200 s = Some (p, s') \<and>
    mm_realloc False p 5000 s' = Some (q, s'') \<and> heap_inv s'' segs \<and> 200 \<le> 8 * n - 8 \<and> 5000 \<le> 8 * m - 8 \<and>
    (\<exists>b. q = of_nat (b + 8) \<and> allocs segs = {(b, m)} \<and>
      (\<forall>i < min (8 * n - 8) 5000. mem_bytes s'' (b + 8 + i) = mem_bytes s' (unat p + i)))"
proof -
  obtain s s' n segs where r: "mm_init heap0 = Some s" "mm_malloc False 200 s = Some (of_nat (88 + 8), s')"
      "heap_inv s' segs" "allocs segs = {(88, n)}" "200 + 8 \<le> 8 * n" "unat (mem_brk s') = 304" "mem_max_addr s' = 65600"
    by (rule run_malloc)
  have "room s' 5000" using r(6,7) by (simp add: room_def)
  moreover have "(88, n) \<in> allocs segs" using r(4) by simp
  ultimately obtain b m s'' segs' where z: "mm_realloc False (of_nat (88 + 8)) 5000 s' = Some (of_nat (b + 8), s'')"
      "heap_inv s'' segs'" "allocs segs' = insert (b, m) (allocs segs - {(88, n)})" "5000 \<le> 8 * m - 8"
      "\<forall>i < min (8 * n - 8) 5000. mem_bytes s'' (b + 8 + i) = mem_bytes s' (88 + 8 + i)"
    using mm_realloc_correct [OF r(3), of 88 n 5000 False] by auto
  show ?thesis
    by (rule exI [of _ s], rule exI [of _ "of_nat (88 + 8)"], rule exI [of _ s'], rule exI [of _ "of_nat (b + 8)"],
        rule exI [of _ s''], rule exI [of _ segs'], rule exI [of _ n], rule exI [of _ m])
      (use r z in auto)
qed

end
