(* ===== verification/MmFacts.thy ===== *)
theory MmFacts
  imports MmSpec
begin

text \<open>
  The other promises of \<open>malloclab-handout/mm.c\<close>: what \<open>mem_init\<close> and \<open>mm_init\<close> set up, what
  the heap checker says of the heaps the package produces, which segment \<open>mm_search\<close> picks, what
  the insertion into the tree and the deletion from it write, and what happens when the memory
  system has no more memory to give.
\<close>

subsection \<open>Initialisation\<close>

text \<open>C25: \<open>mem_init\<close> followed by \<open>mm_init\<close> establishes the invariant with no
  blocks and a heap of 32 bytes, whatever bytes libc's \<open>malloc\<close> returned, provided the 20 MB it
  returned lie below the top of the address space.\<close>

theorem mm_init_correct:
  assumes "p \<noteq> NULL" "unat p + 20971520 < 4294967296"
  shows "\<exists>s s'. mem_init p junk = Some s \<and> mm_init s = Some s' \<and> heap_inv s' [] \<and> lo s' = unat p \<and>
    mem_heapsize s' = 32 \<and> unat (mem_max_addr s') = unat p + 20971520"
proof -
  let ?s = "\<lparr>mem_start_brk = p, mem_brk = p, mem_max_addr = p + MAX_HEAP, mem_bytes = junk\<rparr>"
  have M: "MAX_HEAP = 20971520" by (simp add: MAX_HEAP_def)
  have u: "unat (p + 20971520) = unat p + 20971520" using assms(2) unat_add_lem [of p 20971520] by simp
  have "0 < unat p" using assms(1) unat_gt_0 [of p] by (simp add: NULL_def)
  then have "fresh ?s" using u by (simp add: fresh_def lo_def M)
  from mm_init_inv [OF this] obtain s' where s': "mm_init ?s = Some s'" "heap_inv s' []" "unat (mem_brk s') = lo ?s + 32"
      "mem_start_brk s' = mem_start_brk ?s" "mem_max_addr s' = mem_max_addr ?s" by blast
  have l: "lo s' = unat p" "lo ?s = unat p" using s'(4) by (simp_all add: lo_def)
  have "unat (p + 32) = unat p + 32" using assms(2) unat_add_lem [of p 32] by simp
  then have "mem_brk s' = p + 32" using s'(3) l by (simp add: word_unat_eq_iff)
  then have "mem_heapsize s' = 32" using s'(4) by (simp add: mem_heapsize_def)
  then show ?thesis using s' l u assms(1)
    by (intro exI [of _ ?s] exI [of _ s']) (simp add: mem_init_def M)
qed

theorem mm_init_correct_witness:
  "\<exists>s s'. mem_init 4096 (\<lambda>i. of_nat i) = Some s \<and> mm_init s = Some s' \<and> heap_inv s' [] \<and> mem_heapsize s' = 32"
  using mm_init_correct [of 4096 "\<lambda>i. of_nat i"] by (auto simp: NULL_def)

subsection \<open>The heap checker\<close>

text \<open>C26: on every heap that satisfies the invariant, so after every operation of
  the package, the checker \<open>mm_check\<close> returns, through its walk over the segments and its walk
  over the tree, and accepts the heap.\<close>

theorem mm_check_accepts:
  assumes "heap_inv s segs"
  shows "mm_check s = Some True"
  by (rule mm_check_inv [OF assms])

theorem mm_check_accepts_witness: "\<exists>s. mm_init heap0 = Some s \<and> mm_check s = Some True"
proof -
  obtain s where "mm_init heap0 = Some s" "heap_inv s []" by (rule run_init)
  then show ?thesis using mm_check_accepts [of s "[]"] by blast
qed

subsection \<open>The tree of free segments\<close>

text \<open>The longest path of a tree: the most nodes a descent of the code can visit.\<close>

fun depth :: "tree \<Rightarrow> nat" where
  "depth Leaf = 0"
| "depth (Node c l x r) = Suc (max (depth l) (depth r))"

lemma depth_bh: "invh t \<Longrightarrow> invc t \<Longrightarrow> depth t \<le> 2 * bh t + (if col t then 1 else 0)"
proof (induction t)
  case (Node c l x r)
  then show ?case by (cases "col l"; cases "col r"; cases c) auto
qed simp

lemma length_bh: "invh t \<Longrightarrow> 2 ^ bh t \<le> length (inorder t) + 1"
  by (induction t) auto

lemma rb_depth:
  assumes "rb_inv t"
  shows "2 ^ (depth t div 2) \<le> length (inorder t) + 1"
proof -
  have "depth t div 2 \<le> bh t" using depth_bh [of t] assms by (simp add: rb_inv_def)
  then have "(2::nat) ^ (depth t div 2) \<le> 2 ^ bh t" by (intro power_increasing) simp_all
  also have "\<dots> \<le> length (inorder t) + 1" using length_bh [of t] assms by (simp add: rb_inv_def)
  finally show ?thesis .
qed

text \<open>C6: \<open>mm_insert\<close>, which descends, splits and rotates on the pointers of the
  nodes, implements the insertion into a red-black tree: the nodes form the tree of the functional
  insertion, ordered by size and address, balanced, one node larger and of logarithmic depth, and
  nothing but the links and colours of these nodes and the root word is written.\<close>

theorem mm_insert_refines:
  assumes "tree_in N s t" "rb_inv t" "ordered (sizes (node_at s)) t"
    and new: "new \<in> N" "new \<notin> nodes t" "new \<noteq> data_null s" "\<not> n_null (node_at s new)"
  shows "\<exists>s' t'. mm_insert new s = Some s' \<and> t' = insert_root (sizes (node_at s)) new t \<and> tree_in N s' t' \<and>
    rb_inv t' \<and> ordered (sizes (node_at s')) t' \<and> nodes t' = insert new (nodes t) \<and>
    2 ^ (depth t' div 2) \<le> length (inorder t') + 1 \<and> tree_frame (insert new (nodes t)) s s'"
proof -
  let ?t = "insert_root (sizes (node_at s)) new t"
  obtain s' where s': "mm_insert new s = Some s'" "tree_in N s' ?t" "tree_frame (insert new (nodes t)) s s'"
    using mm_insert_tree [OF assms(1) new] by blast
  have n: "nodes ?t = insert new (nodes t)" by (simp add: insert_root_def)
  have "ordered (sizes (node_at s)) ?t"
    using ordered_ins [OF assms(3) new(2)] by (simp add: insert_root_def ordered_def)
  then have "ordered (sizes (node_at s')) ?t"
    using tree_frame_sizes [OF s'(3)] n ordered_cong [of ?t "sizes (node_at s')" "sizes (node_at s)"] by simp
  with s' n show ?thesis
    using rb_inv_insert [OF assms(2)] rb_depth [OF rb_inv_insert [OF assms(2)]]
    by (intro exI [of _ s'] exI [of _ ?t]) simp
qed

text \<open>C7: \<open>mm_delete\<close>, with its search for the node, its replacement by the next
  one and the rebalancing on the way up, implements the deletion from a red-black tree: exactly the
  node is gone, the order of the others is kept, the tree is balanced, and nothing but links,
  colours and the root word is written. The result does not depend on the value \<open>ub\<close> of the
  variable the code leaves uninitialised.\<close>

theorem mm_delete_refines:
  assumes "tree_in N s t" "d \<in> nodes t" "ordered (sizes (node_at s)) t" "rb_inv t"
  shows "\<exists>s' t'. mm_delete d ub s = Some s' \<and> t' = delete_root (sizes (node_at s)) d t \<and> tree_in N s' t' \<and>
    rb_inv t' \<and> ordered (sizes (node_at s')) t' \<and> inorder t' = remove1 d (inorder t) \<and>
    2 ^ (depth t' div 2) \<le> length (inorder t') + 1 \<and> tree_frame (nodes t) s s'"
proof -
  let ?t = "delete_root (sizes (node_at s)) d t"
  obtain s' where s': "mm_delete d ub s = Some s'" "tree_in N s' ?t" "tree_frame (nodes t) s s'"
    using mm_delete_tree [OF assms] by blast
  have i: "inorder ?t = remove1 d (inorder t)" using inorder_del [OF assms(2,3)] by (simp add: delete_root_def)
  have "ordered (sizes (node_at s)) ?t"
    using assms(3) sorted_wrt_remove1 [of "cmp (sizes (node_at s))"] by (simp add: ordered_def i)
  moreover have "nodes ?t \<subseteq> nodes t" by (simp add: i set_remove1_subset)
  ultimately have "ordered (sizes (node_at s')) ?t"
    using tree_frame_sizes [OF s'(3)] ordered_cong [of ?t "sizes (node_at s')" "sizes (node_at s)"] by auto
  with s' i show ?thesis
    using rb_inv_delete [OF assms(2-4)] rb_depth [OF rb_inv_delete [OF assms(2-4)]]
    by (intro exI [of _ s'] exI [of _ ?t]) simp
qed

text \<open>A node at address 96 of the heap that \<open>mm_init\<close> sets up at address 64.\<close>

lemma run_insert:
  obtains s where "mm_init heap0 = Some s" "tree_in {68, 96} s Leaf" "data_null s = 68" "\<not> n_null (node_at s 96)"
proof -
  have f: "fresh heap0" by (simp add: fresh_def heap0_def lo_def)
  let ?s = "heap0\<lparr>mem_brk := mem_brk heap0 + 32, mem_bytes := init_bytes (lo heap0) (data_null heap0) (mem_bytes heap0)\<rparr>"
  note r = mm_init_run [OF f]
  have d: "data_null ?s = 68" "data_null heap0 = 68" by (simp_all add: data_null_def mem_heap_lo_def heap0_def)
  obtain u where u: "nodes u = {}" "tree_in {68} ?s u"
    using mm_init_free_set [OF f] d(1) by (rule_tac free_set_tree [of ?s "{}"]) simp_all
  then have "tree_in {68} ?s Leaf" by (cases u) simp_all
  then have t: "tree_in {68, 96} ?s Leaf"
    by (auto simp: tree_in_def ns.rep_def ns.is_nil_def region_def apart_def node_ok_def mem_ok_def above_root_def heap0_def)
  have "rd32 (mem_bytes ?s) 100 = 0"
    by (rule rd32_zero) (simp add: init_bytes_def Let_def wr32_other heap0_def lo_def)
  then have "\<not> n_null (node_at ?s 96)" by (simp add: node_at_sel)
  with r t d(1) show ?thesis by (intro that [of ?s]) simp_all
qed

theorem mm_insert_refines_witness:
  "\<exists>s s'. mm_init heap0 = Some s \<and> mm_insert 96 s = Some s' \<and> tree_in {68, 96} s' (Node MM_COLOR_BLACK Leaf 96 Leaf)"
proof -
  obtain s where s: "mm_init heap0 = Some s" "tree_in {68, 96} s Leaf" "data_null s = 68" "\<not> n_null (node_at s 96)"
    by (rule run_insert)
  then show ?thesis
    using mm_insert_refines [OF s(2), of 96] by (auto simp: rb_inv_def ordered_def insert_root_def)
qed

theorem mm_delete_refines_witness:
  "\<exists>s s' s''. mm_init heap0 = Some s \<and> mm_insert 96 s = Some s' \<and> mm_delete 96 True s' = Some s'' \<and>
    tree_in {68, 96} s'' Leaf"
proof -
  obtain s where s: "mm_init heap0 = Some s" "tree_in {68, 96} s Leaf" "data_null s = 68" "\<not> n_null (node_at s 96)"
    by (rule run_insert)
  let ?t = "Node MM_COLOR_BLACK Leaf 96 Leaf"
  obtain s' where s': "mm_insert 96 s = Some s'" "tree_in {68, 96} s' ?t"
    using mm_insert_tree [OF s(2), of 96] s(3,4) by (auto simp: insert_root_def)
  have "ordered (sizes (node_at s')) ?t" "rb_inv ?t" by (simp_all add: rb_inv_def ordered_def)
  with s(1) s' show ?thesis
    using mm_delete_refines [OF s'(2), of 96 True] by (auto simp: delete_root_def)
qed

subsection \<open>The search\<close>

lemma seg_sizes:
  assumes "heap_inv s segs" "(b, k, False) \<in> set segs"
  shows "sizes (node_at s) (of_nat b) = of_nat k" "b < 4294967296" "k < 4294967296" "of_nat b \<in> frees segs"
proof -
  note H = heap_invD [OF assms(1)]
  obtain xs ys where "segs = xs @ (b, k, False) # ys" using assms(2) by (auto dest: split_list)
  then show "sizes (node_at s) (of_nat b) = of_nat k"
    using hinv_seg(2,7) [of free_set s "{}" xs b k False ys "frees segs"] H by (simp add: sizes_def node_at_sel hbits_def)
  show "b < 4294967296" "k < 4294967296" "of_nat b \<in> frees segs"
    using hinv_mem(5,6) [OF H assms(2)] assms(2) by (auto simp: frees_def)
qed

text \<open>C8: \<open>mm_search\<close> returns \<open>NULL\<close> exactly if every free segment is smaller than
  the request; otherwise it returns the address of a free segment that is large enough, of which
  there is no smaller one that fits, and the lowest of those of that size.\<close>

theorem mm_search_best:
  assumes "heap_inv s segs" "n < 536870912"
  shows "\<exists>p. mm_search (of_nat n) s = Some p \<and>
    (if p = NULL then \<forall>(b, k, al) \<in> set segs. \<not> al \<longrightarrow> k < n
     else \<exists>a m. (a, m, False) \<in> set segs \<and> p = of_nat a \<and> n \<le> m \<and>
       (\<forall>(b, k, al) \<in> set segs. \<not> al \<and> n \<le> k \<longrightarrow> m < k \<or> m = k \<and> a \<le> b))"
proof -
  note H = heap_invD [OF assms(1)] note B = hinv_bounds [OF H]
  obtain p where p: "mm_search (of_nat n) s = Some p" "best_fit (sizes (node_at s)) (frees segs) (of_nat n) p"
    using ft.search B(7) by blast
  note sz = seg_sizes [OF assms(1)]
  have n: "n < 4294967296" using assms(2) by simp
  show ?thesis
  proof (cases "p = NULL")
    case True
    have "k < n" if "(b, k, False) \<in> set segs" for b k
    proof -
      have "sizes (node_at s) (of_nat b) < of_nat n" using p(2) True sz(4) [OF that] by (simp add: best_fit_def)
      then show ?thesis using sz(1,3) [OF that] of_nat_less [OF _ n, of k] by simp
    qed
    then show ?thesis using p(1) True by auto
  next
    case False
    then obtain a m where a: "(a, m, False) \<in> set segs" "p = of_nat a" using p(2) by (auto simp: best_fit_def frees_def)
    have "n \<le> m" using p(2) False a sz [OF a(1)] of_nat_le [OF n, of m] by (simp add: best_fit_def)
    have best: "m < k \<or> m = k \<and> a \<le> b" if "(b, k, False) \<in> set segs" "n \<le> k" for b k
    proof (cases "(of_nat b :: ptr) = of_nat a")
      case True
      then have "a = b" using of_nat_inj sz(2) [OF that(1)] sz(2) [OF a(1)] by metis
      then show ?thesis using hinv_disj [OF H that(1) a(1)] hinv_mem(3) [OF H a(1)] hinv_mem(3) [OF H that(1)] by auto
    next
      case False
      then have "cmp (sizes (node_at s)) p (of_nat b)"
        using p(2) \<open>p \<noteq> NULL\<close> sz [OF that(1)] that(2) of_nat_le [OF n, of k] a(2) by (auto simp: best_fit_def)
      then show ?thesis
        using sz [OF that(1)] sz [OF a(1)] a(2) of_nat_less [of m k] of_nat_less [of a b] of_nat_inj [of m k]
        by (auto simp: cmp_def split: if_splits)
    qed
    have "\<forall>(b, k, al) \<in> set segs. \<not> al \<and> n \<le> k \<longrightarrow> m < k \<or> m = k \<and> a \<le> b"
    proof
      fix x assume x: "x \<in> set segs"
      obtain b k al where y: "x = (b, k, al)" by (cases x)
      show "case x of (b, k, al) \<Rightarrow> \<not> al \<and> n \<le> k \<longrightarrow> m < k \<or> m = k \<and> a \<le> b"
        using best [of b k] x by (cases al) (simp_all add: y)
    qed
    with \<open>n \<le> m\<close> show ?thesis
      using p(1) a False by (intro exI [of _ p]) (simp, intro exI [of _ a] exI [of _ m], simp)
  qed
qed

theorem mm_search_best_witness: "\<exists>s. mm_init heap0 = Some s \<and> mm_search (of_nat 3) s = Some NULL"
proof -
  obtain s where "mm_init heap0 = Some s" "heap_inv s []" by (rule run_init)
  then show ?thesis using mm_search_best [of s "[]" 3] by (auto split: if_splits)
qed

subsection \<open>Out of memory\<close>

text \<open>
  \<open>mem_sbrk\<close> returns \<open>(void *)-1\<close> when it is out of memory; \<open>mm_sbrk\<close> does not look at it and
  writes a header 9 bytes below the top of the address space.
\<close>

lemma set_size_top:
  assumes "unat (mem_max_addr s) < 4294967295"
  shows "set_size (- 1 - 8) v s = None"
proof -
  have "unat ((- 1 - 8 :: ptr)) = 4294967287" by simp
  then show ?thesis using assms by (simp add: set_size_def set_bits_def get_bits_def load32_def mem_ok_def)
qed

lemma sbrk_none:
  assumes "unat (mem_brk s) + n > unat (mem_max_addr s)" "n < 2147483648"
  shows "fst (mem_sbrk (of_nat n) s) = - 1 \<or> unat (mem_brk s) + n \<ge> 4294967296"
proof (cases "unat (mem_brk s) + n < 4294967296")
  case True
  have un: "unat (of_nat n :: c_int) = n" using assms(2) by (intro unat_of) simp
  then have "unat (mem_brk s + of_nat n) = unat (mem_brk s) + n"
    using True unat_add_lem [of "mem_brk s" "of_nat n"] by simp
  then show ?thesis using assms(1) by (simp add: mem_sbrk_def Let_def word_less_nat_alt)
qed simp

text \<open>C27: when no free segment fits and the memory system refuses to extend the heap,
  \<open>mm_malloc\<close> does not return a null pointer: it goes on with the \<open>(void *)-1\<close> of the failed
  \<open>mem_sbrk\<close> and accesses memory outside the heap.\<close>

theorem mm_malloc_oom:
  assumes "heap_inv s segs" "unat sz < 2147483000" "\<forall>(b, k, al) \<in> set segs. \<not> al \<longrightarrow> k < units sz"
    and full: "unat (mem_brk s) + max 144 (8 * units sz) > unat (mem_max_addr s)"
    and top: "unat (mem_brk s) + max 144 (8 * units sz) < 4294967296" "unat (mem_max_addr s) < 4294967295"
  shows "mm_malloc ub sz s = None"
proof -
  let ?k = "units sz"
  note H = heap_invD [OF assms(1)]
  have k: "drop_bit 3 (ALIGN sz + 8) = of_nat ?k" "8 * ?k < 2147483648" "?k < 536870912"
    using align_units [of sz] units_bounds(2) [of sz] assms(2) by simp_all
  obtain p where p: "mm_search (of_nat ?k) s = Some p" "best_fit (sizes (node_at s)) (frees segs) (of_nat ?k) p"
    using ft.search [OF hinv_bounds(7) [OF H]] by blast
  have "p = NULL"
  proof (rule ccontr)
    assume "p \<noteq> NULL"
    then obtain a m where a: "(a, m, False) \<in> set segs" "of_nat ?k \<le> sizes (node_at s) (of_nat a)"
      using p(2) by (auto simp: best_fit_def frees_def)
    then show False using seg_sizes [OF assms(1) a(1)] assms(3) of_nat_le [of ?k m] k(3) by auto
  qed
  define n where "n = (if ?k < 18 then 144 else 8 * ?k)"
  have n: "n < 2147483648" "max 144 (8 * ?k) = n" using k(2) by (auto simp: n_def)
  have "fst (mem_sbrk (of_nat n) s) = - 1" using sbrk_none [of s n] full top(1) n by auto
  then obtain t where t: "mem_sbrk (of_nat n) s = (- 1, t)" "mem_max_addr t = mem_max_addr s"
    by (auto simp: mem_sbrk_def Let_def split: if_splits)
  have lt: "of_nat (8 * ?k) < MM_UNIT \<longleftrightarrow> ?k < 18" using of_nat_less [of "8 * ?k" 144] k(2) by simp
  have "mm_sbrk (of_nat (8 * ?k)) s = None"
    using t set_size_top [of t] top(2) lt
    by (simp add: mm_sbrk_def n_def Let_def split: if_splits del: of_nat_mult)
  then show ?thesis using p(1) \<open>p = NULL\<close> k(1)
    by (simp add: mm_malloc_def Let_def push3_of_nat del: of_nat_mult)
qed

theorem mm_malloc_oom_witness: "\<exists>s. mm_init heap0 = Some s \<and> mm_malloc True 200000 s = None"
proof -
  obtain s where s: "mm_init heap0 = Some s" "heap_inv s []" "unat (mem_brk s) = 96" "mem_max_addr s = 65600"
    by (rule run_init)
  then show ?thesis using mm_malloc_oom [OF s(2), of 200000 True] by (auto simp: units_def)
qed

end
