(* ===== verification/Mdriver.thy ===== *)
theory Mdriver
  imports Complex_Main Mm
begin

text \<open>
  The trace driver \<open>malloclab-handout/mdriver.c\<close>: the list of the extents of the allocated
  payloads, the checks of the validity, the space utilisation and the speed runs, and the
  performance index. The package under test is the record \<open>pkg\<close> of the four functions the driver
  is linked with; \<open>mm_pkg\<close> is the one of \<open>mm.c\<close>. What the driver prints is left out, except for
  the counter \<open>errors\<close> of the messages; \<open>d_mem\<close> tells whether libc's \<open>malloc\<close> still finds memory
  for the driver's own records. A function yields \<open>None\<close> when the program faults (or the package
  does not return), and otherwise how it ended and the state: \<open>Fine\<close> stands for the result 1 of an
  evaluation and for going on inside one, \<open>Bad\<close> for the result 0.
\<close>

subsection \<open>Data\<close>

datatype outcome = Fine | Bad | Aborts | Exits

record pkg =
  pkg_init :: "heap \<Rightarrow> (c_int \<times> heap) option"
  pkg_malloc :: "c_uint \<Rightarrow> heap \<Rightarrow> (ptr \<times> heap) option"
  pkg_realloc :: "ptr \<Rightarrow> c_uint \<Rightarrow> heap \<Rightarrow> (ptr \<times> heap) option"
  pkg_free :: "ptr \<Rightarrow> heap \<Rightarrow> heap option"

definition mm_pkg :: "bool \<Rightarrow> pkg" where
  "mm_pkg ub = \<lparr>pkg_init = (\<lambda>s. map_option (\<lambda>s. (0, s)) (mm_init s)), pkg_malloc = mm_malloc ub,
     pkg_realloc = mm_realloc ub, pkg_free = mm_free ub\<rparr>"

record range_t =
  r_lo :: ptr
  r_hi :: ptr

datatype op_type = ALLOC | FREE | REALLOC

record traceop_t =
  op_type :: op_type
  op_index :: c_int
  op_size :: c_int

record trace_t =
  sugg_heapsize :: c_int
  num_ids :: c_int
  num_ops :: c_int
  weight :: c_int
  ops :: "traceop_t list"
  blocks :: "ptr list"
  block_sizes :: "c_uint list"

record driver =
  d_heap :: heap
  d_trace :: trace_t
  d_ranges :: "range_t list"
  d_errors :: c_int
  d_mem :: bool

text \<open>Arrays of \<open>malloc\<close> indexed by an \<open>int\<close>: an access outside is undefined.\<close>

definition elem :: "'a list \<Rightarrow> c_int \<Rightarrow> 'a option" where
  "elem xs i = (if 0 \<le>s i \<and> unat i < length xs then Some (xs ! unat i) else None)"

definition put :: "'a list \<Rightarrow> c_int \<Rightarrow> 'a \<Rightarrow> 'a list option" where
  "put xs i x = (if 0 \<le>s i \<and> unat i < length xs then Some (xs[unat i := x]) else None)"

definition malloc_error :: "driver \<Rightarrow> driver" where
  "malloc_error d = d\<lparr>d_errors := d_errors d + 1\<rparr>"

subsection \<open>The range list\<close>

definition IS_ALIGNED :: "ptr \<Rightarrow> bool" where
  "IS_ALIGNED p \<longleftrightarrow> p mod 8 = 0"

fun overlaps :: "ptr \<Rightarrow> ptr \<Rightarrow> range_t list \<Rightarrow> bool" where
  "overlaps lo hi [] = False"
| "overlaps lo hi (p # ps) =
     (if (r_lo p \<le> lo \<and> lo \<le> r_hi p) \<or> (r_lo p \<le> hi \<and> hi \<le> r_hi p) then True else overlaps lo hi ps)"

definition add_range :: "ptr \<Rightarrow> c_int \<Rightarrow> driver \<Rightarrow> outcome \<times> driver" where
  "add_range lo sz d =
    (let hi = lo + sz - 1
     in if \<not> 0 <s sz then (Aborts, d)
        else if \<not> IS_ALIGNED lo then (Bad, malloc_error d)
        else if lo < mem_heap_lo (d_heap d) \<or> lo > mem_heap_hi (d_heap d) \<or>
          hi < mem_heap_lo (d_heap d) \<or> hi > mem_heap_hi (d_heap d) then (Bad, malloc_error d)
        else if overlaps lo hi (d_ranges d) then (Bad, malloc_error d)
        else if \<not> d_mem d then (Exits, d)
        else (Fine, d\<lparr>d_ranges := \<lparr>r_lo = lo, r_hi = hi\<rparr> # d_ranges d\<rparr>))"

fun remove_range :: "ptr \<Rightarrow> range_t list \<Rightarrow> range_t list" where
  "remove_range lo [] = []"
| "remove_range lo (p # ps) = (if r_lo p = lo then ps else p # remove_range lo ps)"

definition clear_ranges :: "driver \<Rightarrow> driver" where
  "clear_ranges d = d\<lparr>d_ranges := []\<rparr>"

subsection \<open>Validity\<close>

text \<open>\<open>trace->blocks[index] = p; trace->block_sizes[index] = size\<close>.\<close>

definition remember :: "c_int \<Rightarrow> ptr \<Rightarrow> c_int \<Rightarrow> trace_t \<Rightarrow> trace_t option" where
  "remember i p sz t = do {
     bs \<leftarrow> put (blocks t) i p;
     zs \<leftarrow> put (block_sizes t) i sz;
     Some (t\<lparr>blocks := bs, block_sizes := zs\<rparr>) }"

text \<open>The loop over the bytes of a moved block: \<open>newp[j]\<close> is a \<open>char\<close>, which is signed, and is
  promoted to \<open>int\<close>.\<close>

primrec same_fill :: "nat \<Rightarrow> c_int \<Rightarrow> nat \<Rightarrow> heap \<Rightarrow> bool option" where
  "same_fill a c 0 s = Some True"
| "same_fill a c (Suc k) s = do {
     v \<leftarrow> load8 a s;
     if scast v \<noteq> c then Some False else same_fill (a + 1) c k s }"

definition valid_alloc :: "pkg \<Rightarrow> c_int \<Rightarrow> c_int \<Rightarrow> driver \<Rightarrow> (outcome \<times> driver) option" where
  "valid_alloc pk index sz d = do {
     (p, s) \<leftarrow> pkg_malloc pk sz (d_heap d);
     let d = d\<lparr>d_heap := s\<rparr>;
     if p = NULL then Some (Bad, malloc_error d)
     else do {
       let (r, d) = add_range p sz d;
       if r \<noteq> Fine then Some (r, d)
       else do {
         s \<leftarrow> memset_loop (unat p) (ucast (index AND 0xFF)) (unat sz) (d_heap d);
         t \<leftarrow> remember index p sz (d_trace d);
         Some (Fine, d\<lparr>d_heap := s, d_trace := t\<rparr>) } } }"

definition valid_realloc :: "pkg \<Rightarrow> c_int \<Rightarrow> c_int \<Rightarrow> driver \<Rightarrow> (outcome \<times> driver) option" where
  "valid_realloc pk index sz d = do {
     oldp \<leftarrow> elem (blocks (d_trace d)) index;
     (newp, s) \<leftarrow> pkg_realloc pk oldp sz (d_heap d);
     let d = d\<lparr>d_heap := s\<rparr>;
     if newp = NULL then Some (Bad, malloc_error d)
     else do {
       let d = d\<lparr>d_ranges := remove_range oldp (d_ranges d)\<rparr>;
       let (r, d) = add_range newp sz d;
       if r \<noteq> Fine then Some (r, d)
       else do {
         oldsize \<leftarrow> elem (block_sizes (d_trace d)) index;
         let oldsize = (if sz <s oldsize then sz else oldsize);
         same \<leftarrow> same_fill (unat newp) (index AND 0xFF) (nat (sint oldsize)) (d_heap d);
         if \<not> same then Some (Bad, malloc_error d)
         else do {
           s \<leftarrow> memset_loop (unat newp) (ucast (index AND 0xFF)) (unat sz) (d_heap d);
           t \<leftarrow> remember index newp sz (d_trace d);
           Some (Fine, d\<lparr>d_heap := s, d_trace := t\<rparr>) } } } }"

definition valid_free :: "pkg \<Rightarrow> c_int \<Rightarrow> driver \<Rightarrow> (outcome \<times> driver) option" where
  "valid_free pk index d = do {
     p \<leftarrow> elem (blocks (d_trace d)) index;
     let d = d\<lparr>d_ranges := remove_range p (d_ranges d)\<rparr>;
     s \<leftarrow> pkg_free pk p (d_heap d);
     Some (Fine, d\<lparr>d_heap := s\<rparr>) }"

fun valid_op :: "pkg \<Rightarrow> traceop_t \<Rightarrow> driver \<Rightarrow> (outcome \<times> driver) option" where
  "valid_op pk r d = (case op_type r of
     ALLOC \<Rightarrow> valid_alloc pk (op_index r) (op_size r) d
   | REALLOC \<Rightarrow> valid_realloc pk (op_index r) (op_size r) d
   | FREE \<Rightarrow> valid_free pk (op_index r) d)"

fun valid_ops :: "pkg \<Rightarrow> traceop_t list \<Rightarrow> driver \<Rightarrow> (outcome \<times> driver) option" where
  "valid_ops pk [] d = Some (Fine, d)"
| "valid_ops pk (r # rs) d = do {
     (q, d) \<leftarrow> valid_op pk r d;
     if q = Fine then valid_ops pk rs d else Some (q, d) }"

text \<open>The array \<open>ops\<close> has \<open>num_ops\<close> elements.\<close>

definition requests :: "trace_t \<Rightarrow> traceop_t list" where
  "requests t = take (nat (sint (num_ops t))) (ops t)"

definition eval_mm_valid :: "pkg \<Rightarrow> driver \<Rightarrow> (outcome \<times> driver) option" where
  "eval_mm_valid pk d = do {
     let d = clear_ranges (d\<lparr>d_heap := mem_reset_brk (d_heap d)\<rparr>);
     (e, s) \<leftarrow> pkg_init pk (d_heap d);
     let d = d\<lparr>d_heap := s\<rparr>;
     if e <s 0 then Some (Bad, malloc_error d) else valid_ops pk (requests (d_trace d)) d }"

subsection \<open>Space utilisation\<close>

text \<open>The state of the loop: \<open>total_size\<close> and \<open>max_total_size\<close> beside the driver.\<close>

definition c_max :: "c_int \<Rightarrow> c_int \<Rightarrow> c_int" where
  "c_max tot m = (if m <s tot then tot else m)"

type_synonym util_state = "c_int \<times> c_int \<times> driver"

definition util_alloc :: "pkg \<Rightarrow> c_int \<Rightarrow> c_int \<Rightarrow> util_state \<Rightarrow> (outcome \<times> util_state) option" where
  "util_alloc pk index sz = (\<lambda>(tot, m, d). do {
     (p, s) \<leftarrow> pkg_malloc pk sz (d_heap d);
     let d = d\<lparr>d_heap := s\<rparr>;
     if p = NULL then Some (Exits, (tot, m, d))
     else do {
       t \<leftarrow> remember index p sz (d_trace d);
       let tot = tot + sz;
       Some (Fine, (tot, c_max tot m, d\<lparr>d_trace := t\<rparr>)) } })"

definition util_realloc :: "pkg \<Rightarrow> c_int \<Rightarrow> c_int \<Rightarrow> util_state \<Rightarrow> (outcome \<times> util_state) option" where
  "util_realloc pk index newsize = (\<lambda>(tot, m, d). do {
     oldsize \<leftarrow> elem (block_sizes (d_trace d)) index;
     oldp \<leftarrow> elem (blocks (d_trace d)) index;
     (newp, s) \<leftarrow> pkg_realloc pk oldp newsize (d_heap d);
     let d = d\<lparr>d_heap := s\<rparr>;
     if newp = NULL then Some (Exits, (tot, m, d))
     else do {
       t \<leftarrow> remember index newp newsize (d_trace d);
       let tot = tot + (newsize - oldsize);
       Some (Fine, (tot, c_max tot m, d\<lparr>d_trace := t\<rparr>)) } })"

definition util_free :: "pkg \<Rightarrow> c_int \<Rightarrow> util_state \<Rightarrow> (outcome \<times> util_state) option" where
  "util_free pk index = (\<lambda>(tot, m, d). do {
     sz \<leftarrow> elem (block_sizes (d_trace d)) index;
     p \<leftarrow> elem (blocks (d_trace d)) index;
     s \<leftarrow> pkg_free pk p (d_heap d);
     Some (Fine, (tot - sz, m, d\<lparr>d_heap := s\<rparr>)) })"

fun util_op :: "pkg \<Rightarrow> traceop_t \<Rightarrow> util_state \<Rightarrow> (outcome \<times> util_state) option" where
  "util_op pk r u = (case op_type r of
     ALLOC \<Rightarrow> util_alloc pk (op_index r) (op_size r) u
   | REALLOC \<Rightarrow> util_realloc pk (op_index r) (op_size r) u
   | FREE \<Rightarrow> util_free pk (op_index r) u)"

fun util_ops :: "pkg \<Rightarrow> traceop_t list \<Rightarrow> util_state \<Rightarrow> (outcome \<times> util_state) option" where
  "util_ops pk [] u = Some (Fine, u)"
| "util_ops pk (r # rs) u = do {
     (q, u) \<leftarrow> util_op pk r u;
     if q = Fine then util_ops pk rs u else Some (q, u) }"

text \<open>The quotient of two \<open>double\<close>s that hold integers is the real number.\<close>

definition eval_mm_util :: "pkg \<Rightarrow> driver \<Rightarrow> (outcome \<times> real \<times> driver) option" where
  "eval_mm_util pk d = do {
     (e, s) \<leftarrow> pkg_init pk (mem_reset_brk (d_heap d));
     let d = d\<lparr>d_heap := s\<rparr>;
     if e <s 0 then Some (Exits, 0, d)
     else do {
       (q, (_, m, d)) \<leftarrow> util_ops pk (requests (d_trace d)) (0, 0, d);
       Some (q, real_of_int (sint m) / real (unat (mem_heapsize (d_heap d))), d) } }"

subsection \<open>Speed\<close>

definition remember_block :: "c_int \<Rightarrow> ptr \<Rightarrow> trace_t \<Rightarrow> trace_t option" where
  "remember_block i p t = do { bs \<leftarrow> put (blocks t) i p; Some (t\<lparr>blocks := bs\<rparr>) }"

fun speed_op :: "pkg \<Rightarrow> traceop_t \<Rightarrow> driver \<Rightarrow> (outcome \<times> driver) option" where
  "speed_op pk r d = (case op_type r of
     ALLOC \<Rightarrow> do {
       (p, s) \<leftarrow> pkg_malloc pk (op_size r) (d_heap d);
       let d = d\<lparr>d_heap := s\<rparr>;
       if p = NULL then Some (Exits, d)
       else do { t \<leftarrow> remember_block (op_index r) p (d_trace d); Some (Fine, d\<lparr>d_trace := t\<rparr>) } }
   | REALLOC \<Rightarrow> do {
       oldp \<leftarrow> elem (blocks (d_trace d)) (op_index r);
       (newp, s) \<leftarrow> pkg_realloc pk oldp (op_size r) (d_heap d);
       let d = d\<lparr>d_heap := s\<rparr>;
       if newp = NULL then Some (Exits, d)
       else do { t \<leftarrow> remember_block (op_index r) newp (d_trace d); Some (Fine, d\<lparr>d_trace := t\<rparr>) } }
   | FREE \<Rightarrow> do {
       block \<leftarrow> elem (blocks (d_trace d)) (op_index r);
       s \<leftarrow> pkg_free pk block (d_heap d);
       Some (Fine, d\<lparr>d_heap := s\<rparr>) })"

fun speed_ops :: "pkg \<Rightarrow> traceop_t list \<Rightarrow> driver \<Rightarrow> (outcome \<times> driver) option" where
  "speed_ops pk [] d = Some (Fine, d)"
| "speed_ops pk (r # rs) d = do {
     (q, d) \<leftarrow> speed_op pk r d;
     if q = Fine then speed_ops pk rs d else Some (q, d) }"

definition eval_mm_speed :: "pkg \<Rightarrow> driver \<Rightarrow> (outcome \<times> driver) option" where
  "eval_mm_speed pk d = do {
     (e, s) \<leftarrow> pkg_init pk (mem_reset_brk (d_heap d));
     let d = d\<lparr>d_heap := s\<rparr>;
     if e <s 0 then Some (Exits, d) else speed_ops pk (requests (d_trace d)) d }"

subsection \<open>The C library's allocator\<close>

text \<open>The runs that use libc instead of the package; libc's allocator, with the state \<open>'w\<close> of its
  memory, is a parameter.\<close>

record 'w libc =
  libc_malloc :: "c_uint \<Rightarrow> 'w \<Rightarrow> ptr \<times> 'w"
  libc_realloc :: "ptr \<Rightarrow> c_uint \<Rightarrow> 'w \<Rightarrow> ptr \<times> 'w"
  libc_free :: "ptr \<Rightarrow> 'w \<Rightarrow> 'w"

fun libc_op :: "'w libc \<Rightarrow> traceop_t \<Rightarrow> trace_t \<times> 'w \<Rightarrow> (outcome \<times> trace_t \<times> 'w) option" where
  "libc_op lc r (t, w) = (case op_type r of
     ALLOC \<Rightarrow>
       (let (p, w) = libc_malloc lc (op_size r) w
        in if p = NULL then Some (Exits, t, w)
           else map_option (\<lambda>t. (Fine, t, w)) (remember_block (op_index r) p t))
   | REALLOC \<Rightarrow> do {
       oldp \<leftarrow> elem (blocks t) (op_index r);
       let (newp, w) = libc_realloc lc oldp (op_size r) w;
       if newp = NULL then Some (Exits, t, w)
       else map_option (\<lambda>t. (Fine, t, w)) (remember_block (op_index r) newp t) }
   | FREE \<Rightarrow> do {
       p \<leftarrow> elem (blocks t) (op_index r);
       Some (Fine, t, libc_free lc p w) })"

fun libc_ops :: "'w libc \<Rightarrow> traceop_t list \<Rightarrow> trace_t \<times> 'w \<Rightarrow> (outcome \<times> trace_t \<times> 'w) option" where
  "libc_ops lc [] u = Some (Fine, u)"
| "libc_ops lc (r # rs) u = do {
     (q, u) \<leftarrow> libc_op lc r u;
     if q = Fine then libc_ops lc rs u else Some (q, u) }"

definition eval_libc_valid :: "'w libc \<Rightarrow> trace_t \<times> 'w \<Rightarrow> (outcome \<times> trace_t \<times> 'w) option" where
  "eval_libc_valid lc u = libc_ops lc (requests (fst u)) u"

definition eval_libc_speed :: "'w libc \<Rightarrow> trace_t \<times> 'w \<Rightarrow> (outcome \<times> trace_t \<times> 'w) option" where
  "eval_libc_speed lc u = libc_ops lc (requests (fst u)) u"

subsection \<open>The evaluation of a trace and the performance index (main)\<close>

record stats_t =
  s_ops :: real
  s_valid :: bool
  s_secs :: real
  s_util :: real

text \<open>\<open>fsecs\<close> runs the speed evaluation a number of times and returns the seconds a run took, which
  are a parameter.\<close>

fun timed_runs :: "pkg \<Rightarrow> nat \<Rightarrow> driver \<Rightarrow> (outcome \<times> driver) option" where
  "timed_runs pk 0 d = Some (Fine, d)"
| "timed_runs pk (Suc n) d = do {
     (q, d) \<leftarrow> eval_mm_speed pk d;
     if q = Fine then timed_runs pk n d else Some (q, d) }"

definition eval_trace :: "pkg \<Rightarrow> nat \<Rightarrow> real \<Rightarrow> driver \<Rightarrow> (outcome \<times> stats_t \<times> driver) option" where
  "eval_trace pk runs secs d = do {
     let st = \<lparr>s_ops = real_of_int (sint (num_ops (d_trace d))), s_valid = False, s_secs = 0, s_util = 0\<rparr>;
     (q, d) \<leftarrow> eval_mm_valid pk d;
     if q = Fine
     then do {
       let st = st\<lparr>s_valid := True\<rparr>;
       (q, u, d) \<leftarrow> eval_mm_util pk d;
       if q \<noteq> Fine then Some (q, st, d)
       else do {
         let st = st\<lparr>s_util := u\<rparr>;
         (q, d) \<leftarrow> timed_runs pk runs d;
         Some (q, st\<lparr>s_secs := secs\<rparr>, d) } }
     else Some (if q = Bad then Fine else q, st, d) }"

definition UTIL_WEIGHT :: real where "UTIL_WEIGHT = 60 / 100"
definition AVG_LIBC_THRUPUT :: real where "AVG_LIBC_THRUPUT = 600000"

definition perf_index :: "c_int \<Rightarrow> stats_t list \<Rightarrow> real" where
  "perf_index errors stats =
    (let secs = sum_list (map s_secs stats);
         ops = sum_list (map s_ops stats);
         avg_mm_util = sum_list (map s_util stats) / real (length stats)
     in if errors = 0
        then let avg_mm_throughput = ops / secs;
                 p1 = UTIL_WEIGHT * avg_mm_util;
                 p2 = (if avg_mm_throughput > AVG_LIBC_THRUPUT then 1 - UTIL_WEIGHT
                       else (1 - UTIL_WEIGHT) * (avg_mm_throughput / AVG_LIBC_THRUPUT))
             in (p1 + p2) * 100
        else 0)"

end
