(* ===== verification/Trace.thy ===== *)
theory Trace
  imports Mdriver CLib
begin

text \<open>
  The reader of trace files of \<open>malloclab-handout/mdriver.c\<close>. The file is the string of its
  characters; \<open>scan_int\<close> and \<open>scan_word\<close> are the conversions \<open>%d\<close>, \<open>%u\<close> and \<open>%s\<close> of
  \<open>fscanf\<close>, of which the reader ignores the results: a conversion that fails leaves its variable as
  it was. Memory the program does not initialise is a parameter.
\<close>

subsection \<open>fscanf\<close>

text \<open>\<open>%d\<close> and \<open>%u\<close>: the new value of the variable, the rest of the file, and whether the
  conversion succeeded. A number too large for the type is undefined in C; here it is reduced.\<close>

definition scan_int :: "c_uint \<Rightarrow> string \<Rightarrow> c_uint \<times> string \<times> bool" where
  "scan_int old s =
    (let t = dropWhile is_space s;
         neg = (t \<noteq> [] \<and> hd t = CHR ''-'');
         u = (if t \<noteq> [] \<and> (hd t = CHR ''-'' \<or> hd t = CHR ''+'') then tl t else t)
     in if u = [] \<or> \<not> is_digit (hd u) then (old, u, False)
        else let (n, r) = digits 0 u in (if neg then - of_nat n else of_nat n, r, True))"

definition scan_word :: "string \<Rightarrow> (string \<times> string) option" where
  "scan_word s =
    (let t = dropWhile is_space s
     in if t = [] then None else Some (takeWhile (\<lambda>c. \<not> is_space c) t, dropWhile (\<lambda>c. \<not> is_space c) t))"

text \<open>\<open>fscanf(tracefile, "%u %u", &index, &size)\<close> stops at the first conversion that fails.\<close>

definition scan_two :: "c_uint \<Rightarrow> c_uint \<Rightarrow> string \<Rightarrow> c_uint \<times> c_uint \<times> string" where
  "scan_two x y s =
    (let (x, r, ok) = scan_int x s
     in if \<not> ok then (x, y, r) else let (y, r, _) = scan_int y r in (x, y, r))"

text \<open>\<open>fscanf(tracefile, "%ud", &index)\<close>: the \<open>d\<close> is no part of the conversion but a character to match.\<close>

definition scan_ud :: "c_uint \<Rightarrow> string \<Rightarrow> c_uint \<times> string" where
  "scan_ud x s =
    (let (x, r, ok) = scan_int x s
     in if ok \<and> r \<noteq> [] \<and> hd r = CHR ''d'' then (x, tl r) else (x, r))"

lemma scan_word_rest: "scan_word s = Some (w, r) \<Longrightarrow> length r < length s \<and> w \<noteq> []"
proof -
  assume a: "scan_word s = Some (w, r)"
  let ?t = "dropWhile is_space s"
  have t: "?t \<noteq> []" "w = takeWhile (\<lambda>c. \<not> is_space c) ?t" "r = dropWhile (\<lambda>c. \<not> is_space c) ?t"
    using a by (auto simp: scan_word_def Let_def split: if_splits)
  have "\<not> is_space (hd ?t)" using hd_dropWhile t(1) by blast
  then have w: "w \<noteq> []" using t by (cases ?t) auto
  have "length ?t = length w + length r" using t(2,3) by (metis length_append takeWhile_dropWhile_id)
  moreover have "length ?t \<le> length s" by (rule length_dropWhile_le)
  ultimately show ?thesis using w by (cases w) auto
qed

lemma digits_rest: "length (snd (digits acc s)) \<le> length s"
  by (induction acc s rule: digits.induct) (auto simp: le_Suc_eq)

lemma scan_int_rest: "scan_int x s = (y, r, ok) \<Longrightarrow> length r \<le> length s"
proof -
  assume a: "scan_int x s = (y, r, ok)"
  let ?t = "dropWhile is_space s"
  let ?u = "if ?t \<noteq> [] \<and> (hd ?t = CHR ''-'' \<or> hd ?t = CHR ''+'') then tl ?t else ?t"
  have "r = ?u \<or> r = snd (digits 0 ?u)"
    using a by (auto simp: scan_int_def Let_def split: if_splits prod.splits)
  moreover have "length ?u \<le> length s" using length_dropWhile_le [of is_space s] by auto
  ultimately show ?thesis using digits_rest [of 0 ?u] by auto
qed

lemma scan_two_rest: "scan_two x y s = (x', y', r) \<Longrightarrow> length r \<le> length s"
  by (auto simp: scan_two_def Let_def split: if_splits prod.splits dest!: scan_int_rest)

lemma scan_ud_rest: "scan_ud x s = (x', r) \<Longrightarrow> length r \<le> length s"
  by (auto simp: scan_ud_def Let_def split: if_splits prod.splits dest!: scan_int_rest)

subsection \<open>read_trace\<close>

text \<open>The state of the loop: \<open>index\<close>, \<open>size\<close>, \<open>max_index\<close>, \<open>op_index\<close> and the array \<open>ops\<close>. A request
  beyond the end of the array, or a word that does not fit into \<open>type\<close>, is undefined.\<close>

record reader =
  rd_index :: c_uint
  rd_size :: c_uint
  rd_max_index :: c_uint
  rd_op_index :: nat
  rd_ops :: "traceop_t list"

definition read_request :: "char \<Rightarrow> string \<Rightarrow> reader \<Rightarrow> (reader \<times> string) option" where
  "read_request c s rd =
    (if c = CHR ''f''
     then let (index, r) = scan_ud (rd_index rd) s;
              o' = (rd_ops rd ! rd_op_index rd)\<lparr>op_type := FREE, op_index := index\<rparr>
          in Some (rd\<lparr>rd_index := index, rd_ops := (rd_ops rd)[rd_op_index rd := o']\<rparr>, r)
     else if c = CHR ''a'' \<or> c = CHR ''r''
     then let (index, sz, r) = scan_two (rd_index rd) (rd_size rd) s;
              o' = \<lparr>op_type = (if c = CHR ''a'' then ALLOC else REALLOC), op_index = index, op_size = sz\<rparr>
          in Some (rd\<lparr>rd_index := index, rd_size := sz, rd_ops := (rd_ops rd)[rd_op_index rd := o'],
               rd_max_index := (if index > rd_max_index rd then index else rd_max_index rd)\<rparr>, r)
     else None)"

lemma read_request_rest: "read_request c s rd = Some (rd', r) \<Longrightarrow> length r \<le> length s"
  by (auto simp: read_request_def Let_def split: if_splits prod.splits dest: scan_two_rest scan_ud_rest)

function read_requests :: "string \<Rightarrow> reader \<Rightarrow> (outcome \<times> reader) option" where
  "read_requests s rd =
    (case scan_word s of
       None \<Rightarrow> Some (Fine, rd)
     | Some (w, r) \<Rightarrow>
         if 1024 \<le> length w then None
         else if hd w \<in> {CHR ''a'', CHR ''r'', CHR ''f''} \<and> length (rd_ops rd) \<le> rd_op_index rd then None
         else (case read_request (hd w) r rd of
             None \<Rightarrow> Some (Exits, rd)
           | Some (rd, r) \<Rightarrow> read_requests r (rd\<lparr>rd_op_index := rd_op_index rd + 1\<rparr>)))"
  by pat_completeness auto
termination
proof (relation "measure (\<lambda>(s, rd). length s)")
  fix s :: string and rd rd' :: reader and wr w r rr r'
  assume w: "scan_word s = Some wr" "(w, r) = wr" and q: "read_request (hd w) r rd = Some rr" "(rd', r') = rr"
  have "length r < length s" using w scan_word_rest by metis
  moreover have "length r' \<le> length r" using q read_request_rest by metis
  ultimately show "((r', rd'\<lparr>rd_op_index := rd_op_index rd' + 1\<rparr>), s, rd) \<in> measure (\<lambda>(s, rd). length s)" by simp
qed simp

declare read_requests.simps [simp del]

text \<open>The four calls of \<open>malloc\<close>, in their order: \<open>avail k n\<close> tells whether the one numbered \<open>k\<close>
  finds its \<open>n\<close> bytes. \<open>n\<close> is a product of 32 bits, which wraps; an array has the elements that lie
  wholly inside the bytes it was given, and holds what the memory held. A file that does not open and
  a call that finds no memory end the program.\<close>

definition read_trace :: "(nat \<Rightarrow> c_uint \<Rightarrow> bool) \<Rightarrow> (nat \<Rightarrow> traceop_t) \<Rightarrow> (nat \<Rightarrow> ptr) \<Rightarrow> (nat \<Rightarrow> c_uint) \<Rightarrow>
    trace_t \<Rightarrow> c_uint \<Rightarrow> string option \<Rightarrow> (outcome \<times> trace_t) option" where
  "read_trace avail junk_ops junk_blocks junk_sizes t sz file =
    (if \<not> avail 0 28 then Some (Exits, t)
     else case file of None \<Rightarrow> Some (Exits, t) | Some s \<Rightarrow>
      (let (a, s, _) = scan_int (sugg_heapsize t) s;
           (b, s, _) = scan_int (num_ids t) s;
           (c, s, _) = scan_int (num_ops t) s;
           (e, s, _) = scan_int (weight t) s;
           t = t\<lparr>sugg_heapsize := a, num_ids := b, num_ops := c, weight := e\<rparr>
       in if \<not> avail 1 (c * 12) then Some (Exits, t)
          else if \<not> avail 2 (b * 4) then Some (Exits, t)
          else if \<not> avail 3 (b * 4) then Some (Exits, t)
          else do {
            let rd = \<lparr>rd_index = 0, rd_size = sz, rd_max_index = 0, rd_op_index = 0,
              rd_ops = map junk_ops [0..<unat (c * 12) div 12]\<rparr>;
            (q, rd) \<leftarrow> read_requests s rd;
            let t = t\<lparr>ops := rd_ops rd, blocks := map junk_blocks [0..<unat (b * 4) div 4],
              block_sizes := map junk_sizes [0..<unat (b * 4) div 4]\<rparr>;
            if q \<noteq> Fine then Some (q, t)
            else if rd_max_index rd \<noteq> b - 1 then Some (Aborts, t)
            else if c \<noteq> of_nat (rd_op_index rd) then Some (Aborts, t)
            else Some (Fine, t) }))"

text \<open>The memory a trace needs is there, and no product wraps.\<close>

definition granted :: "(nat \<Rightarrow> c_uint \<Rightarrow> bool) \<Rightarrow> trace_t \<Rightarrow> bool" where
  "granted avail t \<longleftrightarrow> avail 0 28 \<and> avail 1 (num_ops t * 12) \<and> avail 2 (num_ids t * 4) \<and> avail 3 (num_ids t * 4)"

definition counts_fit :: "trace_t \<Rightarrow> bool" where
  "counts_fit t \<longleftrightarrow> length (ops t) * 12 < 4294967296 \<and> unat (num_ids t) * 4 < 4294967296"

lemma array_length:
  assumes "unat (n :: c_uint) * k < 4294967296" "0 < k"
  shows "unat (n * of_nat k) div k = unat n"
proof -
  have "k \<le> unat n * k" if "unat n \<noteq> 0" using that by simp
  then have "k < 4294967296 \<or> unat n = 0" using assms(1) le_less_trans by blast
  then have "unat (n * of_nat k) = unat n * k"
    using assms(1) by (auto simp: unat_word_ariths unat_of_nat take_bit_nat_eq_self unat_eq_0)
  then show ?thesis using assms(2) by simp
qed

subsection \<open>The format of the files\<close>

abbreviation nl :: char where "nl \<equiv> CHR 0x0A"

definition number :: "c_uint \<Rightarrow> string" where
  "number w = dec_nat (unat w)"

definition line :: "traceop_t \<Rightarrow> string" where
  "line r = (case op_type r of
     ALLOC \<Rightarrow> ''a '' @ number (op_index r) @ '' '' @ number (op_size r)
   | REALLOC \<Rightarrow> ''r '' @ number (op_index r) @ '' '' @ number (op_size r)
   | FREE \<Rightarrow> ''f '' @ number (op_index r))"

definition lines :: "traceop_t list \<Rightarrow> string" where
  "lines rs = concat (map (\<lambda>r. nl # line r) rs) @ [nl]"

definition print_trace :: "trace_t \<Rightarrow> string" where
  "print_trace t = number (sugg_heapsize t) @ nl # number (num_ids t) @ nl # number (num_ops t) @ nl #
     number (weight t) @ lines (ops t)"

text \<open>The size of a request to free is not in the file.\<close>

definition same_request :: "traceop_t \<Rightarrow> traceop_t \<Rightarrow> bool" where
  "same_request r r' \<longleftrightarrow> op_type r = op_type r' \<and> op_index r = op_index r' \<and> (op_type r = FREE \<or> op_size r = op_size r')"

definition top_index :: "c_uint \<Rightarrow> traceop_t \<Rightarrow> c_uint" where
  "top_index m r = (if op_type r = FREE \<or> \<not> op_index r > m then m else op_index r)"

lemma space_chars: "is_space nl" "is_space CHR '' ''" "\<not> is_digit nl" "\<not> is_digit CHR '' ''"
    "\<not> is_space CHR ''a''" "\<not> is_space CHR ''r''" "\<not> is_space CHR ''f''" "nl \<noteq> CHR ''d''"
  by (simp_all add: is_space_def is_digit_def)

lemma digits_number: "\<not> is_digit c \<Longrightarrow> digits 0 (dec_nat n @ c # r) = (n, c # r)"
  using digits_append [OF dec_nat_digits, of 0 n "c # r"] digits_dec [of n] by simp

lemma number_head: "\<exists>c cs. dec_nat n = c # cs \<and> is_digit c \<and> \<not> is_space c \<and> c \<noteq> CHR ''-'' \<and> c \<noteq> CHR ''+''"
proof (cases "dec_nat n")
  case (Cons c cs)
  then have "is_digit c" using dec_nat_digits [of n] by simp
  then show ?thesis using Cons by (auto simp: is_digit_def is_space_def)
qed simp

lemma scan_number:
  assumes "\<not> is_digit c"
  shows "scan_int x (number w @ c # r) = (w, c # r, True)" "is_space b \<Longrightarrow> scan_int x (b # number w @ c # r) = (w, c # r, True)"
proof -
  obtain d ds where d: "dec_nat (unat w) = d # ds" "is_digit d" "\<not> is_space d" "d \<noteq> CHR ''-''" "d \<noteq> CHR ''+''"
    using number_head by blast
  have g: "digits 0 (d # ds @ c # r) = (unat w, c # r)" using digits_number [OF assms, of "unat w" r] d(1) by simp
  have "dropWhile is_space (d # ds @ c # r) = d # ds @ c # r" using d(3) by simp
  then show "scan_int x (number w @ c # r) = (w, c # r, True)"
    using d g by (simp add: scan_int_def number_def Let_def del: digits.simps dropWhile.simps)
  show "scan_int x (b # number w @ c # r) = (w, c # r, True)" if "is_space b"
  proof -
    have "dropWhile is_space (b # d # ds @ c # r) = d # ds @ c # r" using d(3) that by simp
    then show ?thesis using d g by (simp add: scan_int_def number_def Let_def del: digits.simps dropWhile.simps)
  qed
qed

lemma read_line:
  assumes "k < length xs" "is_space c" "\<not> is_digit c" "c \<noteq> CHR ''d''"
  shows "\<exists>w r' rd' o'. scan_word (nl # line r @ c # s) = Some ([w], r') \<and> w \<in> {CHR ''a'', CHR ''r'', CHR ''f''} \<and>
    read_request w r' \<lparr>rd_index = x, rd_size = y, rd_max_index = m, rd_op_index = k, rd_ops = xs\<rparr> = Some (rd', c # s) \<and>
    same_request r o' \<and> (\<exists>x' y'. rd' = \<lparr>rd_index = x', rd_size = y', rd_max_index = top_index m r, rd_op_index = k, rd_ops = xs[k := o']\<rparr>)"
proof -
  let ?rd = "\<lparr>rd_index = x, rd_size = y, rd_max_index = m, rd_op_index = k, rd_ops = xs\<rparr>"
  have sw: "scan_word (nl # w # CHR '' '' # u) = Some ([w], CHR '' '' # u)" if "\<not> is_space w" for w u
    using that by (simp add: scan_word_def space_chars)
  have one: "scan_int x' (CHR '' '' # number i @ c # s) = (i, c # s, True)" for x' i
    by (rule scan_number(2) [OF assms(3)]) (rule space_chars)
  have two: "scan_two x y (CHR '' '' # number i @ CHR '' '' # number j @ c # s) = (i, j, c # s)" for i j
    using scan_number(2) [OF space_chars(4) space_chars(2)] by (simp add: scan_two_def one)
  show ?thesis
  proof (cases "op_type r")
    case ALLOC
    then have "line r @ c # s = CHR ''a'' # CHR '' '' # number (op_index r) @ CHR '' '' # number (op_size r) @ c # s"
      by (simp add: line_def)
    then show ?thesis using sw space_chars(5) two [of "op_index r" "op_size r"] ALLOC assms(1)
      by (simp add: read_request_def top_index_def same_request_def)
        (intro conjI impI exI [of _ "\<lparr>op_type = ALLOC, op_index = op_index r, op_size = op_size r\<rparr>"]; simp)
  next
    case REALLOC
    then have "line r @ c # s = CHR ''r'' # CHR '' '' # number (op_index r) @ CHR '' '' # number (op_size r) @ c # s"
      by (simp add: line_def)
    then show ?thesis using sw space_chars(6) two [of "op_index r" "op_size r"] REALLOC assms(1)
      by (simp add: read_request_def top_index_def same_request_def)
        (intro conjI impI exI [of _ "\<lparr>op_type = REALLOC, op_index = op_index r, op_size = op_size r\<rparr>"]; simp)
  next
    case FREE
    then have "line r @ c # s = CHR ''f'' # CHR '' '' # number (op_index r) @ c # s" by (simp add: line_def)
    then show ?thesis using sw space_chars(7) one [of x "op_index r"] FREE assms
      by (simp add: read_request_def top_index_def same_request_def scan_ud_def)
        (intro exI [of _ "(xs ! k)\<lparr>op_type := FREE, op_index := op_index r\<rparr>"]; simp)
  qed
qed

lemma read_lines:
  "rd_op_index rd + length rs = length (rd_ops rd) \<Longrightarrow>
    \<exists>rd'. read_requests (lines rs) rd = Some (Fine, rd') \<and> rd_op_index rd' = length (rd_ops rd) \<and>
      rd_max_index rd' = foldl top_index (rd_max_index rd) rs \<and>
      length (rd_ops rd') = length (rd_ops rd) \<and>
      take (rd_op_index rd) (rd_ops rd') = take (rd_op_index rd) (rd_ops rd) \<and>
      list_all2 same_request rs (drop (rd_op_index rd) (rd_ops rd'))"
proof (induction rs arbitrary: rd)
  case Nil
  have "scan_word [nl] = None" by (simp add: scan_word_def space_chars)
  then have "read_requests (lines []) rd = Some (Fine, rd)" by (subst read_requests.simps) (simp add: lines_def)
  then show ?case using Nil by simp
next
  case (Cons r rs)
  obtain x y m k xs where rd: "rd = \<lparr>rd_index = x, rd_size = y, rd_max_index = m, rd_op_index = k, rd_ops = xs\<rparr>"
    by (cases rd)
  have k: "k < length xs" "Suc k + length rs = length xs" using Cons.prems rd by simp_all
  obtain s where s: "lines rs = nl # s" by (cases rs) (simp_all add: lines_def)
  then have ln: "lines (r # rs) = nl # line r @ nl # s" by (simp add: lines_def)
  obtain w r' rd' o' x' y' where q: "scan_word (nl # line r @ nl # s) = Some ([w], r')" "w \<in> {CHR ''a'', CHR ''r'', CHR ''f''}"
      "read_request w r' rd = Some (rd', nl # s)" "same_request r o'"
      "rd' = \<lparr>rd_index = x', rd_size = y', rd_max_index = top_index m r, rd_op_index = k, rd_ops = xs[k := o']\<rparr>"
    using read_line [OF k(1) space_chars(1,3,8), of r s x y m] rd by blast
  let ?rd = "rd'\<lparr>rd_op_index := k + 1\<rparr>"
  obtain z where z: "read_requests (lines rs) ?rd = Some (Fine, z)" "rd_op_index z = length xs"
      "rd_max_index z = foldl top_index (top_index m r) rs" "length (rd_ops z) = length xs"
      "take (k + 1) (rd_ops z) = take (k + 1) (xs[k := o'])" "list_all2 same_request rs (drop (k + 1) (rd_ops z))"
    using Cons.IH [of ?rd] k(2) q(5) by auto
  have "read_requests (lines (r # rs)) rd = Some (Fine, z)"
    using q z(1) k(1) s ln rd by (subst read_requests.simps) simp
  moreover have "take k (rd_ops z) = take k xs"
    using arg_cong [OF z(5), of "take k"] by (simp add: min_def)
  moreover have "list_all2 same_request (r # rs) (drop k (rd_ops z))"
  proof -
    have "rd_ops z ! k = take (k + 1) (rd_ops z) ! k" by simp
    also have "\<dots> = xs[k := o'] ! k" unfolding z(5) by simp
    also have "\<dots> = o'" using k(1) by simp
    finally show ?thesis using z(4,6) q(4) k(1) Cons_nth_drop_Suc [of k "rd_ops z"] by (metis Suc_eq_plus1 list_all2_Cons)
  qed
  ultimately show ?case using z(2-4) rd by simp
qed

lemma read_trace_print:
  assumes "num_ops t = of_nat (length (ops t))" "counts_fit t" "granted avail t"
    and "0 <s num_ids t" "foldl top_index 0 (ops t) = num_ids t - 1"
  shows "\<exists>t'. read_trace avail jo jb js t0 sz (Some (print_trace t)) = Some (Fine, t') \<and>
    sugg_heapsize t' = sugg_heapsize t \<and> num_ids t' = num_ids t \<and> num_ops t' = num_ops t \<and> weight t' = weight t \<and>
    list_all2 same_request (ops t) (ops t') \<and> length (blocks t') = unat (num_ids t) \<and> length (block_sizes t') = unat (num_ids t)"
proof -
  have n: "unat (num_ops t) = length (ops t)"
    using assms(1,2) by (simp add: counts_fit_def unat_of_nat take_bit_nat_eq_self)
  have l: "unat (num_ops t * 12) div 12 = length (ops t)" "unat (num_ids t * 4) div 4 = unat (num_ids t)"
    using array_length [of "num_ops t" 12] array_length [of "num_ids t" 4] assms(2) n by (simp_all add: counts_fit_def)
  obtain s where s: "lines (ops t) = nl # s" by (cases "ops t") (simp_all add: lines_def)
  have h: "scan_int x (number w @ nl # r) = (w, nl # r, True)" "scan_int x (nl # number w @ nl # r) = (w, nl # r, True)"
    for x w r
    using scan_number [OF space_chars(3)] space_chars(1) by simp_all
  let ?rd = "\<lparr>rd_index = 0, rd_size = sz, rd_max_index = 0, rd_op_index = 0, rd_ops = map jo [0..<length (ops t)]\<rparr>"
  obtain rd' where r: "read_requests (lines (ops t)) ?rd = Some (Fine, rd')" "rd_op_index rd' = length (ops t)"
      "rd_max_index rd' = foldl top_index 0 (ops t)" "list_all2 same_request (ops t) (rd_ops rd')"
    using read_lines [of ?rd "ops t"] by auto
  show ?thesis
    using r assms(1,3,5) l
    by (simp add: granted_def read_trace_def print_trace_def Let_def h s)
qed


text \<open>With a count of identifiers above 2^30 the size of the arrays wraps: they get one element, and
  the reader accepts the file.\<close>

lemma read_trace_wraps:
  "\<exists>t'. read_trace (\<lambda>_ n. n < 4096) jo jb js t0 sz
      (Some (''0'' @ nl # ''1073741825'' @ nl # ''1'' @ nl # ''1'' @ nl # ''a 1073741824 100'' @ [nl])) = Some (Fine, t') \<and>
    num_ids t' = 1073741825 \<and> length (blocks t') = 1 \<and> op_index (ops t' ! 0) = 1073741824"
  by (simp add: read_trace_def scan_int_def scan_word_def scan_two_def read_request_def read_requests.simps
      is_space_def is_digit_def Let_def)

text \<open>The trace \<open>short1-bal.rep\<close> of the handout.\<close>

definition short1 :: trace_t where
  "short1 = \<lparr>sugg_heapsize = 20000, num_ids = 6, num_ops = 12, weight = 1,
     ops = [\<lparr>op_type = ALLOC, op_index = 0, op_size = 2040\<rparr>, \<lparr>op_type = ALLOC, op_index = 1, op_size = 2040\<rparr>,
       \<lparr>op_type = FREE, op_index = 1, op_size = 0\<rparr>, \<lparr>op_type = ALLOC, op_index = 2, op_size = 48\<rparr>,
       \<lparr>op_type = ALLOC, op_index = 3, op_size = 4072\<rparr>, \<lparr>op_type = FREE, op_index = 3, op_size = 0\<rparr>,
       \<lparr>op_type = ALLOC, op_index = 4, op_size = 4072\<rparr>, \<lparr>op_type = FREE, op_index = 0, op_size = 0\<rparr>,
       \<lparr>op_type = FREE, op_index = 2, op_size = 0\<rparr>, \<lparr>op_type = ALLOC, op_index = 5, op_size = 4072\<rparr>,
       \<lparr>op_type = FREE, op_index = 4, op_size = 0\<rparr>, \<lparr>op_type = FREE, op_index = 5, op_size = 0\<rparr>],
     blocks = replicate 6 0, block_sizes = replicate 6 0\<rparr>"

lemma short1_file:
  "print_trace short1 = ''20000'' @ nl # ''6'' @ nl # ''12'' @ nl # ''1'' @ nl # ''a 0 2040'' @ nl # ''a 1 2040'' @ nl # ''f 1'' @ nl # ''a 2 48'' @ nl # ''a 3 4072'' @ nl # ''f 3'' @ nl # ''a 4 4072'' @ nl # ''f 0'' @ nl # ''f 2'' @ nl # ''a 5 4072'' @ nl # ''f 4'' @ nl # ''f 5'' @ [nl]"
  by (simp add: short1_def print_trace_def lines_def line_def number_def dec_nat.simps digit_table)


end
