(* ===== verification/Timing.thy ===== *)
theory Timing
  imports Complex_Main Base
begin

text \<open>
  The timing package of the allocator's driver: the cycle counter of \<open>malloclab-handout/clock.c\<close>
  (its i386 branch), the K-best scheme of \<open>fcyc.c\<close>, the timers of \<open>ftimer.c\<close> and their choice in
  \<open>fsecs.c\<close>. What the hardware and the system return at each call is an argument; \<open>double\<close> is
  the type of the real numbers. \<open>None\<close> is a loop that does not end, an exit or an access outside an
  array or through a null pointer. The settings and counters of \<open>fcyc.c\<close> are C's \<open>int\<close>s; the number of
  samples stays below \<open>maxsamples\<close>, or is 1, so \<open>int\<close> stands for them without overflow.
\<close>

subsection \<open>The cycle counter (clock.c)\<close>

record clock =
  cyc_hi :: c_uint
  cyc_lo :: c_uint
  cyc_per_tick :: real
  start_tick :: int

type_synonym reading = "c_uint \<times> c_uint"

definition start_counter :: "reading \<Rightarrow> clock \<Rightarrow> clock" where
  "start_counter rd k = k\<lparr>cyc_hi := fst rd, cyc_lo := snd rd\<rparr>"

definition get_counter :: "reading \<Rightarrow> clock \<Rightarrow> real" where
  "get_counter rd k =
    (let (ncyc_hi, ncyc_lo) = rd;
         lo = ncyc_lo - cyc_lo k;
         borrow = (if lo > ncyc_lo then 1 else 0);
         hi = ncyc_hi - cyc_hi k - borrow
     in real (unat hi) * 2 ^ 30 * 4 + real (unat lo))"

text \<open>The number of the reading: two such numbers are subtracted in 64 bits.\<close>

definition cycles :: "reading \<Rightarrow> nat" where
  "cycles rd = unat (fst rd) * 2 ^ 32 + unat (snd rd)"

lemma unat_word_diff: "int (unat (x - y :: c_uint)) = (int (unat x) - int (unat y)) mod 2 ^ 32"
  by (simp add: uint_word_ariths flip: uint_nat)

lemma get_counter_diff:
  "get_counter rd (start_counter rd0 k) = real_of_int ((int (cycles rd) - int (cycles rd0)) mod 2 ^ 64)"
proof -
  obtain h l h0 l0 where r: "rd = (h, l)" "rd0 = (h0, l0)" by (cases rd, cases rd0)
  define b :: c_uint where "b = (if l - l0 > l then 1 else 0)"
  have ul: "uint l < 2 ^ 32" "uint l0 < 2 ^ 32" "0 \<le> uint l" "0 \<le> uint l0" using uint32_less by simp_all
  have lo: "uint (l - l0) = uint l - uint l0 + (if uint l < uint l0 then 2 ^ 32 else 0)"
  proof (cases "uint l < uint l0")
    case True
    then have "(uint l - uint l0) mod 2 ^ 32 = uint l - uint l0 + 2 ^ 32"
      using ul True by (intro int_mod_pos_eq [where q = "-1"]) linarith+
    then show ?thesis using True by (simp add: uint_word_ariths)
  next
    case False
    then have "(uint l - uint l0) mod 2 ^ 32 = uint l - uint l0" using ul by (intro mod_pos_pos_trivial) linarith+
    then show ?thesis using False by (simp add: uint_word_ariths)
  qed
  have b: "uint b = (if uint l < uint l0 then 1 else 0)"
    unfolding b_def word_less_def lo using ul by auto
  define H where "H = uint h - uint h0 - uint b"
  have hi: "uint (h - h0 - b) = H mod 2 ^ 32" by (simp add: uint_word_ariths H_def mod_simps)
  have "int (cycles rd) - int (cycles rd0) = H * 2 ^ 32 + uint (l - l0)"
    unfolding cycles_def r H_def b lo by (simp add: algebra_simps flip: uint_nat)
  moreover have "(H * 2 ^ 32 + uint (l - l0)) mod 2 ^ 64 = H mod 2 ^ 32 * 2 ^ 32 + uint (l - l0)"
  proof -
    have u: "0 \<le> uint (l - l0)" "uint (l - l0) < 2 ^ 32" using uint32_less by simp_all
    have "H * 2 ^ 32 + uint (l - l0) = 2 ^ 64 * (H div 2 ^ 32) + (H mod 2 ^ 32 * 2 ^ 32 + uint (l - l0))"
    proof -
      define D R where "D = H div 2 ^ 32" and "R = H mod 2 ^ 32"
      then have "H = D * 2 ^ 32 + R" by simp
      then show ?thesis unfolding D_def [symmetric] R_def [symmetric] by simp
    qed
    moreover have "0 \<le> H mod 2 ^ 32 * 2 ^ 32 + uint (l - l0)" using u by simp
    moreover have "H mod 2 ^ 32 * 2 ^ 32 + uint (l - l0) < 2 ^ 64"
      using u pos_mod_bound [of "2 ^ 32" H] by simp
    ultimately show ?thesis by (rule int_mod_pos_eq)
  qed
  ultimately have d: "(int (cycles rd) - int (cycles rd0)) mod 2 ^ 64 = H mod 2 ^ 32 * 2 ^ 32 + uint (l - l0)" by (simp only:)
  have u: "real (unat w) = real_of_int (uint w)" for w :: c_uint by (simp only: uint_nat of_int_of_nat_eq)
  have "get_counter rd (start_counter rd0 k) = real (unat (h - h0 - b)) * 2 ^ 30 * 4 + real (unat (l - l0))"
    by (simp add: get_counter_def start_counter_def r b_def)
  also have "\<dots> = real_of_int (H mod 2 ^ 32) * 2 ^ 30 * 4 + real_of_int (uint (l - l0))" unfolding u hi ..
  also have "\<dots> = real_of_int (H mod 2 ^ 32 * 2 ^ 32 + uint (l - l0))" by simp
  finally show ?thesis unfolding d .
qed

definition ovhd :: "reading \<Rightarrow> reading \<Rightarrow> clock \<Rightarrow> real" where
  "ovhd rd rd' k = get_counter rd' (start_counter rd k)"

definition mhz_full :: "reading \<Rightarrow> reading \<Rightarrow> real \<Rightarrow> clock \<Rightarrow> real" where
  "mhz_full rd rd' sleeptime k = get_counter rd' (start_counter rd k) / (1000000 * sleeptime)"

definition mhz :: "reading \<Rightarrow> reading \<Rightarrow> clock \<Rightarrow> real" where
  "mhz rd rd' k = mhz_full rd rd' 2 k"

text \<open>The loop of \<open>callibrate\<close>: each round reads the counter, and may ask for the user time. It ends
  after \<open>NEVENT\<close> events; without more readings it goes on.\<close>

definition NEVENT :: nat where "NEVENT = 100"
definition THRESHOLD :: real where "THRESHOLD = 1000"
definition RECORDTHRESH :: real where "RECORDTHRESH = 3000"

fun callibrate_loop :: "nat \<Rightarrow> real \<Rightarrow> int \<Rightarrow> (reading \<times> int) list \<Rightarrow> clock \<Rightarrow> clock option" where
  "callibrate_loop e oldt oldc rs k =
    (if e < NEVENT
     then (case rs of
         [] \<Rightarrow> None
       | (rd, newc) # rs \<Rightarrow>
           let newt = get_counter rd k
           in if newt - oldt \<ge> THRESHOLD
              then if newc > oldc
                   then let cpt = (newt - oldt) / real_of_int (newc - oldc);
                            k = (if (cyc_per_tick k = 0 \<or> cyc_per_tick k > cpt) \<and> cpt > RECORDTHRESH
                                 then k\<lparr>cyc_per_tick := cpt\<rparr> else k)
                        in callibrate_loop (e + 1) newt newc rs k
                   else callibrate_loop e newt oldc rs k
              else callibrate_loop e oldt oldc rs k)
     else Some k)"

declare callibrate_loop.simps [simp del]

fun callibrate :: "(reading \<times> int) list \<Rightarrow> clock \<Rightarrow> clock option" where
  "callibrate ((rd0, oldc) # (rd1, _) # rs) k =
    (let k = start_counter rd0 k in callibrate_loop 0 (get_counter rd1 k) oldc rs k)"
| "callibrate _ k = None"

text \<open>One measured run: what callibration would read, and the counter and the user time at both ends.\<close>

record timed_run =
  r_cal :: "(reading \<times> int) list"
  r_start :: reading
  r_start_tick :: int
  r_stop :: reading
  r_stop_tick :: int

definition start_comp_counter :: "timed_run \<Rightarrow> clock \<Rightarrow> clock option" where
  "start_comp_counter r k = do {
     k \<leftarrow> (if cyc_per_tick k = 0 then callibrate (r_cal r) k else Some k);
     Some (start_counter (r_start r) (k\<lparr>start_tick := r_start_tick r\<rparr>)) }"

definition get_comp_counter :: "timed_run \<Rightarrow> clock \<Rightarrow> real" where
  "get_comp_counter r k =
    (let time = get_counter (r_stop r) k;
         ticks = r_stop_tick r - start_tick k
     in time - real_of_int ticks * cyc_per_tick k)"

subsection \<open>The K-best scheme (fcyc.c)\<close>

record fcyc_t =
  kbest :: int
  maxsamples :: int
  epsilon :: real
  compensate :: bool
  clear_cache :: bool
  cache_bytes :: int
  cache_block :: int
  cache_buf :: bool

definition fcyc_defaults :: fcyc_t where
  "fcyc_defaults = \<lparr>kbest = 3, maxsamples = 20, epsilon = 1 / 100, compensate = False, clear_cache = False,
     cache_bytes = 2 ^ 19, cache_block = 32, cache_buf = False\<rparr>"

definition set_fcyc_clear_cache :: "bool \<Rightarrow> fcyc_t \<Rightarrow> fcyc_t" where
  "set_fcyc_clear_cache c p = p\<lparr>clear_cache := c\<rparr>"

definition set_fcyc_cache_size :: "int \<Rightarrow> fcyc_t \<Rightarrow> fcyc_t" where
  "set_fcyc_cache_size bytes p = (if bytes \<noteq> cache_bytes p then p\<lparr>cache_bytes := bytes, cache_buf := False\<rparr> else p)"

definition set_fcyc_cache_block :: "int \<Rightarrow> fcyc_t \<Rightarrow> fcyc_t" where
  "set_fcyc_cache_block bytes p = p\<lparr>cache_block := bytes\<rparr>"

definition set_fcyc_compensate :: "bool \<Rightarrow> fcyc_t \<Rightarrow> fcyc_t" where
  "set_fcyc_compensate c p = p\<lparr>compensate := c\<rparr>"

definition set_fcyc_k :: "int \<Rightarrow> fcyc_t \<Rightarrow> fcyc_t" where
  "set_fcyc_k k p = p\<lparr>kbest := k\<rparr>"

definition set_fcyc_maxsamples :: "int \<Rightarrow> fcyc_t \<Rightarrow> fcyc_t" where
  "set_fcyc_maxsamples m p = p\<lparr>maxsamples := m\<rparr>"

definition set_fcyc_epsilon :: "real \<Rightarrow> fcyc_t \<Rightarrow> fcyc_t" where
  "set_fcyc_epsilon e p = p\<lparr>epsilon := e\<rparr>"

record sampler =
  kvalues :: "real list"
  samplecount :: nat

definition init_sampler :: "fcyc_t \<Rightarrow> sampler" where
  "init_sampler p = \<lparr>kvalues = replicate (nat (kbest p)) 0, samplecount = 0\<rparr>"

text \<open>The insertion sort of \<open>add_sample\<close>, from position \<open>pos\<close> down.\<close>

fun sift :: "nat \<Rightarrow> real list \<Rightarrow> real list" where
  "sift 0 vs = vs"
| "sift (Suc p) vs =
    (if vs ! p > vs ! Suc p
     then let temp = vs ! p in sift p (vs[p := vs ! Suc p, Suc p := temp])
     else vs)"

definition add_sample :: "fcyc_t \<Rightarrow> real \<Rightarrow> sampler \<Rightarrow> sampler option" where
  "add_sample p val s =
    (let k = nat (kbest p)
     in if int (samplecount s) < kbest p
        then let pos = samplecount s
             in Some (s\<lparr>kvalues := sift pos ((kvalues s)[pos := val]), samplecount := samplecount s + 1\<rparr>)
        else if kbest p < 1 then None
        else let (pos, vs) = (if val < kvalues s ! (k - 1) then (k - 1, (kvalues s)[k - 1 := val]) else (0, kvalues s))
             in Some (s\<lparr>kvalues := sift pos vs, samplecount := samplecount s + 1\<rparr>))"

definition has_converged :: "fcyc_t \<Rightarrow> sampler \<Rightarrow> bool" where
  "has_converged p s \<longleftrightarrow> int (samplecount s) \<ge> kbest p \<and>
     (1 + epsilon p) * kvalues s ! 0 \<ge> kvalues s ! (nat (kbest p) - 1)"

partial_function (option) clear_loop :: "int \<Rightarrow> int \<Rightarrow> int \<Rightarrow> int option" where
  "clear_loop incr cptr cend = (if cptr < cend then clear_loop incr (cptr + incr) cend else Some cptr)"

text \<open>\<open>mem n\<close>: there is room for an array of \<open>n\<close> bytes.\<close>

definition clear :: "(int \<Rightarrow> bool) \<Rightarrow> fcyc_t \<Rightarrow> fcyc_t option" where
  "clear mem p =
    (if \<not> cache_buf p \<and> \<not> mem (cache_bytes p) then None
     else do {
       _ \<leftarrow> clear_loop (cache_block p div 4) 0 (cache_bytes p div 4);
       Some (p\<lparr>cache_buf := True\<rparr>) })"

definition measure_run :: "fcyc_t \<Rightarrow> timed_run \<Rightarrow> clock \<Rightarrow> (real \<times> clock) option" where
  "measure_run p r k =
    (if compensate p
     then do { k \<leftarrow> start_comp_counter r k; Some (get_comp_counter r k, k) }
     else let k = start_counter (r_start r) k in Some (get_counter (r_stop r) k, k))"

lemma add_sample_count: "add_sample p v s = Some s' \<Longrightarrow> samplecount s' = Suc (samplecount s)"
  by (auto simp: add_sample_def Let_def split: if_splits)

text \<open>The loop of \<open>fcyc\<close>; \<open>runs n\<close> is the run after \<open>n\<close> samples.\<close>

function fcyc_loop :: "(int \<Rightarrow> bool) \<Rightarrow> (nat \<Rightarrow> timed_run) \<Rightarrow> fcyc_t \<Rightarrow> clock \<Rightarrow> sampler \<Rightarrow> (fcyc_t \<times> clock \<times> sampler) option" where
  "fcyc_loop mem runs p k s = do {
     p \<leftarrow> (if clear_cache p then clear mem p else Some p);
     (cyc, k) \<leftarrow> measure_run p (runs (samplecount s)) k;
     s' \<leftarrow> add_sample p cyc s;
     if \<not> has_converged p s' \<and> int (samplecount s') < maxsamples p
     then fcyc_loop mem runs p k s'
     else Some (p, k, s') }"
  by pat_completeness auto
termination
proof (relation "measure (\<lambda>(mem, runs, p, k, s). nat (maxsamples p - int (samplecount s)))", goal_cases)
  case (2 mem runs p k s p' cyc x y s')
  then have "maxsamples p' = maxsamples p" by (auto simp: clear_def split: if_splits bind_splits)
  moreover have "samplecount s' = Suc (samplecount s)" using 2 add_sample_count by blast
  ultimately show ?case using 2 by simp
qed simp

declare fcyc_loop.simps [simp del]

text \<open>The result of \<open>calloc\<close> is not looked at before the first sample is written through it.\<close>

definition fcyc :: "(int \<Rightarrow> bool) \<Rightarrow> (nat \<Rightarrow> timed_run) \<Rightarrow> fcyc_t \<Rightarrow> clock \<Rightarrow> (real \<times> fcyc_t \<times> clock) option" where
  "fcyc mem runs p k =
     (if \<not> mem (8 * kbest p) then None
      else do {
        (p, k, s) \<leftarrow> fcyc_loop mem runs p k (init_sampler p);
        Some (kvalues s ! 0, p, k) })"

subsection \<open>The timers (ftimer.c, fsecs.c)\<close>

record timeval =
  tv_sec :: int
  tv_usec :: int

definition ftimer_gettod :: "timeval \<Rightarrow> timeval \<Rightarrow> nat \<Rightarrow> real" where
  "ftimer_gettod stv etv n =
    (let diff = 1000 * real_of_int (tv_sec etv - tv_sec stv) + 1 / 1000 * real_of_int (tv_usec etv - tv_usec stv);
         diff = diff / real n
     in 1 / 1000 * diff)"

definition MAX_ETIME :: int where "MAX_ETIME = 86400"

definition get_etime :: "timeval \<Rightarrow> real" where
  "get_etime r_curr = real_of_int (MAX_ETIME - tv_sec r_curr) + real_of_int (0 - tv_usec r_curr) * (1 / 1000000)"

definition ftimer_itimer :: "timeval \<Rightarrow> timeval \<Rightarrow> nat \<Rightarrow> real" where
  "ftimer_itimer v0 v1 n = (get_etime v1 - get_etime v0) / real n"

text \<open>\<open>config.h\<close> chooses \<open>USE_GETTOD\<close>.\<close>

definition fsecs :: "timeval \<Rightarrow> timeval \<Rightarrow> real" where
  "fsecs stv etv = ftimer_gettod stv etv 10"

definition micros :: "timeval \<Rightarrow> int" where
  "micros v = tv_sec v * 1000000 + tv_usec v"

lemma fsecs_mean: "fsecs stv etv * 10 * 1000000 = real_of_int (micros etv - micros stv)"
  by (simp add: fsecs_def ftimer_gettod_def micros_def Let_def field_simps)

end
