(* ===== verification/Driver.thy ===== *)
theory Driver
  imports Trace Timing
begin

text \<open>
  The program \<open>mdriver\<close>: \<open>main\<close> of \<open>malloclab-handout/mdriver.c\<close> with its options, the check of the
  team, the loops over the trace files, the table of the results and the performance index. The
  files, the memory \<open>malloc\<close> returns and the times measured are in the record \<open>world\<close>. \<open>None\<close> is a fault;
  otherwise the program ends with an exit code or by an assertion, and when it comes to its end
  there is a report, which stands for the numbers it prints.
\<close>

subsection \<open>Options\<close>

record options =
  tracefiles :: "string list option"
  tracedir :: string
  team_check :: bool
  run_libc :: bool
  autograder :: bool
  verbose :: nat

definition TRACEDIR :: string where
  "TRACEDIR = ''/home/Lab/malloctraces/''"

definition default_tracefiles :: "string list" where
  "default_tracefiles = [''amptjp-bal.rep'', ''cccp-bal.rep'', ''cp-decl-bal.rep'', ''expr-bal.rep'',
     ''coalescing-bal.rep'', ''random-bal.rep'', ''random2-bal.rep'', ''binary-bal.rep'', ''binary2-bal.rep'',
     ''realloc-bal.rep'', ''realloc2-bal.rep'']"

definition options0 :: options where
  "options0 = \<lparr>tracefiles = None, tracedir = TRACEDIR, team_check = True, run_libc = False,
     autograder = False, verbose = 0\<rparr>"

text \<open>The buffers of paths and messages have \<open>MAXLINE\<close> bytes, one of them for the NUL.\<close>

definition fits_line :: "string \<Rightarrow> bool" where
  "fits_line s \<longleftrightarrow> length s < 1024"

text \<open>The directory of \<open>-t\<close>; its last character is read before the first if it is empty.\<close>

definition set_dir :: "string \<Rightarrow> options \<Rightarrow> options option" where
  "set_dir optarg p =
    (if tracefiles p \<noteq> None then Some p
     else if \<not> fits_line optarg \<or> optarg = [] then None
     else let dir = (if last optarg \<noteq> CHR ''/'' then optarg @ ''/'' else optarg)
          in if fits_line dir then Some (p\<lparr>tracedir := dir\<rparr>) else None)"

text \<open>\<open>Inl\<close> is the exit code of an early exit.\<close>

fun read_options :: "(char \<times> string) list \<Rightarrow> options \<Rightarrow> (int + options) option" where
  "read_options [] p = Some (Inr p)"
| "read_options ((c, optarg) # os) p =
    (if c = CHR ''g'' then read_options os (p\<lparr>autograder := True\<rparr>)
     else if c = CHR ''f'' then read_options os (p\<lparr>tracedir := ''./'', tracefiles := Some [optarg]\<rparr>)
     else if c = CHR ''t'' then do { p \<leftarrow> set_dir optarg p; read_options os p }
     else if c = CHR ''a'' then read_options os (p\<lparr>team_check := False\<rparr>)
     else if c = CHR ''l'' then read_options os (p\<lparr>run_libc := True\<rparr>)
     else if c = CHR ''v'' then read_options os (p\<lparr>verbose := 1\<rparr>)
     else if c = CHR ''V'' then read_options os (p\<lparr>verbose := 2\<rparr>)
     else if c = CHR ''h'' then Some (Inl 0)
     else Some (Inl 1))"

text \<open>The names of the trace files, and their number.\<close>

definition files_of :: "options \<Rightarrow> string list" where
  "files_of p = (case tracefiles p of None \<Rightarrow> default_tracefiles | Some fs \<Rightarrow> fs)"

subsection \<open>The team\<close>

record team_t =
  teamname :: string
  name1 :: string
  id1 :: string
  name2 :: string
  id2 :: string

definition team :: team_t where
  "team = \<lparr>teamname = ''20130516'', name1 = ''Hyeonseop Lee'', id1 = ''protos37@kaist.ac.kr'', name2 = [], id2 = []\<rparr>"

definition team_complete :: "team_t \<Rightarrow> bool" where
  "team_complete t \<longleftrightarrow>
    (if teamname t = [] then False
     else if name1 t = [] \<or> id1 t = [] then False
     else if (name2 t \<noteq> [] \<and> id2 t = []) \<or> (name2 t = [] \<and> id2 t \<noteq> []) then False
     else True)"

subsection \<open>The trace files\<close>

text \<open>Whether the calls of \<open>malloc\<close> in \<open>read_trace\<close> find memory, what it finds in memory it does not initialise, and the times before and after the
  timed runs, for each trace file.\<close>

record setting =
  j_avail :: "nat \<Rightarrow> c_uint \<Rightarrow> bool"
  j_trace :: trace_t
  j_size :: c_uint
  j_ops :: "nat \<Rightarrow> traceop_t"
  j_blocks :: "nat \<Rightarrow> ptr"
  j_sizes :: "nat \<Rightarrow> c_uint"
  started :: timeval
  stopped :: timeval

record world =
  w_files :: "string \<Rightarrow> string option"
  w_libc :: "nat \<Rightarrow> setting"
  w_mm :: "nat \<Rightarrow> setting"
  w_mem :: bool
  w_arena :: ptr
  w_bytes :: "nat \<Rightarrow> byte"

text \<open>The message about a file that does not open goes through a buffer, too.\<close>

definition open_trace :: "world \<Rightarrow> setting \<Rightarrow> string \<Rightarrow> string \<Rightarrow> (outcome \<times> trace_t) option" where
  "open_trace w j dir filename =
    (let path = dir @ filename
     in if j_avail j 0 28 \<and> \<not> fits_line path then None
        else if j_avail j 0 28 \<and> w_files w path = None \<and> \<not> fits_line (''Could not open '' @ path @ '' in read_trace'') then None
        else read_trace (j_avail j) (j_ops j) (j_blocks j) (j_sizes j) (j_trace j) (j_size j) (w_files w path))"

definition time_of :: "setting \<Rightarrow> real" where
  "time_of j = fsecs (started j) (stopped j)"

subsection \<open>The loops over the trace files\<close>

text \<open>The runs of libc's allocator.\<close>

fun libc_runs :: "'w libc \<Rightarrow> nat \<Rightarrow> trace_t \<times> 'w \<Rightarrow> (outcome \<times> trace_t \<times> 'w) option" where
  "libc_runs lc 0 u = Some (Fine, u)"
| "libc_runs lc (Suc n) u = do {
     (q, u) \<leftarrow> eval_libc_speed lc u;
     if q = Fine then libc_runs lc n u else Some (q, u) }"

definition eval_libc :: "'w libc \<Rightarrow> real \<Rightarrow> trace_t \<Rightarrow> 'w \<Rightarrow> (outcome \<times> stats_t \<times> 'w) option" where
  "eval_libc lc secs t m = do {
     let st = \<lparr>s_ops = real_of_int (sint (num_ops t)), s_valid = False, s_secs = 0, s_util = 0\<rparr>;
     (q, t, m) \<leftarrow> eval_libc_valid lc (t, m);
     if q \<noteq> Fine then Some (q, st, m)
     else do {
       let st = st\<lparr>s_valid := True\<rparr>;
       (q, t, m) \<leftarrow> libc_runs lc 10 (t, m);
       Some (q, st\<lparr>s_secs := secs\<rparr>, m) } }"

fun libc_loop :: "'w libc \<Rightarrow> world \<Rightarrow> string \<Rightarrow> nat \<Rightarrow> string list \<Rightarrow> 'w \<Rightarrow> (outcome \<times> stats_t list) option" where
  "libc_loop lc w dir i [] m = Some (Fine, [])"
| "libc_loop lc w dir i (f # fs) m = do {
     (q, t) \<leftarrow> open_trace w (w_libc w i) dir f;
     if q \<noteq> Fine then Some (q, [])
     else do {
       (q, st, m) \<leftarrow> eval_libc lc (time_of (w_libc w i)) t m;
       if q \<noteq> Fine then Some (q, [])
       else do {
         (q, sts) \<leftarrow> libc_loop lc w dir (i + 1) fs m;
         Some (q, st # sts) } } }"

text \<open>The runs of the package under test.\<close>

fun mm_loop :: "pkg \<Rightarrow> world \<Rightarrow> string \<Rightarrow> nat \<Rightarrow> string list \<Rightarrow> driver \<Rightarrow> (outcome \<times> stats_t list \<times> driver) option" where
  "mm_loop pk w dir i [] d = Some (Fine, [], d)"
| "mm_loop pk w dir i (f # fs) d = do {
     (q, t) \<leftarrow> open_trace w (w_mm w i) dir f;
     if q \<noteq> Fine then Some (q, [], d)
     else do {
       (q, st, d) \<leftarrow> eval_trace pk 10 (time_of (w_mm w i)) (d\<lparr>d_trace := t\<rparr>);
       if q \<noteq> Fine then Some (q, [], d)
       else do {
         (q, sts, d) \<leftarrow> mm_loop pk w dir (i + 1) fs d;
         Some (q, st # sts, d) } } }"

subsection \<open>The table of the results\<close>

text \<open>A row holds the number of the trace and its utilisation in per cent, requests, seconds and
  thousands of requests per second, or nothing; the row of the totals has no number.\<close>

type_synonym cells = "(real \<times> real \<times> real \<times> real) option"

record table =
  rows :: "(nat \<times> cells) list"
  total :: cells

definition row :: "stats_t \<Rightarrow> cells" where
  "row st = (if s_valid st then Some (s_util st * 100, s_ops st, s_secs st, s_ops st / 1000 / s_secs st) else None)"

definition printresults :: "c_int \<Rightarrow> stats_t list \<Rightarrow> table" where
  "printresults errors stats =
    (let (secs, ops, util) = foldl (\<lambda>(secs, ops, util) st.
           if s_valid st then (secs + s_secs st, ops + s_ops st, util + s_util st) else (secs, ops, util)) (0, 0, 0) stats;
         n = length stats
     in \<lparr>rows = zip [0..<n] (map row stats),
         total = (if errors = 0 then Some (util / real n * 100, ops, secs, ops / 1000 / secs) else None)\<rparr>)"

subsection \<open>main\<close>

datatype ending = Exit int | Abort

definition ending_of :: "outcome \<Rightarrow> ending" where
  "ending_of q = (if q = Aborts then Abort else Exit 1)"

record report =
  libc_table :: "table option"
  mm_table :: "table option"
  errors :: c_int
  perfindex :: real
  grade :: "(nat \<times> real) option"

text \<open>From the results of the package on: the table, the index and the lines for the autograder.\<close>

definition summary :: "options \<Rightarrow> table option \<Rightarrow> stats_t list \<Rightarrow> c_int \<Rightarrow> report" where
  "summary p lt stats errs =
    (let numcorrect = length (filter s_valid stats); index = perf_index errs stats
     in \<lparr>libc_table = lt, mm_table = (if verbose p \<noteq> 0 then Some (printresults errs stats) else None), errors = errs,
         perfindex = index, grade = (if autograder p then Some (numcorrect, index) else None)\<rparr>)"

definition test_libc :: "'w libc \<Rightarrow> 'w \<Rightarrow> world \<Rightarrow> options \<Rightarrow> (outcome \<times> table option) option" where
  "test_libc lc m w p =
    (if \<not> run_libc p then Some (Fine, None)
     else if \<not> w_mem w then Some (Exits, None)
     else do {
       (q, sts) \<leftarrow> libc_loop lc w (tracedir p) 0 (files_of p) m;
       Some (q, if verbose p \<noteq> 0 then Some (printresults 0 sts) else None) })"

definition test_mm :: "pkg \<Rightarrow> world \<Rightarrow> options \<Rightarrow> (outcome \<times> stats_t list \<times> c_int) option" where
  "test_mm pk w p =
    (if \<not> w_mem w then Some (Exits, [], 0)
     else case mem_init (w_arena w) (w_bytes w) of
       None \<Rightarrow> Some (Exits, [], 0)
     | Some s \<Rightarrow> do {
         let d = \<lparr>d_heap = s, d_trace = j_trace (w_mm w 0), d_ranges = [], d_errors = 0, d_mem = True\<rparr>;
         (q, sts, d) \<leftarrow> mm_loop pk w (tracedir p) 0 (files_of p) d;
         Some (q, sts, d_errors d) })"

definition mdriver_main :: "pkg \<Rightarrow> 'w libc \<Rightarrow> 'w \<Rightarrow> team_t \<Rightarrow> world \<Rightarrow> string list \<Rightarrow> (ending \<times> report option) option" where
  "mdriver_main pk lc m tm w args = do {
     r \<leftarrow> read_options (getopt (optstring ''f:t:hvVgal'') args) options0;
     case r of
       Inl e \<Rightarrow> Some (Exit e, None)
     | Inr p \<Rightarrow>
         if team_check p \<and> \<not> team_complete tm then Some (Exit 1, None)
         else do {
           (q, lt) \<leftarrow> test_libc lc m w p;
           if q \<noteq> Fine then Some (ending_of q, None)
           else do {
             (q, stats, errs) \<leftarrow> test_mm pk w p;
             if q \<noteq> Fine then Some (ending_of q, None)
             else Some (Exit 0, Some (summary p lt stats errs)) } } }"

end
