(* ===== verification/Client.thy ===== *)
theory Client
  imports MmSpec
begin

text \<open>
  The allocator of \<open>malloclab-handout/mm.c\<close> as its client sees it, after the model of the traces
  of \<open>mdriver.c\<close>: a client allocates, frees and reallocates blocks by their pointers and writes
  into the blocks it holds. Its abstract state is a map from the pointers it holds to the contents
  of their blocks, and \<open>refines\<close> relates a heap to such a map. Every legal command returns on the
  heap and changes the map as \<open>track\<close> says; so does every sequence of them.
\<close>

subsection \<open>The store of the client and its commands\<close>

type_synonym store = "ptr \<rightharpoonup> byte list"

datatype cmd = Malloc c_uint | Free ptr | Realloc ptr c_uint | Write ptr nat byte

text \<open>One command on the heap: the pointer it returns and the new heap.\<close>

fun exec :: "bool \<Rightarrow> cmd \<Rightarrow> heap \<Rightarrow> (ptr \<times> heap) option" where
  "exec ub (Malloc sz) s = mm_malloc ub sz s"
| "exec ub (Free p) s = map_option (\<lambda>s. (NULL, s)) (mm_free ub p s)"
| "exec ub (Realloc p sz) s = mm_realloc ub p sz s"
| "exec ub (Write p i b) s = map_option (\<lambda>s. (p, s)) (store8 (unat p + i) b s)"

text \<open>What a client may ask for: sizes other than 0 for which there is room, and its own blocks.\<close>

fun legal :: "store \<Rightarrow> heap \<Rightarrow> cmd \<Rightarrow> bool" where
  "legal A s (Malloc sz) \<longleftrightarrow> 1 \<le> unat sz \<and> room s sz"
| "legal A s (Free p) \<longleftrightarrow> A p \<noteq> None"
| "legal A s (Realloc p sz) \<longleftrightarrow>
     (if p = NULL then 1 \<le> unat sz \<and> room s sz else A p \<noteq> None \<and> (sz = 0 \<or> room s sz))"
| "legal A s (Write p i b) \<longleftrightarrow> (case A p of None \<Rightarrow> False | Some bs \<Rightarrow> i < length bs)"

text \<open>
  The client's map after a command that returned \<open>q\<close> and the heap \<open>s\<close>. Only the bytes of new
  memory, which the allocator leaves undefined, are read off the heap.
\<close>

definition contents :: "heap \<Rightarrow> ptr \<Rightarrow> nat \<Rightarrow> byte list" where
  "contents s p k = map (\<lambda>i. mem_bytes s (unat p + i)) [0..<k]"

fun track :: "store \<Rightarrow> cmd \<Rightarrow> ptr \<Rightarrow> heap \<Rightarrow> store" where
  "track A (Malloc sz) q s = A(q \<mapsto> contents s q (unat sz))"
| "track A (Free p) q s = A(p := None)"
| "track A (Realloc p sz) q s =
     (if p = NULL then A(q \<mapsto> contents s q (unat sz))
      else if sz = 0 then A(p := None)
      else case A p of None \<Rightarrow> A
        | Some bs \<Rightarrow> (A(p := None))(q \<mapsto> take (unat sz) bs @ drop (length bs) (contents s q (unat sz))))"
| "track A (Write p i b) q s = (case A p of None \<Rightarrow> A | Some bs \<Rightarrow> A(p \<mapsto> bs[i := b]))"

subsection \<open>The refinement relation\<close>

definition view :: "heap \<Rightarrow> nat \<Rightarrow> nat \<Rightarrow> byte list" where
  "view s a k = map (\<lambda>i. mem_bytes s (a + 8 + i)) [0..<k]"

definition payload :: "nat \<Rightarrow> ptr" where
  "payload a = of_nat (a + 8)"

text \<open>The pointer \<open>p\<close> is the payload of one of the blocks \<open>Q\<close>, whose first bytes are \<open>bs\<close>.\<close>

definition holds :: "heap \<Rightarrow> (nat \<times> nat) set \<Rightarrow> ptr \<Rightarrow> byte list \<Rightarrow> bool" where
  "holds s Q p bs \<longleftrightarrow> (\<exists>a n. (a, n) \<in> Q \<and> p = payload a \<and> length bs + 8 \<le> 8 * n \<and> bs = view s a (length bs))"

text \<open>The blocks \<open>Q\<close> of a heap are those of the client's map, with their contents.\<close>

definition covers :: "heap \<Rightarrow> (nat \<times> nat) set \<Rightarrow> store \<Rightarrow> bool" where
  "covers s Q A \<longleftrightarrow> (\<forall>p bs. A p = Some bs \<longrightarrow> holds s Q p bs) \<and> (\<forall>(a, n)\<in>Q. A (payload a) \<noteq> None)"

definition refines :: "heap \<Rightarrow> store \<Rightarrow> bool" where
  "refines s A \<longleftrightarrow> (\<exists>segs. heap_inv s segs \<and> covers s (allocs segs) A)"

definition sep :: "(nat \<times> nat) set \<Rightarrow> bool" where
  "sep Q \<longleftrightarrow> (\<forall>(a, n)\<in>Q. a + 8 < 4294967296 \<and> 0 < a \<and> (\<forall>(b, m)\<in>Q. a = b \<longrightarrow> n = m))"

lemma heap_sep:
  assumes "heap_inv s segs"
  shows "sep (allocs segs)"
proof -
  note H = heap_invD [OF assms]
  have "a + 8 < 4294967296 \<and> 0 < a" if "(a, n) \<in> allocs segs" for a n
    using alloc_facts(3-5) [OF assms that] hinv_bounds(1-3) [OF H] by linarith
  moreover have "n = m" if "(a, n) \<in> allocs segs" "(a, m) \<in> allocs segs" for a n m
  proof -
    have "(a, n, True) \<in> set segs" "(a, m, True) \<in> set segs" using that by (simp_all add: allocs_def)
    then show ?thesis using hinv_disj [OF H, of a n True a m True] hinv_mem(3) [OF H] by force
  qed
  ultimately show ?thesis unfolding sep_def by (intro ballI case_prodI2) blast
qed

lemma sepD: "sep Q \<Longrightarrow> (a, n) \<in> Q \<Longrightarrow> a + 8 < 4294967296"
    "sep Q \<Longrightarrow> (a, n) \<in> Q \<Longrightarrow> (a, m) \<in> Q \<Longrightarrow> n = m"
  unfolding sep_def by fast+

lemma sep_unat:
  assumes "sep Q" "(a, n) \<in> Q"
  shows "unat (payload a) = a + 8" "payload a \<noteq> NULL"
proof -
  show u: "unat (payload a) = a + 8" unfolding payload_def using sepD(1) [OF assms] by (rule unat_of)
  show "payload a \<noteq> NULL"
  proof
    assume "payload a = NULL"
    then have "a + 8 = 0" using u by (simp add: NULL_def)
    then show False by simp
  qed
qed

lemma sep_ptr:
  assumes "sep Q" "(a, n) \<in> Q" "(b, m) \<in> Q" "payload a = payload b"
  shows "a = b \<and> n = m"
proof -
  have "a + 8 = unat (payload b)" using sep_unat(1) [OF assms(1,2)] by (simp only: assms(4))
  also have "\<dots> = b + 8" by (rule sep_unat(1) [OF assms(1,3)])
  finally have "a = b" by simp
  then show ?thesis using sepD(2) [OF assms(1,2)] assms(3) by blast
qed

lemma length_view [simp]: "length (view s a k) = k"
  by (simp add: view_def)

lemma view_pay: "pay s s' a n \<Longrightarrow> k + 8 \<le> 8 * n \<Longrightarrow> view s' a k = view s a k"
  by (simp add: view_def pay_def)

lemma contents_view: "unat p = a + 8 \<Longrightarrow> contents s p k = view s a k"
  by (simp add: contents_def view_def)

lemma holdsI: "(a, n) \<in> Q \<Longrightarrow> k + 8 \<le> 8 * n \<Longrightarrow> holds s Q (payload a) (view s a k)"
  unfolding holds_def by (intro exI [of _ a] exI [of _ n]) simp

lemma holdsE:
  assumes "holds s Q p bs"
  obtains a n where "(a, n) \<in> Q" "p = payload a" "length bs + 8 \<le> 8 * n" "bs = view s a (length bs)"
  using assms unfolding holds_def by blast

lemma holds_pay:
  assumes "holds s Q p bs" "\<And>b m. (b, m) \<in> Q \<Longrightarrow> payload b = p \<Longrightarrow> (b, m) \<in> R \<and> pay s s' b m"
  shows "holds s' R p bs"
proof -
  obtain a n where a: "(a, n) \<in> Q" "p = payload a" "length bs + 8 \<le> 8 * n" "bs = view s a (length bs)"
    using assms(1) by (rule holdsE)
  have r: "(a, n) \<in> R" "pay s s' a n" using assms(2) [OF a(1) a(2) [symmetric]] by simp_all
  have "view s' a (length bs) = bs" using view_pay [OF r(2) a(3)] a(4) by simp
  then show ?thesis using holdsI [OF r(1) a(3), of s'] a(2) by simp
qed

lemma coversD: "covers s Q A \<Longrightarrow> A p = Some bs \<Longrightarrow> holds s Q p bs" "covers s Q A \<Longrightarrow> (a, n) \<in> Q \<Longrightarrow> A (payload a) \<noteq> None"
  unfolding covers_def by fast+

lemma coversI:
  "(\<And>p bs. A p = Some bs \<Longrightarrow> holds s Q p bs) \<Longrightarrow> (\<And>a n. (a, n) \<in> Q \<Longrightarrow> A (payload a) \<noteq> None) \<Longrightarrow> covers s Q A"
  unfolding covers_def by fast

lemma covers_none:
  assumes "covers s Q A" "sep (insert (a, n) Q)" "(a, n) \<notin> Q"
  shows "A (payload a) = None"
proof (rule ccontr)
  assume "A (payload a) \<noteq> None"
  then obtain bs where "A (payload a) = Some bs" by blast
  from coversD(1) [OF assms(1) this] obtain b m where b: "(b, m) \<in> Q" "payload a = payload b" by (rule holdsE)
  have "(a, n) = (b, m)" using sep_ptr [OF assms(2) insertI1 insertI2 [OF b(1)] b(2)] by simp
  then show False using assms(3) b(1) by simp
qed

text \<open>The blocks but the one at \<open>a\<close> keep their contents.\<close>

lemma covers_remove:
  assumes "covers s Q A" "sep Q" "(a, n) \<in> Q" and keep: "\<And>b m. (b, m) \<in> Q \<Longrightarrow> b \<noteq> a \<Longrightarrow> pay s s' b m"
  shows "covers s' (Q - {(a, n)}) (A(payload a := None))"
proof -
  have ne: "payload b \<noteq> payload a" if "(b, m) \<in> Q - {(a, n)}" for b m
    using sep_ptr [OF assms(2) _ assms(3), of b m] that by blast
  have "holds s' (Q - {(a, n)}) p bs" if "A p = Some bs" "p \<noteq> payload a" for p bs
    using coversD(1) [OF assms(1) that(1)]
    by (rule holds_pay) (use keep that(2) in blast)
  moreover have "A (payload b) \<noteq> None" if "(b, m) \<in> Q - {(a, n)}" for b m
    using coversD(2) [OF assms(1)] that by blast
  ultimately show ?thesis using ne by (intro coversI) (auto split: if_splits)
qed

lemma covers_insert:
  assumes "covers s Q A" "sep (insert (a, n) Q)" "(a, n) \<notin> Q" "k + 8 \<le> 8 * n"
  shows "covers s (insert (a, n) Q) (A(payload a \<mapsto> view s a k))"
proof -
  have "holds s (insert (a, n) Q) p bs" if "A p = Some bs" for p bs
    using coversD(1) [OF assms(1) that] by (rule holds_pay) simp
  moreover have "holds s (insert (a, n) Q) (payload a) (view s a k)" using assms(4) by (intro holdsI) simp_all
  ultimately show ?thesis using coversD(2) [OF assms(1)] by (intro coversI) (auto split: if_splits)
qed

lemma covers_keep:
  assumes "covers s Q A" "\<And>b m. (b, m) \<in> Q \<Longrightarrow> pay s s' b m"
  shows "covers s' Q A"
proof -
  have "holds s' Q p bs" if "A p = Some bs" for p bs
    using coversD(1) [OF assms(1) that] by (rule holds_pay) (simp add: assms(2))
  then show ?thesis using coversD(2) [OF assms(1)] by (intro coversI) blast+
qed

subsection \<open>Every command on the heap refines its effect on the store\<close>

context free_store
begin

lemma step_write:
  fixes v :: byte
  assumes H: "hinv fs s {} (xs @ (a, n, True) # ys) F" "of_nat a \<notin> F" and i: "8 \<le> i" "i < 8 * n"
  defines "t \<equiv> s\<lparr>mem_bytes := (mem_bytes s)(a + i := v)\<rparr>"
  shows "hinv fs t {} (xs @ (a, n, True) # ys) F"
proof -
  note D = hinvD [OF H(1)]
  have S: "chg a (a + 8 * n) s t" using i by (auto simp: chg_def t_def same_bounds_def)
  have "hbits t a = hbits s a" unfolding hbits_def using i by (intro rd32_cong) (simp add: t_def)
  then have C: "chain t a [(a, n, True)] (a + 8 * n)" using D(2,3) by (simp add: seg_at_def)
  have "hprev t (a + 8 * n) = hprev s (a + 8 * n)"
    unfolding hprev_def using i by (intro rd32_cong) (simp add: t_def)
  then have L: "links t {} a [] (a + 8 * n)" using hinv_link [OF H(1)] by simp
  show ?thesis
    using step [of s "{}" xs a n True "[]" ys F "a + 8 * n" t n True "[]" "{}" "{}"] H D(2,3) S C L by simp
qed

end

lemma refinesE:
  assumes "refines s A"
  obtains segs where "heap_inv s segs" "covers s (allocs segs) A"
  using assms by (auto simp: refines_def)

lemma refinesI: "heap_inv s segs \<Longrightarrow> allocs segs = Q \<Longrightarrow> covers s Q A \<Longrightarrow> refines s A"
  by (auto simp: refines_def)

lemma kept_pay: "kept X segs s s' \<Longrightarrow> (b, m) \<in> allocs segs \<Longrightarrow> b \<notin> X \<Longrightarrow> pay s s' b m"
  by (rule keptD)

lemma refines_malloc:
  assumes "refines s A" "1 \<le> unat sz" "room s sz"
  obtains q s' where "mm_malloc ub sz s = Some (q, s')" "A q = None" "q \<noteq> NULL"
    "refines s' (A(q \<mapsto> contents s' q (unat sz)))" "same_area s s'"
proof -
  obtain segs where g: "heap_inv s segs" "covers s (allocs segs) A" using assms(1) by (rule refinesE)
  obtain a n s' segs' where r: "mm_malloc ub sz s = Some (of_nat (a + 8), s')" "heap_inv s' segs'"
      "(a, n) \<notin> allocs segs" "allocs segs' = insert (a, n) (allocs segs)" "unat sz + 8 \<le> 8 * n" "kept {} segs s s'"
    by (rule malloc_ok [OF g(1) assms(2,3)])
  have sp: "sep (insert (a, n) (allocs segs))" using heap_sep [OF r(2)] r(4) by simp
  have c: "covers s' (allocs segs) A" by (rule covers_keep [OF g(2)]) (use kept_pay [OF r(6)] in blast)
  have "refines s' (A(payload a \<mapsto> view s' a (unat sz)))"
    by (rule refinesI [OF r(2,4) covers_insert [OF c sp r(3,5)]])
  then show ?thesis
    using r(1) covers_none [OF c sp r(3)] sep_unat(2) [OF sp insertI1] contents_view [OF sep_unat(1) [OF sp insertI1]] r(6)
    by (intro that [of "payload a" s']) (simp_all add: payload_def kept_def)
qed

lemma refines_free:
  assumes "refines s A" "A p \<noteq> None"
  obtains s' where "mm_free ub p s = Some s'" "refines s' (A(p := None))" "same_area s s'"
proof -
  obtain segs where g: "heap_inv s segs" "covers s (allocs segs) A" using assms(1) by (rule refinesE)
  obtain bs where "A p = Some bs" using assms(2) by blast
  from coversD(1) [OF g(2) this] obtain a n where a: "(a, n) \<in> allocs segs" "p = payload a" by (rule holdsE)
  obtain s' segs' where r: "mm_free ub (of_nat (a + 8)) s = Some s'" "heap_inv s' segs'"
      "allocs segs' = allocs segs - {(a, n)}" "kept {a} segs s s'"
    using free_ok [OF g(1) a(1)] by blast
  have "refines s' (A(payload a := None))"
    by (rule refinesI [OF r(2,3) covers_remove [OF g(2) heap_sep [OF g(1)] a(1)]]) (use kept_pay [OF r(4)] in blast)
  then show ?thesis using r(1,4) a(2) by (intro that [of s']) (simp_all add: payload_def kept_def)
qed

lemma refines_realloc:
  assumes "refines s A" "A p = Some bs" "1 \<le> unat sz" "room s sz"
  obtains q s' where "mm_realloc ub p sz s = Some (q, s')" "q = p \<or> A q = None" "q \<noteq> NULL"
    "refines s' ((A(p := None))(q \<mapsto> take (unat sz) bs @ drop (length bs) (contents s' q (unat sz))))"
    "same_area s s'"
proof -
  obtain segs where g: "heap_inv s segs" "covers s (allocs segs) A" using assms(1) by (rule refinesE)
  from coversD(1) [OF g(2) assms(2)] obtain a n where a: "(a, n) \<in> allocs segs" "p = payload a"
    "length bs + 8 \<le> 8 * n" "bs = view s a (length bs)" by (rule holdsE)
  let ?Q = "allocs segs - {(a, n)}"
  obtain b m s' segs' where r: "mm_realloc ub (of_nat (a + 8)) sz s = Some (of_nat (b + 8), s')" "heap_inv s' segs'"
      "(b, m) \<notin> ?Q" "allocs segs' = insert (b, m) ?Q" "unat sz + 8 \<le> 8 * m" "kept {a} segs s s'"
      "\<forall>i < min (8 * n - 8) (unat sz). mem_bytes s' (b + 8 + i) = mem_bytes s (a + 8 + i)"
    by (rule realloc_ok [OF g(1) a(1) assms(3,4)])
  let ?cs = "view s' b (unat sz)" and ?A = "A(payload a := None)"
  have sp: "sep (insert (b, m) ?Q)" using heap_sep [OF r(2)] r(4) by simp
  have c: "covers s' ?Q ?A"
    by (rule covers_remove [OF g(2) heap_sep [OF g(1)] a(1)]) (use kept_pay [OF r(6)] in blast)
  have R: "refines s' (?A(payload b \<mapsto> ?cs))" by (rule refinesI [OF r(2,4) covers_insert [OF c sp r(3,5)]])
  have "?A (payload b) = None" by (rule covers_none [OF c sp r(3)])
  then have q: "payload b = p \<or> A (payload b) = None" using a(2) by (auto split: if_splits)
  have "take (length bs) ?cs = take (unat sz) bs"
  proof (rule nth_equalityI)
    fix i assume "i < length (take (length bs) ?cs)"
    then have i: "i < length bs" "i < unat sz" by simp_all
    then have "bs ! i = mem_bytes s (a + 8 + i)" by (subst a(4)) (simp add: view_def)
    then show "take (length bs) ?cs ! i = take (unat sz) bs ! i" using r(7) a(3) i by (simp add: view_def)
  qed simp
  then have "take (unat sz) bs @ drop (length bs) ?cs = ?cs" by (metis append_take_drop_id)
  then show ?thesis
    using r(1) R q sep_unat(2) [OF sp insertI1] a(2) contents_view [OF sep_unat(1) [OF sp insertI1]] r(6)
    by (intro that [of "payload b" s']) (simp_all add: payload_def kept_def)
qed

lemma refines_write:
  assumes "refines s A" "A p = Some bs" "i < length bs"
  obtains s' where "store8 (unat p + i) v s = Some s'" "refines s' (A(p \<mapsto> bs[i := v]))" "same_area s s'"
proof -
  obtain segs where g: "heap_inv s segs" "covers s (allocs segs) A" using assms(1) by (rule refinesE)
  from coversD(1) [OF g(2) assms(2)] obtain a n where a: "(a, n) \<in> allocs segs" "p = payload a"
    "length bs + 8 \<le> 8 * n" "bs = view s a (length bs)" by (rule holdsE)
  obtain xs ys where segs: "segs = xs @ (a, n, True) # ys" using a(1) by (auto simp: allocs_def dest: split_list)
  note H = heap_invD [OF g(1)] and sp = heap_sep [OF g(1)]
  have up: "unat p = a + 8" using sep_unat(1) [OF sp a(1)] a(2) by simp
  let ?t = "s\<lparr>mem_bytes := (mem_bytes s)(a + (8 + i) := v)\<rparr>"
  have i: "8 + i < 8 * n" using assms(3) a(3) by linarith
  have "hinv free_set ?t {} segs (frees segs)"
    using ft.step_write [of s xs a n ys "frees segs" "8 + i" v] H i frees_mid [OF H [unfolded segs]] segs by simp
  then have h: "heap_inv ?t segs" by (simp add: heap_inv_def)
  have "mem_ok s (a + (8 + i)) 1"
    using alloc_facts(3,4) [OF g(1) a(1)] hinv_bounds(1,2) [OF H] i by (simp add: mem_ok_def lo_def)
  then have st: "store8 (unat p + i) v s = Some ?t" by (simp add: store8_def up add.assoc)
  have other: "pay s ?t b m" if "(b, m) \<in> allocs segs" "b \<noteq> a" for b m
  proof -
    have "(a, n, True) \<in> set segs" "(b, m, True) \<in> set segs" using a(1) that(1) by (simp_all add: allocs_def)
    from hinv_disj [OF H this] that(2) i show ?thesis by (auto simp: pay_def)
  qed
  have c: "covers ?t (allocs segs - {(a, n)}) (A(payload a := None))" by (rule covers_remove [OF g(2) sp a(1) other])
  have ins: "insert (a, n) (allocs segs - {(a, n)}) = allocs segs" using a(1) by blast
  have "covers ?t (allocs segs) ((A(payload a := None))(payload a \<mapsto> view ?t a (length bs)))"
    using covers_insert [OF c, of a n "length bs"] sp a(3) unfolding ins by simp
  moreover have "view ?t a (length bs) = bs[i := v]"
  proof (rule nth_equalityI)
    fix j assume "j < length (view ?t a (length bs))"
    then have j: "j < length bs" by simp
    then have "bs ! j = mem_bytes s (a + 8 + j)" by (subst a(4)) (simp add: view_def)
    then show "view ?t a (length bs) ! j = bs[i := v] ! j" using j by (auto simp: view_def nth_list_update)
  qed simp
  ultimately have "refines ?t (A(p \<mapsto> bs[i := v]))" using h a(2) by (auto simp: refines_def)
  moreover have "same_area s ?t" by (simp add: same_area_def)
  ultimately show ?thesis using st that by blast
qed

subsection \<open>Commands and sequences of commands\<close>

lemma NULL_not_held:
  assumes "refines s A"
  shows "A NULL = None"
proof (rule ccontr)
  assume "A NULL \<noteq> None"
  then obtain bs where b: "A NULL = Some bs" by blast
  obtain segs where g: "heap_inv s segs" "covers s (allocs segs) A" using assms(1) by (rule refinesE)
  from coversD(1) [OF g(2) b] obtain a n where "(a, n) \<in> allocs segs" "NULL = payload a" by (rule holdsE)
  then show False using sep_unat(2) [OF heap_sep [OF g(1)]] by metis
qed

text \<open>The pointer a command returns: that of a new block is not in use, and only \<open>realloc\<close> may
  return the pointer it was given.\<close>

fun new_pointer :: "store \<Rightarrow> cmd \<Rightarrow> ptr \<Rightarrow> bool" where
  "new_pointer A (Malloc sz) q \<longleftrightarrow> q \<noteq> NULL \<and> A q = None"
| "new_pointer A (Free p) q \<longleftrightarrow> True"
| "new_pointer A (Realloc p sz) q \<longleftrightarrow>
     (if p = NULL then q \<noteq> NULL \<and> A q = None else if sz = 0 then q = p else q \<noteq> NULL \<and> (q = p \<or> A q = None))"
| "new_pointer A (Write p i b) q \<longleftrightarrow> q = p"

lemma exec_refines:
  assumes R: "refines s A" and L: "legal A s c"
  shows "\<exists>q s'. exec ub c s = Some (q, s') \<and> new_pointer A c q \<and> refines s' (track A c q s')"
proof (cases c)
  case (Malloc sz)
  then have "1 \<le> unat sz" "room s sz" using L by simp_all
  then obtain q s' where "mm_malloc ub sz s = Some (q, s')" "A q = None" "q \<noteq> NULL" "refines s' (A(q \<mapsto> contents s' q (unat sz)))"
    by (rule refines_malloc [OF R])
  then show ?thesis by (simp add: Malloc)
next
  case (Free p)
  then have "A p \<noteq> None" using L by simp
  then obtain s' where "mm_free ub p s = Some s'" "refines s' (A(p := None))" by (rule refines_free [OF R])
  then show ?thesis by (simp add: Free)
next
  case (Realloc p sz)
  consider (null) "p = NULL" | (zero) "p \<noteq> NULL" "sz = 0" | (move) "p \<noteq> NULL" "sz \<noteq> 0" by blast
  then show ?thesis
  proof cases
    case null
    then have "1 \<le> unat sz" "room s sz" using L by (simp_all add: Realloc)
    then obtain q s' where "mm_malloc ub sz s = Some (q, s')" "A q = None" "q \<noteq> NULL" "refines s' (A(q \<mapsto> contents s' q (unat sz)))"
      by (rule refines_malloc [OF R])
    then show ?thesis by (simp add: Realloc null mm_realloc_def)
  next
    case zero
    then have "A p \<noteq> None" using L by (simp add: Realloc)
    then obtain s' where "mm_free ub p s = Some s'" "refines s' (A(p := None))" by (rule refines_free [OF R])
    then show ?thesis using zero by (simp add: Realloc mm_realloc_def)
  next
    case move
    then obtain bs where bs: "A p = Some bs" using L by (auto simp: Realloc)
    have "1 \<le> unat sz" "room s sz" using L move unat_gt_0 [of sz] by (simp_all add: Realloc Suc_le_eq)
    then obtain q s' where "mm_realloc ub p sz s = Some (q, s')" "q = p \<or> A q = None" "q \<noteq> NULL"
        "refines s' ((A(p := None))(q \<mapsto> take (unat sz) bs @ drop (length bs) (contents s' q (unat sz))))"
      by (rule refines_realloc [OF R bs])
    then show ?thesis using move by (simp add: Realloc bs)
  qed
next
  case (Write p i v)
  then obtain bs where bs: "A p = Some bs" "i < length bs" using L by (auto split: option.splits)
  obtain s' where "store8 (unat p + i) v s = Some s'" "refines s' (A(p \<mapsto> bs[i := v]))"
    by (rule refines_write [OF R bs])
  then show ?thesis by (simp add: Write bs(1))
qed

text \<open>The heaps and maps a client can reach, from a heap \<open>mem_init\<close> and \<open>mm_init\<close> set up.\<close>

inductive reachable :: "bool \<Rightarrow> heap \<Rightarrow> store \<Rightarrow> bool" for ub where
  start: "mem_init p junk = Some s \<Longrightarrow> unat p + 20971520 < 4294967296 \<Longrightarrow> mm_init s = Some s' \<Longrightarrow> reachable ub s' Map.empty"
| step: "reachable ub s A \<Longrightarrow> legal A s c \<Longrightarrow> exec ub c s = Some (q, s') \<Longrightarrow> reachable ub s' (track A c q s')"

lemma reachable_refines: "reachable ub s A \<Longrightarrow> refines s A"
proof (induction rule: reachable.induct)
  case (start p junk s s')
  have p: "p \<noteq> NULL" "s = \<lparr>mem_start_brk = p, mem_brk = p, mem_max_addr = p + 20971520, mem_bytes = junk\<rparr>"
    using start(1) by (auto simp: mem_init_def MAX_HEAP_def split: if_splits)
  have "unat (p + 20971520) = unat p + 20971520" using start(2) unat_add_lem [of p 20971520] by simp
  moreover have "0 < unat p" using p(1) unat_gt_0 [of p] by (simp add: NULL_def)
  ultimately have "fresh s" by (simp add: fresh_def lo_def p(2))
  then have "heap_inv s' []" using mm_init_inv start(3) by fastforce
  then show ?case by (auto simp: refines_def covers_def)
next
  case (step s A c q s')
  then show ?case using exec_refines [OF step.IH step.hyps(2), of ub] by simp
qed

text \<open>C1: on every heap a client can reach, every legal command returns, and it changes
  the client's store as documented: \<open>malloc\<close> and \<open>realloc\<close> hand out a block of the size asked for
  at a pointer that is not null and not in use (\<open>realloc\<close> may also return the one it was given),
  \<open>realloc\<close> keeps the contents, \<open>free\<close> drops one block, and all
  other blocks hold the bytes they held.\<close>

theorem client_step:
  assumes "reachable ub s A" "legal A s c"
  shows "\<exists>q s'. exec ub c s = Some (q, s') \<and> new_pointer A c q \<and> refines s' (track A c q s')"
  by (rule exec_refines [OF reachable_refines [OF assms(1)] assms(2)])

lemma run_client:
  obtains s where "reachable True s Map.empty" "legal Map.empty s (Realloc NULL 100)"
proof -
  let ?s = "\<lparr>mem_start_brk = 64, mem_brk = 64, mem_max_addr = 64 + MAX_HEAP, mem_bytes = (\<lambda>_. 0)\<rparr>"
  have "fresh ?s" by (simp add: fresh_def lo_def MAX_HEAP_def)
  from mm_init_inv [OF this] obtain s where s: "mm_init ?s = Some s" "unat (mem_brk s) = 96"
      "mem_max_addr s = 64 + MAX_HEAP" by (auto simp: lo_def)
  have "mem_init 64 (\<lambda>_. 0) = Some ?s" by (simp add: mem_init_def NULL_def)
  from reachable.start [OF this _ s(1)] have "reachable True s Map.empty" by simp
  moreover have "legal Map.empty s (Realloc NULL 100)" using s(2,3) by (simp add: room_def MAX_HEAP_def)
  ultimately show ?thesis by (rule that)
qed

theorem client_step_witness:
  "\<exists>s q s'. reachable True s Map.empty \<and> exec True (Realloc NULL 100) s = Some (q, s') \<and> q \<noteq> NULL \<and>
    refines s' [q \<mapsto> contents s' q 100]"
proof -
  obtain s where s: "reachable True s Map.empty" "legal Map.empty s (Realloc NULL 100)" by (rule run_client)
  then show ?thesis using client_step [OF s] by (intro exI [of _ s]) simp
qed

text \<open>C2: on every heap a client can reach, the blocks it holds do not overlap, each
  pointer leads to the bytes the client last saw there, and the heap checker accepts the heap.\<close>

theorem client_blocks:
  assumes "reachable ub s A" "A p = Some bs" "A q = Some cs"
  shows "contents s p (length bs) = bs \<and> (p \<noteq> q \<longrightarrow> unat p + length bs \<le> unat q \<or> unat q + length cs \<le> unat p) \<and>
    mm_check s = Some True"
proof -
  obtain segs where g: "heap_inv s segs" "covers s (allocs segs) A" using reachable_refines [OF assms(1)] by (rule refinesE)
  from coversD(1) [OF g(2) assms(2)] obtain a n where a: "(a, n) \<in> allocs segs" "p = payload a"
    "length bs + 8 \<le> 8 * n" "bs = view s a (length bs)" by (rule holdsE)
  from coversD(1) [OF g(2) assms(3)] obtain b m where b: "(b, m) \<in> allocs segs" "q = payload b"
    "length cs + 8 \<le> 8 * m" "cs = view s b (length cs)" by (rule holdsE)
  note sp = heap_sep [OF g(1)]
  have u: "unat p = a + 8" "unat q = b + 8" using sep_unat(1) [OF sp a(1)] sep_unat(1) [OF sp b(1)] a(2) b(2) by simp_all
  have "a + 8 * n \<le> b \<or> b + 8 * m \<le> a" if "p \<noteq> q"
  proof -
    have "(a, n, True) \<in> set segs" "(b, m, True) \<in> set segs" using a(1) b(1) by (simp_all add: allocs_def)
    from hinv_disj [OF heap_invD [OF g(1)] this] that a(2) b(2) show ?thesis by blast
  qed
  then show ?thesis using u a(3,4) b(3) contents_view [OF u(1)] mm_check_inv [OF g(1)] by fastforce
qed

theorem client_blocks_witness:
  "\<exists>s q bs. reachable True s [q \<mapsto> bs] \<and> length bs = 100 \<and> contents s q 100 = bs \<and> mm_check s = Some True"
proof -
  obtain s where s: "reachable True s Map.empty" "legal Map.empty s (Realloc NULL 100)" by (rule run_client)
  obtain q s' where e: "exec True (Realloc NULL 100) s = Some (q, s')"
    using exec_refines [OF reachable_refines [OF s(1)] s(2), of True] by blast
  let ?bs = "contents s' q 100"
  have r: "reachable True s' [q \<mapsto> ?bs]" using reachable.step [OF s e] by simp
  have "length ?bs = 100" by (simp add: contents_def)
  then show ?thesis using r client_blocks [OF r, of q ?bs q ?bs] by (intro exI [of _ s'] exI [of _ q] exI [of _ ?bs]) simp
qed

end
