(* ===== verification/MmBrk.thy ===== *)
theory MmBrk
  imports MmSpec
begin

text \<open>
  Who moves the break: of the functions of \<open>malloclab-handout/mm.c\<close> only \<open>mm_sbrk\<close> does, and a
  request moves it by at most its size and 15 bytes, or by the 144 bytes of a unit. So the room a
  sequence of requests needs can be told from the sizes alone.

  \<open>stay g b x\<close> says that the heap in the result of \<open>x\<close>, which \<open>g\<close> picks out, has its break at
  \<open>b\<close> if there is a result. The rules of the collection \<open>brk\<close> follow the structure of a program.
\<close>

definition stay :: "('a \<Rightarrow> heap) \<Rightarrow> ptr \<Rightarrow> 'a option \<Rightarrow> bool" where
  "stay g b x \<longleftrightarrow> (\<forall>y. x = Some y \<longrightarrow> mem_brk (g y) = b)"

named_theorems brk \<open>rules for the break after a function\<close>

lemma stayI: "(\<And>y. x = Some y \<Longrightarrow> mem_brk (g y) = b) \<Longrightarrow> stay g b x"
  by (simp add: stay_def)

lemma stayD: "stay g b x \<Longrightarrow> x = Some y \<Longrightarrow> mem_brk (g y) = b"
  by (simp add: stay_def)

lemma stay_bind: "(\<And>y. stay g b (f y)) \<Longrightarrow> stay g b (x \<bind> f)"
  by (auto simp: stay_def bind_eq_Some_conv)

lemma stay_flow [brk]:
  "stay id b x1 \<Longrightarrow> (\<And>t. mem_brk t = b \<Longrightarrow> stay g b (f1 t)) \<Longrightarrow> stay g b (x1 \<bind> f1)"
  "stay snd b x2 \<Longrightarrow> (\<And>p t. mem_brk t = b \<Longrightarrow> stay g b (f2 (p, t))) \<Longrightarrow> stay g b (x2 \<bind> f2)"
  "stay (\<lambda>r. snd (snd r)) b x3 \<Longrightarrow> (\<And>p c t. mem_brk t = b \<Longrightarrow> stay g b (f3 (p, c, t))) \<Longrightarrow> stay g b (x3 \<bind> f3)"
  "stay (\<lambda>r. snd (snd (snd r))) b x4 \<Longrightarrow> (\<And>p c q t. mem_brk t = b \<Longrightarrow> stay g b (f4 (p, c, q, t))) \<Longrightarrow> stay g b (x4 \<bind> f4)"
  "stay g b x \<Longrightarrow> stay g b y \<Longrightarrow> stay g b (if c then x else y)"
  "stay g b (h u v) \<Longrightarrow> stay g b (case (u, v) of (p, q) \<Rightarrow> h p q)"
  "stay g b (k u) \<Longrightarrow> stay g b (Let u k)"
  by (auto simp: stay_def bind_eq_Some_conv)

lemma stay_Some [brk]:
  "mem_brk t = b \<Longrightarrow> stay id b (Some t)" "mem_brk t = b \<Longrightarrow> stay snd b (Some (p, t))"
  "mem_brk t = b \<Longrightarrow> stay (\<lambda>r. snd (snd r)) b (Some (p, c, t))"
  "mem_brk t = b \<Longrightarrow> stay (\<lambda>r. snd (snd (snd r))) b (Some (p, c, q, t))"
  by (simp_all add: stay_def)

lemma stay_store [brk]:
  "mem_brk s = b \<Longrightarrow> stay id b (store32 a v s)" "mem_brk s = b \<Longrightarrow> stay id b (store8 a w s)"
  by (auto simp: stay_def store32_def store8_def)

lemma stay_set [brk]:
  assumes "mem_brk s = b"
  shows "stay id b (set_prev p q s)" "stay id b (set_size p v s)" "stay id b (set_alloc p c s)"
    "stay id b (set_color p c s)" "stay id b (set_null p c s)" "stay id b (set_left p q s)"
    "stay id b (set_right p q s)" "stay id b (set_root q s)" "stay id b (set_color_of r c s)"
  unfolding set_prev_def set_size_def set_alloc_def set_color_def set_null_def set_left_def set_right_def
    set_root_def set_bits_def set_color_of_def
  by (rule brk assms | rule stay_bind)+

subsection \<open>The tree\<close>

lemma stay_rotate [brk]:
  assumes "mem_brk s = b"
  shows "stay snd b (mm_rotate_left p s)" "stay snd b (mm_rotate_right p s)"
  unfolding mm_rotate_left_def mm_rotate_right_def by (rule brk assms | assumption | rule stay_bind)+

lemma stay_insert_side [brk]:
  assumes "mem_brk s = b"
  shows "stay snd b (mm_insert_left p s)" "stay snd b (mm_insert_right p s)"
  unfolding mm_insert_left_def mm_insert_right_def by (rule brk assms | assumption | rule stay_bind)+

lemma stay_insert_node [brk]:
  assumes "mem_brk s = b"
  shows "stay snd b (mm_insert_node p n s)"
proof (rule stayI)
  fix r assume ret: "mm_insert_node p n s = Some r"
  have "mem_brk s = b \<longrightarrow> mem_brk (snd r) = b"
  proof (rule mm_insert_node.raw_induct [where P = "\<lambda>p n s r. mem_brk s = b \<longrightarrow> mem_brk (snd r) = b", OF _ ret], goal_cases)
    case (1 f p n s r)
    have f: "mem_brk t = b \<Longrightarrow> stay snd b (f p n t)" for p n t using 1(1) by (blast intro: stayI)
    show ?case
      by (rule impI) (rule stayD [OF _ 1(2)], (rule f brk | assumption | rule stay_bind)+)
  qed
  then show "mem_brk (snd r) = b" using assms by (rule mp)
qed

lemma stay_insert [brk]: "mem_brk s = b \<Longrightarrow> stay id b (mm_insert p s)"
  unfolding mm_insert_def by (rule brk | assumption | rule stay_bind)+

lemma stay_delete_black [brk]:
  assumes "mem_brk s = b"
  shows "stay (\<lambda>r. snd (snd r)) b (mm_delete_left_black p c s)" "stay (\<lambda>r. snd (snd r)) b (mm_delete_right_black p c s)"
  unfolding mm_delete_left_black_def mm_delete_right_black_def by (rule brk assms | assumption | rule stay_bind)+

lemma stay_delete_left [brk]:
  assumes "mem_brk s = b"
  shows "stay (\<lambda>r. snd (snd r)) b (mm_delete_left p c s)"
proof (rule stayI)
  fix r assume ret: "mm_delete_left p c s = Some r"
  have "mem_brk s = b \<longrightarrow> mem_brk ((\<lambda>r. snd (snd r)) r) = b"
  proof (rule mm_delete_left.raw_induct [where P = "\<lambda>p c s r. mem_brk s = b \<longrightarrow> mem_brk ((\<lambda>r. snd (snd r)) r) = b", OF _ ret], goal_cases)
    case (1 f p c s r)
    have f: "mem_brk t = b \<Longrightarrow> stay (\<lambda>r. snd (snd r)) b (f p c t)" for p c t using 1(1) by (blast intro: stayI)
    show ?case
      by (rule impI) (rule stayD [OF _ 1(2)], (rule f brk | assumption | rule stay_bind)+)
  qed
  then show "mem_brk ((\<lambda>r. snd (snd r)) r) = b" using assms by (rule mp)
qed

lemma stay_delete_right [brk]:
  assumes "mem_brk s = b"
  shows "stay (\<lambda>r. snd (snd r)) b (mm_delete_right p c s)"
proof (rule stayI)
  fix r assume ret: "mm_delete_right p c s = Some r"
  have "mem_brk s = b \<longrightarrow> mem_brk ((\<lambda>r. snd (snd r)) r) = b"
  proof (rule mm_delete_right.raw_induct [where P = "\<lambda>p c s r. mem_brk s = b \<longrightarrow> mem_brk ((\<lambda>r. snd (snd r)) r) = b", OF _ ret], goal_cases)
    case (1 f p c s r)
    have f: "mem_brk t = b \<Longrightarrow> stay (\<lambda>r. snd (snd r)) b (f p c t)" for p c t using 1(1) by (blast intro: stayI)
    show ?case
      by (rule impI) (rule stayD [OF _ 1(2)], (rule f brk | assumption | rule stay_bind)+)
  qed
  then show "mem_brk ((\<lambda>r. snd (snd r)) r) = b" using assms by (rule mp)
qed

lemma stay_delete_node [brk]:
  assumes "mem_brk s = b"
  shows "stay (\<lambda>r. snd (snd (snd r))) b (mm_delete_node p d c w u s)"
proof (rule stayI)
  fix r assume ret: "mm_delete_node p d c w u s = Some r"
  have "mem_brk s = b \<longrightarrow> mem_brk ((\<lambda>r. snd (snd (snd r))) r) = b"
  proof (rule mm_delete_node.raw_induct [where P = "\<lambda>p d c w u s r. mem_brk s = b \<longrightarrow> mem_brk ((\<lambda>r. snd (snd (snd r))) r) = b", OF _ ret], goal_cases)
    case (1 f p d c w u s r)
    have f: "mem_brk t = b \<Longrightarrow> stay (\<lambda>r. snd (snd (snd r))) b (f p d c w u t)" for p d c w u t using 1(1) by (blast intro: stayI)
    show ?case
      by (rule impI) (rule stayD [OF _ 1(2)], (rule f brk | assumption | rule stay_bind)+)
  qed
  then show "mem_brk ((\<lambda>r. snd (snd (snd r))) r) = b" using assms by (rule mp)
qed

lemma stay_delete [brk]: "mem_brk s = b \<Longrightarrow> stay id b (mm_delete p c s)"
  unfolding mm_delete_def by (rule brk | assumption | rule stay_bind)+

subsection \<open>The package\<close>

lemma stay_loops [brk]:
  "mem_brk s = b \<Longrightarrow> stay id b (memset_loop a c k s)" "mem_brk s = b \<Longrightarrow> stay id b (memcpy_loop x y k s)"
proof -
  show "mem_brk s = b \<Longrightarrow> stay id b (memset_loop a c k s)"
  proof (induction k arbitrary: a s)
    case (Suc k)
    show ?case unfolding memset_loop.simps by (rule brk Suc | assumption | rule stay_bind)+
  qed (simp add: stay_def)
  show "mem_brk s = b \<Longrightarrow> stay id b (memcpy_loop x y k s)"
  proof (induction k arbitrary: x y s)
    case (Suc k)
    show ?case unfolding memcpy_loop.simps by (rule brk Suc | assumption | rule stay_bind)+
  qed (simp add: stay_def)
qed

lemma stay_helpers [brk]:
  assumes "mem_brk s = b"
  shows "stay snd b (mm_memcpy p q n s)" "stay id b (mm_clear_header p s)"
  unfolding mm_memcpy_def mm_clear_header_def mm_memset_def by (rule brk assms | assumption | rule stay_bind)+

lemma stay_frag [brk]: "mem_brk s = b \<Longrightarrow> stay snd b (mm_frag_node p n s)"
  unfolding mm_frag_node_def by (rule brk | assumption | rule stay_bind)+

lemma stay_merge [brk]:
  assumes "mem_brk s = b"
  shows "stay snd b (free_prev ub p q s)" "stay id b (free_next ub p q s)"
  unfolding free_prev_def free_next_def by (rule brk assms | assumption | rule stay_bind)+

lemma stay_free [brk]: "mem_brk s = b \<Longrightarrow> stay id b (mm_free ub p s)"
  unfolding mm_free_def by (rule brk | assumption | rule stay_bind)+

lemma stay_coalesce [brk]:
  assumes "mem_brk s = b"
  shows "stay id b (realloc_coalesce ub p q n s)"
proof (rule stayI)
  fix r assume ret: "realloc_coalesce ub p q n s = Some r"
  have "mem_brk s = b \<longrightarrow> mem_brk (id r) = b"
  proof (rule realloc_coalesce.raw_induct [where P = "\<lambda>ub p q n s r. mem_brk s = b \<longrightarrow> mem_brk (id r) = b", OF _ ret], goal_cases)
    case (1 f ub p q n s r)
    have f: "mem_brk t = b \<Longrightarrow> stay id b (f ub p q n t)" for ub p q n t using 1(1) by (blast intro: stayI)
    show ?case
      by (rule impI) (rule stayD [OF _ 1(2)], (rule f brk | assumption | rule stay_bind)+)
  qed
  then show "mem_brk (id r) = b" using assms by (rule mp)
qed

lemma stay_expand [brk]: "mem_brk s = b \<Longrightarrow> stay snd b (realloc_expand ub p q n s)"
  unfolding realloc_expand_def by (rule brk | assumption | rule stay_bind)+

subsection \<open>How far the break moves\<close>

text \<open>The break of a new heap is at most \<open>k\<close> above the one of \<open>s\<close>, and not below.\<close>

definition up :: "('a \<Rightarrow> heap) \<Rightarrow> heap \<Rightarrow> nat \<Rightarrow> 'a option \<Rightarrow> bool" where
  "up g s k x \<longleftrightarrow> (\<forall>y. x = Some y \<longrightarrow>
    unat (mem_brk s) \<le> unat (mem_brk (g y)) \<and> unat (mem_brk (g y)) \<le> unat (mem_brk s) + k)"

lemma upD: "up g s k x \<Longrightarrow> x = Some y \<Longrightarrow>
    unat (mem_brk s) \<le> unat (mem_brk (g y)) \<and> unat (mem_brk (g y)) \<le> unat (mem_brk s) + k"
  by (simp add: up_def)

lemma up_stay: "stay g (mem_brk s) x \<Longrightarrow> up g s k x"
  by (simp add: up_def stay_def)

lemma up_bind: "(\<And>y. x = Some y \<Longrightarrow> up g s k (f y)) \<Longrightarrow> up g s k (x \<bind> f)"
  by (auto simp: up_def bind_eq_Some_conv)

lemma up_then: "up snd s k x \<Longrightarrow> (\<And>p t. stay g (mem_brk t) (f (p, t))) \<Longrightarrow> up g s k (x \<bind> f)"
  unfolding up_def stay_def bind_eq_Some_conv by (metis prod.collapse)

lemma up_if: "(c \<Longrightarrow> up g s k x) \<Longrightarrow> (\<not> c \<Longrightarrow> up g s k y) \<Longrightarrow> up g s k (if c then x else y)"
  by simp

lemma up_pair: "(\<And>u v. y = (u, v) \<Longrightarrow> up g s k (h u v)) \<Longrightarrow> up g s k (case y of (u, v) \<Rightarrow> h u v)"
  by (cases y) simp

lemma at_end_less: "c_and (Some c) x = Some y \<Longrightarrow> y \<Longrightarrow> c"
  by (auto simp: c_and_def split: if_splits)

lemma up_mono: "up g s k x \<Longrightarrow> k \<le> j \<Longrightarrow> up g s j x"
  unfolding up_def by fastforce

lemma mem_sbrk_up:
  assumes "unat (mem_brk s) + unat n < 4294967296"
  shows "unat (mem_brk s) \<le> unat (mem_brk (snd (mem_sbrk n s))) \<and>
    unat (mem_brk (snd (mem_sbrk n s))) \<le> unat (mem_brk s) + unat n"
  using assms unat_add_lem [of "mem_brk s" n] by (simp add: mem_sbrk_def Let_def)

lemma up_sbrk:
  assumes "unat (mem_brk s) + max 144 (unat n) < 4294967296"
  shows "up snd s (max 144 (unat n)) (mm_sbrk n s)"
proof -
  obtain q t where t: "mem_sbrk 144 s = (q, t)" by fastforce
  obtain r v where v: "mem_sbrk n s = (r, v)" by fastforce
  have st: "up snd s k X" if "stay snd (mem_brk t) X" "unat (mem_brk s) \<le> unat (mem_brk t)" "unat (mem_brk t) \<le> unat (mem_brk s) + k"
    for X :: "(ptr \<times> heap) option" and k t
    using that by (auto simp: up_def stay_def)
  have T: "unat (mem_brk s) \<le> unat (mem_brk t) \<and> unat (mem_brk t) \<le> unat (mem_brk s) + max 144 (unat n)"
    using mem_sbrk_up [of s 144] assms t by fastforce
  have V: "unat (mem_brk s) \<le> unat (mem_brk v) \<and> unat (mem_brk v) \<le> unat (mem_brk s) + max 144 (unat n)"
    using mem_sbrk_up [of s n] assms v by fastforce
  show ?thesis
  proof (cases "n < 144")
    case True
    have "stay snd (mem_brk t) (mm_sbrk n s)"
      unfolding mm_sbrk_def Let_def using True by (simp only: t if_True case_prod_conv) (rule brk refl | assumption | rule stay_bind)+
    then show ?thesis by (rule st) (use T in simp_all)
  next
    case False
    have "stay snd (mem_brk v) (mm_sbrk n s)"
      unfolding mm_sbrk_def Let_def using False by (simp only: v if_False case_prod_conv) (rule brk refl | assumption | rule stay_bind)+
    then show ?thesis by (rule st) (use V in simp_all)
  qed
qed

lemma up_sbrk_units:
  assumes "unat (mem_brk s) + max 144 (8 * m) < 4294967296" "unat w \<le> m"
  shows "up snd s (max 144 (8 * m)) (mm_sbrk (push_bit 3 w) s)"
proof -
  have "8 * unat w < 4294967296" using assms by simp
  then have "unat (push_bit 3 w) = 8 * unat w"
    by (simp add: push_bit_eq_mult unat_word_ariths mult.commute)
  then have "max 144 (unat (push_bit 3 w)) \<le> max 144 (8 * m)" using assms(2) by simp
  moreover from this have "unat (mem_brk s) + max 144 (unat (push_bit 3 w)) < 4294967296" using assms(1) by linarith
  ultimately show ?thesis using up_mono [OF up_sbrk] by blast
qed

lemma up_malloc:
  assumes "room s sz"
  shows "up snd s (max 144 (unat sz + 15)) (mm_malloc ub sz s)"
proof -
  have sz: "unat sz < 2147483000" and r: "unat (mem_brk s) + max 144 (unat sz + 15) < 4294967296"
    using assms unat32_less [of "mem_max_addr s"] by (simp_all add: room_def)
  have k: "drop_bit 3 (ALIGN sz + 8) = of_nat (units sz)" "8 * units sz \<le> unat sz + 15"
    using align_units [of sz] units_bounds(2) [of sz] sz by simp_all
  have u: "unat (of_nat (units sz) :: c_uint) \<le> units sz" by (simp add: unat_of_nat take_bit_nat_less_eq_self)
  have "max 144 (8 * units sz) \<le> max 144 (unat sz + 15)" using k(2) by simp
  then have sb: "up snd s (max 144 (unat sz + 15)) (mm_sbrk (push_bit 3 (of_nat (units sz))) s)"
    using up_mono [OF up_sbrk_units [OF _ u]] r by fastforce
  show ?thesis
    unfolding mm_malloc_def Let_def k(1)
  proof (rule up_bind, rule up_then)
    fix p
    show "up snd s (max 144 (unat sz + 15))
      (if p = NULL then mm_sbrk (push_bit 3 (of_nat (units sz))) s
       else do {
         s \<leftarrow> mm_delete p ub s;
         (p, s) \<leftarrow> mm_frag_node p (of_nat (units sz)) s;
         s \<leftarrow> set_alloc p True s;
         Some (p, s) })"
      using sb by (simp, intro impI up_stay) (rule brk refl | assumption | rule stay_bind)+
  next
    show "stay snd (mem_brk t) (case (p, t) of (p, s) \<Rightarrow> Some (p + 8, s))" for p t
      by (simp add: stay_def)
  qed
qed

lemma up_realloc:
  assumes "room s sz"
  shows "up snd s (max 144 (unat sz + 15)) (mm_realloc ub p sz s)"
proof -
  have sz: "unat sz < 2147483000" and r: "unat (mem_brk s) + max 144 (unat sz + 15) < 4294967296"
    using assms unat32_less [of "mem_max_addr s"] by (simp_all add: room_def)
  have k: "drop_bit 3 (ALIGN sz + 8) = of_nat (units sz)" "8 * units sz \<le> unat sz + 15"
    using align_units [of sz] units_bounds(2) [of sz] sz by simp_all
  let ?k = "of_nat (units sz) :: c_uint"
  have u: "unat ?k \<le> units sz" by (simp add: unat_of_nat take_bit_nat_less_eq_self)
  have sb: "up snd s (max 144 (unat sz + 15)) (mm_sbrk (push_bit 3 (?k - acc)) s)" if "acc < ?k" for acc
  proof -
    have "unat (?k - acc) \<le> units sz" using that u by unat_arith
    from up_sbrk_units [OF _ this, of s] show ?thesis using r k(2) up_mono by fastforce
  qed
  have st: "up snd s (max 144 (unat sz + 15)) (mm_realloc ub p sz s)" if "p = NULL"
    using up_malloc [OF assms] that by (simp add: mm_realloc_def)
  have fr: "up snd s (max 144 (unat sz + 15)) (mm_realloc ub p sz s)" if "p \<noteq> NULL" "sz = 0"
    using that unfolding mm_realloc_def
    by (simp, intro up_stay) (rule brk refl | assumption | rule stay_bind)+
  have "up snd s (max 144 (unat sz + 15)) (mm_realloc ub p sz s)" if n: "p \<noteq> NULL" "sz \<noteq> 0"
    unfolding mm_realloc_def Let_def k(1) if_not_P [OF n(1)] if_not_P [OF n(2)]
    apply (rule up_bind, rule up_if)
     apply (rule up_stay, (rule brk refl | assumption)+)
    apply (rule up_bind, rule up_bind, rule up_pair, rule up_bind, rule up_if)
     apply (rule up_then [OF sb], erule (1) at_end_less, (rule brk refl | assumption | rule stay_bind)+)
    apply (rule up_if)
     apply (rule up_then [OF up_malloc [OF assms]], (rule brk refl | assumption | rule stay_bind)+)
    apply (rule up_stay, (rule brk refl)+)
    done
  with st fr show ?thesis by blast
qed

end
