(* ===== verification/MdriverProps.thy ===== *)
theory MdriverProps
  imports Trace Client MmBrk
begin

text \<open>
  The driver of \<open>malloclab-handout/mdriver.c\<close> and the allocator of \<open>mm.c\<close> together: the driver
  keeps an image of the heap (its arrays of pointers and sizes, its list of ranges and the bytes it
  filled the blocks with), and \<open>shadow\<close> says that the heap is as the driver believes. Every request
  of a well-formed trace keeps it, so the driver finds the allocator valid and its utilisation is
  at most 1.
\<close>

subsection \<open>The blocks of a client's store\<close>

lemma refines_block:
  assumes "refines s A" "A p = Some bs"
  shows "lo s + 32 \<le> unat p" "unat p + length bs + 8 \<le> unat (mem_brk s)" "8 dvd unat p - lo s"
    "unat (mem_brk s) \<le> unat (mem_max_addr s)" "p \<noteq> NULL"
proof -
  obtain segs where g: "heap_inv s segs" "covers s (allocs segs) A" using assms(1) by (rule refinesE)
  from coversD(1) [OF g(2) assms(2)] obtain a n where a: "(a, n) \<in> allocs segs" "p = payload a"
    "length bs + 8 \<le> 8 * n" "bs = view s a (length bs)" by (rule holdsE)
  note sp = heap_sep [OF g(1)] and F = alloc_facts [OF g(1) a(1)]
  have u: "unat p = a + 8" using sep_unat(1) [OF sp a(1)] a(2) by simp
  show "lo s + 32 \<le> unat p" "8 dvd unat p - lo s" "unat p + length bs + 8 \<le> unat (mem_brk s)"
    using F a(3) unfolding u by linarith+
  show "unat (mem_brk s) \<le> unat (mem_max_addr s)" using hinv_bounds [OF heap_invD [OF g(1)]] by linarith
  show "p \<noteq> NULL" using sep_unat(2) [OF sp a(1)] a(2) by simp
qed

lemma refines_disjoint:
  assumes "refines s A" "A p = Some bs" "A q = Some cs" "p \<noteq> q"
  shows "unat p + length bs \<le> unat q \<or> unat q + length cs \<le> unat p"
proof -
  obtain segs where g: "heap_inv s segs" "covers s (allocs segs) A" using assms(1) by (rule refinesE)
  from coversD(1) [OF g(2) assms(2)] obtain a n where a: "(a, n) \<in> allocs segs" "p = payload a"
    "length bs + 8 \<le> 8 * n" "bs = view s a (length bs)" by (rule holdsE)
  from coversD(1) [OF g(2) assms(3)] obtain b m where b: "(b, m) \<in> allocs segs" "q = payload b"
    "length cs + 8 \<le> 8 * m" "cs = view s b (length cs)" by (rule holdsE)
  note sp = heap_sep [OF g(1)]
  have u: "unat p = a + 8" "unat q = b + 8" using sep_unat(1) [OF sp a(1)] sep_unat(1) [OF sp b(1)] a(2) b(2) by simp_all
  have "(a, n, True) \<in> set segs" "(b, m, True) \<in> set segs" using a(1) b(1) by (simp_all add: allocs_def)
  from hinv_disj [OF heap_invD [OF g(1)] this] show ?thesis using u a(2,3) b(2,3) assms(4) by fastforce
qed

lemma refines_byte:
  assumes "refines s A" "A p = Some bs" "i < length bs"
  shows "load8 (unat p + i) s = Some (bs ! i)"
proof -
  obtain segs where g: "heap_inv s segs" "covers s (allocs segs) A" using assms(1) by (rule refinesE)
  from coversD(1) [OF g(2) assms(2)] obtain a n where a: "(a, n) \<in> allocs segs" "p = payload a"
    "length bs + 8 \<le> 8 * n" "bs = view s a (length bs)" by (rule holdsE)
  have u: "unat p = a + 8" using sep_unat(1) [OF heap_sep [OF g(1)] a(1)] a(2) by simp
  have "mem_ok s (unat p + i) 1"
    using refines_block(1,2,4) [OF assms(1,2)] assms(3) by (simp add: mem_ok_def lo_def)
  moreover have "bs ! i = mem_bytes s (unat p + i)" using assms(3) by (subst a(4)) (simp add: view_def u add.assoc)
  ultimately show ?thesis by (simp add: load8_def)
qed

text \<open>A loop that fills the rest of a block.\<close>

lemma refines_fill:
  assumes "refines s A" "A p = Some bs" "length bs = j + k"
  shows "\<exists>s'. memset_loop (unat p + j) v k s = Some s' \<and> refines s' (A(p \<mapsto> take j bs @ replicate k v)) \<and>
    same_area s s' \<and> mem_brk s' = mem_brk s"
  using assms
proof (induction k arbitrary: s A bs j)
  case 0
  then have "A(p \<mapsto> take j bs @ replicate 0 v) = A" by auto
  then show ?case using 0 by simp
next
  case (Suc k)
  obtain t where t: "store8 (unat p + j) v s = Some t" "refines t (A(p \<mapsto> bs[j := v]))" "same_area s t"
    by (rule refines_write [OF Suc.prems(1,2), of j v]) (use Suc.prems(3) in simp)
  have b: "mem_brk t = mem_brk s" using t(1) by (auto simp: store8_def split: if_splits)
  obtain s' where s': "memset_loop (unat p + Suc j) v k t = Some s'"
      "refines s' (A(p \<mapsto> take (Suc j) (bs[j := v]) @ replicate k v))" "same_area t s'" "mem_brk s' = mem_brk t"
    using Suc.IH [OF t(2), of "bs[j := v]" "Suc j"] Suc.prems(3)
    by (simp del: fun_upd_apply add: fun_upd_same) blast
  have "take (Suc j) (bs[j := v]) = take j bs @ [v]" using Suc.prems(3) by (simp add: take_Suc_conv_app_nth)
  then have "refines s' (A(p \<mapsto> take j bs @ replicate (Suc k) v))" using s'(2) by simp
  then show ?case using t s' b same_area_trans [OF t(3) s'(3)] by (auto simp del: fun_upd_apply)
qed

subsection \<open>Traces\<close>

text \<open>A trace is well formed when it allocates with an index that is not in use and frees and
  reallocates with one that is; \<open>L\<close> is the set of the indices in use, \<open>n\<close> the length of the arrays.\<close>

fun wf_ops :: "nat \<Rightarrow> nat set \<Rightarrow> traceop_t list \<Rightarrow> bool" where
  "wf_ops n L [] \<longleftrightarrow> True"
| "wf_ops n L (r # rs) \<longleftrightarrow>
    (let i = unat (op_index r)
     in i < n \<and> (case op_type r of
       ALLOC \<Rightarrow> i \<notin> L \<and> 0 <s op_size r \<and> wf_ops n (insert i L) rs
     | REALLOC \<Rightarrow> i \<in> L \<and> 0 <s op_size r \<and> wf_ops n L rs
     | FREE \<Rightarrow> i \<in> L \<and> wf_ops n (L - {i}) rs))"

text \<open>The bytes the requests take at most.\<close>

fun need :: "traceop_t list \<Rightarrow> nat" where
  "need [] = 0"
| "need (r # rs) = (if op_type r = FREE then 0 else max 144 (unat (op_size r) + 15)) + need rs"

definition fill_byte :: "c_int \<Rightarrow> byte" where
  "fill_byte i = ucast (i AND 0xFF)"

definition extent :: "ptr \<Rightarrow> c_int \<Rightarrow> range_t" where
  "extent p z = \<lparr>r_lo = p, r_hi = p + z - 1\<rparr>"

text \<open>The blocks the driver believes in: those of the indices \<open>L\<close>, of the sizes it remembers and
  with contents that satisfy \<open>P\<close>; the store holds these and nothing else.\<close>

definition shadow :: "(nat \<Rightarrow> byte list \<Rightarrow> bool) \<Rightarrow> trace_t \<Rightarrow> nat set \<Rightarrow> store \<Rightarrow> bool" where
  "shadow P t L A \<longleftrightarrow>
    (\<forall>i\<in>L. i < length (blocks t) \<and> i < length (block_sizes t) \<and> 0 <s block_sizes t ! i \<and>
      (case A (blocks t ! i) of None \<Rightarrow> False | Some bs \<Rightarrow> length bs = unat (block_sizes t ! i) \<and> P i bs)) \<and>
    dom A = (\<lambda>i. blocks t ! i) ` L \<and> inj_on (\<lambda>i. blocks t ! i) L"

text \<open>Filled with the low byte of the index.\<close>

definition filled :: "nat \<Rightarrow> byte list \<Rightarrow> bool" where
  "filled i bs \<longleftrightarrow> bs = replicate (length bs) (fill_byte (of_nat i))"

definition ranges_ok :: "trace_t \<Rightarrow> nat set \<Rightarrow> range_t list \<Rightarrow> bool" where
  "ranges_ok t L rs \<longleftrightarrow> distinct (map r_lo rs) \<and> set rs = (\<lambda>i. extent (blocks t ! i) (block_sizes t ! i)) ` L"

lemma pos_size: "0 <s z \<Longrightarrow> 1 \<le> unat (z :: c_int) \<and> unat z < 2147483648 \<and> sint z = int (unat z)"
proof -
  assume "0 <s z"
  then have s: "0 < sint z" by (simp add: word_sless_alt)
  then have "(of_bool (sint z < 0) :: int) = 0" by simp
  then have "sint z = uint z" using sint32_eq [of z] by linarith
  then show ?thesis using s sint32_bounds [of z] uint_nat [of z] by linarith
qed

lemma hi_unat: "1 \<le> unat z \<Longrightarrow> unat p + unat z < 4294967296 \<Longrightarrow> unat (p + z - 1 :: ptr) = unat p + unat z - 1"
  using unat_add_lem [of p z] by (simp add: unat_dec)

lemma shadowD:
  assumes "shadow P t L A" "i \<in> L"
  shows "i < length (blocks t)" "i < length (block_sizes t)" "0 <s block_sizes t ! i"
    "A (blocks t ! i) \<noteq> None"
  using assms by (auto simp: shadow_def)

lemma shadowE:
  assumes "shadow P t L A" "i \<in> L"
  obtains bs where "A (blocks t ! i) = Some bs" "length bs = unat (block_sizes t ! i)" "P i bs"
  using assms by (auto simp: shadow_def split: option.splits)

lemma shadow_ne: "shadow P t L A \<Longrightarrow> A q = None \<Longrightarrow> j \<in> L \<Longrightarrow> blocks t ! j \<noteq> q"
  using shadowD(4) by metis

lemma shadow_insert:
  assumes "shadow P t L A" "i \<notin> L" "A q = None" "i < length (blocks t)" "i < length (block_sizes t)" "0 <s z"
    and bs: "length bs = unat z" "P i bs"
  shows "shadow P (t\<lparr>blocks := (blocks t)[i := q], block_sizes := (block_sizes t)[i := z]\<rparr>) (insert i L) (A(q \<mapsto> bs))"
proof -
  have q: "blocks t ! j \<noteq> q" if "j \<in> L" for j by (rule shadow_ne [OF assms(1,3) that])
  have n: "j \<noteq> i" if "j \<in> L" for j using that assms(2) by blast
  have u: "(blocks t)[i := q] ! j = (if j = i then q else blocks t ! j)"
    "(block_sizes t)[i := z] ! j = (if j = i then z else block_sizes t ! j)" for j
    using assms(4,5) by (simp_all add: nth_list_update)
  have img: "(\<lambda>j. if j = i then q else blocks t ! j) ` insert i L = insert q ((\<lambda>j. blocks t ! j) ` L)"
    using n by force
  have "dom (A(q \<mapsto> bs)) = insert q ((\<lambda>j. blocks t ! j) ` L)"
    using assms(1) by (simp add: shadow_def)
  moreover have "inj_on (\<lambda>j. if j = i then q else blocks t ! j) (insert i L)"
    using assms(1) q n by (simp add: shadow_def inj_on_def) metis
  moreover have "\<forall>j\<in>insert i L. j < length ((blocks t)[i := q]) \<and> j < length ((block_sizes t)[i := z]) \<and>
      0 <s (block_sizes t)[i := z] ! j \<and>
      (case (A(q \<mapsto> bs)) ((blocks t)[i := q] ! j) of None \<Rightarrow> False
       | Some bs \<Rightarrow> length bs = unat ((block_sizes t)[i := z] ! j) \<and> P j bs)"
    using assms(4-8) q n assms(1) by (simp add: u shadow_def cong: option.case_cong)
  moreover have e: "(!) ((blocks t)[i := q]) = (\<lambda>j. if j = i then q else blocks t ! j)" by (rule ext) (rule u)
  moreover have s: "blocks (t\<lparr>blocks := (blocks t)[i := q], block_sizes := (block_sizes t)[i := z]\<rparr>) = (blocks t)[i := q]"
    "block_sizes (t\<lparr>blocks := (blocks t)[i := q], block_sizes := (block_sizes t)[i := z]\<rparr>) = (block_sizes t)[i := z]"
    by simp_all
  ultimately show ?thesis unfolding shadow_def s e img by (intro conjI)
qed

lemma shadow_remove:
  assumes "shadow P t L A" "i \<in> L"
  shows "shadow P t (L - {i}) (A(blocks t ! i := None))"
proof -
  have "blocks t ! j \<noteq> blocks t ! i" if "j \<in> L - {i}" for j
    using assms that by (auto simp: shadow_def inj_on_def)
  moreover have "inj_on (\<lambda>i. blocks t ! i) L" "dom A = (\<lambda>i. blocks t ! i) ` L" using assms(1) by (simp_all add: shadow_def)
  ultimately show ?thesis using assms by (auto simp: shadow_def inj_on_def dest: inj_onD)
qed

lemma set_remove_range:
  "distinct (map r_lo rs) \<Longrightarrow> distinct (map r_lo (remove_range p rs)) \<and> set (remove_range p rs) = {r \<in> set rs. r_lo r \<noteq> p}"
  by (induction rs) (force simp: image_iff)+

lemma ranges_remove:
  assumes "shadow P t L A" "ranges_ok t L rs" "i \<in> L"
  shows "ranges_ok t (L - {i}) (remove_range (blocks t ! i) rs)"
proof -
  have "blocks t ! j \<noteq> blocks t ! i" if "j \<in> L - {i}" for j
    using assms that by (auto simp: shadow_def inj_on_def)
  then show ?thesis using assms(2) set_remove_range [of rs "blocks t ! i"]
    unfolding ranges_ok_def by (auto simp: extent_def)
qed

lemma ranges_insert:
  assumes "ranges_ok t L rs" "i \<notin> L" "i < length (blocks t)" "i < length (block_sizes t)" "\<And>j. j \<in> L \<Longrightarrow> blocks t ! j \<noteq> q"
  shows "ranges_ok (t\<lparr>blocks := (blocks t)[i := q], block_sizes := (block_sizes t)[i := z]\<rparr>) (insert i L) (extent q z # rs)"
proof -
  have "(\<lambda>j. extent ((blocks t)[i := q] ! j) ((block_sizes t)[i := z] ! j)) ` insert i L =
      insert (extent q z) ((\<lambda>j. extent (blocks t ! j) (block_sizes t ! j)) ` L)"
    using assms(2-4) by (force simp: nth_list_update)
  moreover have "q \<notin> set (map r_lo rs)"
  proof
    assume "q \<in> set (map r_lo rs)"
    then obtain j where "j \<in> L" "q = r_lo (extent (blocks t ! j) (block_sizes t ! j))"
      using assms(1) by (auto simp: ranges_ok_def)
    then show False using assms(5) [of j] by (simp add: extent_def)
  qed
  ultimately show ?thesis using assms(1) unfolding ranges_ok_def trace_t.simps by (simp add: extent_def)
qed

text \<open>The range list finds an overlap when one of the ends of the new extent is in a listed one.\<close>

lemma overlaps_iff:
  "overlaps p q rs \<longleftrightarrow> (\<exists>r\<in>set rs. (r_lo r \<le> p \<and> p \<le> r_hi r) \<or> (r_lo r \<le> q \<and> q \<le> r_hi r))"
  by (induction rs) auto

text \<open>It does not find a listed extent that lies inside the new one: an aligned block within the heap
  is accepted when it encloses the ranges it overlaps.\<close>

lemma enclosing_accepted:
  assumes "0 <s z" "IS_ALIGNED p" "d_mem d"
    and "mem_heap_lo (d_heap d) \<le> p" "p \<le> p + z - 1" "p + z - 1 \<le> mem_heap_hi (d_heap d)"
    and "\<And>r. r \<in> set (d_ranges d) \<Longrightarrow> p < r_lo r \<and> r_hi r < p + z - 1"
  shows "add_range p z d = (Fine, d\<lparr>d_ranges := extent p z # d_ranges d\<rparr>)"
proof -
  have "\<not> overlaps p (p + z - 1) (d_ranges d)" unfolding overlaps_iff using assms(7) by fastforce
  moreover have "\<not> p < mem_heap_lo (d_heap d) \<and> \<not> mem_heap_hi (d_heap d) < p \<and>
      \<not> p + z - 1 < mem_heap_lo (d_heap d) \<and> \<not> mem_heap_hi (d_heap d) < p + z - 1"
    using assms(4-6) by (meson leD le_less_trans less_le_trans order.trans)
  ultimately show ?thesis using assms(1-3) by (simp add: add_range_def Let_def extent_def)
qed

lemma IS_ALIGNED_unat: "IS_ALIGNED p \<longleftrightarrow> 8 dvd unat p"
  by (simp add: IS_ALIGNED_def word_unat_eq_iff unat_mod dvd_eq_mod_eq_0)

subsection \<open>Requests\<close>

definition sound :: "driver \<Rightarrow> nat set \<Rightarrow> store \<Rightarrow> bool" where
  "sound d L A \<longleftrightarrow> refines (d_heap d) A \<and> shadow filled (d_trace d) L A \<and> ranges_ok (d_trace d) L (d_ranges d) \<and>
     8 dvd lo (d_heap d) \<and> d_mem d"

lemma disjoint_ranges:
  assumes d: "unat p + unat z \<le> unat q \<or> unat q + unat y \<le> unat p"
    and b: "unat p + unat z < 4294967296" "unat q + unat y < 4294967296" "1 \<le> unat z" "1 \<le> unat y"
  shows "\<not> ((r_lo (extent q y) \<le> p \<and> p \<le> r_hi (extent q y)) \<or>
    (r_lo (extent q y) \<le> p + z - 1 \<and> p + z - 1 \<le> r_hi (extent q y)))"
proof -
  have h: "unat (p + z - 1) = unat p + unat z - 1" "unat (q + y - 1) = unat q + unat y - 1"
    using hi_unat b by simp_all
  show ?thesis unfolding extent_def range_t.simps word_le_nat_alt h using d b(3,4) by linarith
qed

lemma add_range_ok:
  assumes R: "refines (d_heap d) (A(q \<mapsto> bs))" "A q = None" "length bs = unat z" "0 <s z"
    and I: "shadow filled (d_trace d) L A" "ranges_ok (d_trace d) L (d_ranges d)" and D: "8 dvd lo (d_heap d)" "d_mem d"
  shows "add_range q z d = (Fine, d\<lparr>d_ranges := extent q z # d_ranges d\<rparr>)"
proof -
  let ?A = "A(q \<mapsto> bs)" and ?s = "d_heap d"
  have q: "?A q = Some bs" by simp
  note B = refines_block [OF R(1) q] and z = pos_size [OF R(4)]
  have u: "unat (mem_brk ?s) < 4294967296" by (rule unat32_less)
  have hi: "unat (q + z - 1) = unat q + unat z - 1" using hi_unat [of z q] z B(2) R(3) u by linarith
  have top: "unat (mem_brk ?s - 1) = unat (mem_brk ?s) - 1" using B(2) by (intro unat_dec) linarith
  have al: "IS_ALIGNED q"
  proof -
    have "8 dvd (unat q - lo ?s) + lo ?s" using B(3) D(1) by (rule dvd_add)
    moreover have "(unat q - lo ?s) + lo ?s = unat q" using B(1) by linarith
    ultimately show ?thesis unfolding IS_ALIGNED_unat by metis
  qed
  have inside: "\<not> (q < mem_heap_lo ?s \<or> mem_heap_hi ?s < q \<or> q + z - 1 < mem_heap_lo ?s \<or> mem_heap_hi ?s < q + z - 1)"
    using B(1,2) z R(3) unfolding mem_heap_lo_def mem_heap_hi_def word_less_nat_alt hi top lo_def by linarith
  have "\<not> overlaps q (q + z - 1) (d_ranges d)"
    unfolding overlaps_iff
  proof (rule notI, elim bexE)
    fix r assume "r \<in> set (d_ranges d)" and o: "(r_lo r \<le> q \<and> q \<le> r_hi r) \<or> (r_lo r \<le> q + z - 1 \<and> q + z - 1 \<le> r_hi r)"
    then obtain j where j: "j \<in> L" "r = extent (blocks (d_trace d) ! j) (block_sizes (d_trace d) ! j)"
      using I(2) by (auto simp: ranges_ok_def)
    let ?p = "blocks (d_trace d) ! j" and ?y = "block_sizes (d_trace d) ! j"
    note J = shadowD [OF I(1) j(1)]
    obtain cs where cs: "A ?p = Some cs" "length cs = unat ?y" by (rule shadowE [OF I(1) j(1)])
    have pq: "q \<noteq> ?p" using shadow_ne [OF I(1) R(2) j(1)] by simp
    then have p: "?A ?p = Some cs" using cs by simp
    have "unat q + unat z \<le> unat ?p \<or> unat ?p + unat ?y \<le> unat q"
      using refines_disjoint [OF R(1) q p pq] R(3) cs(2) by simp
    moreover have "unat ?p + unat ?y < 4294967296" using refines_block(2) [OF R(1) p] u cs(2) by simp
    ultimately show False using disjoint_ranges [of q z ?p ?y] pos_size [OF J(3)] z B(2) R(3) u o unfolding j(2) by linarith
  qed
  then show ?thesis using al inside D(2) R(4) by (simp add: add_range_def Let_def extent_def)
qed

text \<open>What both kinds of allocation end with: a block \<open>q\<close> the driver does not know yet is checked,
  filled and remembered.\<close>

lemma place:
  assumes R: "refines (d_heap d) (A(q \<mapsto> bs))" "A q = None" "length bs = unat z" "0 <s z"
    and I: "shadow filled (d_trace d) L A" "ranges_ok (d_trace d) L (d_ranges d)" and D: "8 dvd lo (d_heap d)" "d_mem d"
    and i: "unat i \<notin> L" "unat i < length (blocks (d_trace d))" "unat i < length (block_sizes (d_trace d))" "0 \<le>s i"
  obtains s t where "memset_loop (unat q) (fill_byte i) (unat z) (d_heap d) = Some s" "remember i q z (d_trace d) = Some t"
    "sound (d\<lparr>d_ranges := extent q z # d_ranges d, d_heap := s, d_trace := t\<rparr>) (insert (unat i) L)
      (A(q \<mapsto> replicate (unat z) (fill_byte i)))"
    "same_area (d_heap d) s" "mem_brk s = mem_brk (d_heap d)"
    "length (blocks t) = length (blocks (d_trace d))" "length (block_sizes t) = length (block_sizes (d_trace d))"
    "ops t = ops (d_trace d)" "num_ops t = num_ops (d_trace d)"
proof -
  let ?t = "(d_trace d)\<lparr>blocks := (blocks (d_trace d))[unat i := q], block_sizes := (block_sizes (d_trace d))[unat i := z]\<rparr>"
  have q: "(A(q \<mapsto> bs)) q = Some bs" by simp
  obtain s where s: "memset_loop (unat q) (fill_byte i) (unat z) (d_heap d) = Some s"
      "refines s (A(q \<mapsto> replicate (unat z) (fill_byte i)))" "same_area (d_heap d) s" "mem_brk s = mem_brk (d_heap d)"
    using refines_fill [OF R(1) q, of 0 "unat z" "fill_byte i"] R(3) by (auto simp del: fun_upd_apply)
  have ne: "blocks (d_trace d) ! j \<noteq> q" if "j \<in> L" for j by (rule shadow_ne [OF I(1) R(2) that])
  have im: "shadow filled ?t (insert (unat i) L) (A(q \<mapsto> replicate (unat z) (fill_byte i)))"
    using shadow_insert [OF I(1) i(1) R(2) i(2,3) R(4)] by (simp add: filled_def)
  have rg: "ranges_ok ?t (insert (unat i) L) (extent q z # d_ranges d)" by (rule ranges_insert [OF I(2) i(1-3) ne])
  have t: "remember i q z (d_trace d) = Some ?t" using i by (simp add: remember_def put_def)
  have "sound (d\<lparr>d_ranges := extent q z # d_ranges d, d_heap := s, d_trace := ?t\<rparr>) (insert (unat i) L)
      (A(q \<mapsto> replicate (unat z) (fill_byte i)))"
    using im rg s(2,3) D by (simp add: sound_def same_area_def lo_def del: fun_upd_apply)
  then show ?thesis using s t by (intro that [of s ?t]) simp_all
qed

text \<open>What a request leaves as it was, and how far the break moved.\<close>

definition settled :: "driver \<Rightarrow> driver \<Rightarrow> bool" where
  "settled d d' \<longleftrightarrow> same_area (d_heap d) (d_heap d') \<and> d_mem d' = d_mem d \<and>
     ops (d_trace d') = ops (d_trace d) \<and> num_ops (d_trace d') = num_ops (d_trace d) \<and>
     length (blocks (d_trace d')) = length (blocks (d_trace d)) \<and>
     length (block_sizes (d_trace d')) = length (block_sizes (d_trace d))"

definition after :: "nat \<Rightarrow> driver \<Rightarrow> driver \<Rightarrow> bool" where
  "after k d d' \<longleftrightarrow> settled d d' \<and> d_errors d' = d_errors d \<and>
     unat (mem_brk (d_heap d)) \<le> unat (mem_brk (d_heap d')) \<and>
     unat (mem_brk (d_heap d')) \<le> unat (mem_brk (d_heap d)) + k"

lemma settled_refl [simp]: "settled d d"
  by (simp add: settled_def)

lemma settled_trans: "settled d e \<Longrightarrow> settled e f \<Longrightarrow> settled d f"
  by (simp add: settled_def same_area_def)

lemma settled_error [simp]: "settled d (malloc_error e) \<longleftrightarrow> settled d e"
  by (simp add: settled_def malloc_error_def)

lemma settled_requests: "settled d e \<Longrightarrow> requests (d_trace e) = requests (d_trace d)"
  by (simp add: settled_def requests_def)

lemma afterD:
  assumes "after k d d'"
  shows "d_errors d' = d_errors d" "mem_max_addr (d_heap d') = mem_max_addr (d_heap d)"
    "unat (mem_brk (d_heap d')) \<le> unat (mem_brk (d_heap d)) + k"
    "length (blocks (d_trace d')) = length (blocks (d_trace d))"
    "length (block_sizes (d_trace d')) = length (block_sizes (d_trace d))" "settled d d'"
  using assms by (simp_all add: after_def settled_def same_area_def)

lemma mm_pkg_simps [simp]:
  "pkg_init (mm_pkg ub) s = map_option (\<lambda>s. (0, s)) (mm_init s)" "pkg_malloc (mm_pkg ub) = mm_malloc ub"
  "pkg_realloc (mm_pkg ub) = mm_realloc ub" "pkg_free (mm_pkg ub) = mm_free ub"
  by (simp_all add: mm_pkg_def)

lemma index_ok: "unat i < n \<Longrightarrow> n < 2147483648 \<Longrightarrow> 0 \<le>s (i :: c_int)"
  using sint_neg_unat [of i] by (simp add: word_sle_eq)

lemma valid_alloc_ok:
  assumes S: "sound d L A" and z: "room (d_heap d) z" "0 <s z"
    and i: "unat i \<notin> L" "unat i < length (blocks (d_trace d))" "unat i < length (block_sizes (d_trace d))" "0 \<le>s i"
  obtains d' A' where "valid_alloc (mm_pkg ub) i z d = Some (Fine, d')" "sound d' (insert (unat i) L) A'"
    "after (max 144 (unat z + 15)) d d'"
proof -
  note I = S [unfolded sound_def]
  have "1 \<le> unat z" using pos_size [OF z(2)] by simp
  then obtain q s where m: "mm_malloc ub z (d_heap d) = Some (q, s)" "A q = None" "q \<noteq> NULL"
      "refines s (A(q \<mapsto> contents s q (unat z)))" "same_area (d_heap d) s"
    using refines_malloc [of "d_heap d" A z ub] I z by metis
  let ?d = "d\<lparr>d_heap := s\<rparr>"
  have l: "length (contents s q (unat z)) = unat z" by (simp add: contents_def)
  have D: "8 dvd lo s" "d_mem d" using I m(5) by (simp_all add: same_area_def lo_def)
  have r: "refines (d_heap ?d) (A(q \<mapsto> contents s q (unat z)))" "shadow filled (d_trace ?d) L A"
      "ranges_ok (d_trace ?d) L (d_ranges ?d)" "8 dvd lo (d_heap ?d)" "d_mem ?d"
    using m(4) I D by simp_all
  have add: "add_range q z ?d = (Fine, ?d\<lparr>d_ranges := extent q z # d_ranges d\<rparr>)"
    using add_range_ok [OF r(1) m(2) l z(2) r(2-5)] by simp
  have i': "unat i < length (blocks (d_trace ?d))" "unat i < length (block_sizes (d_trace ?d))" using i by simp_all
  obtain s' t where p: "memset_loop (unat q) (fill_byte i) (unat z) (d_heap ?d) = Some s'" "remember i q z (d_trace ?d) = Some t"
      "sound (?d\<lparr>d_ranges := extent q z # d_ranges ?d, d_heap := s', d_trace := t\<rparr>) (insert (unat i) L)
        (A(q \<mapsto> replicate (unat z) (fill_byte i)))"
      "same_area (d_heap ?d) s'" "mem_brk s' = mem_brk (d_heap ?d)"
      "length (blocks t) = length (blocks (d_trace ?d))" "length (block_sizes t) = length (block_sizes (d_trace ?d))"
      "ops t = ops (d_trace ?d)" "num_ops t = num_ops (d_trace ?d)"
    by (rule place [OF r(1) m(2) l z(2) r(2-5) i(1) i' i(4)])
  let ?e = "d\<lparr>d_ranges := extent q z # d_ranges d, d_heap := s', d_trace := t\<rparr>"
  have "valid_alloc (mm_pkg ub) i z d = Some (Fine, ?e)"
    using m(1,3) add p(1,2) by (simp add: valid_alloc_def fill_byte_def)
  moreover have "sound ?e (insert (unat i) L) (A(q \<mapsto> replicate (unat z) (fill_byte i)))" using p(3) by simp
  moreover have "after (max 144 (unat z + 15)) d ?e"
    using upD [OF up_malloc [OF z(1)] m(1)] p(4-9) same_area_trans [OF m(5)] by (simp add: after_def settled_def)
  ultimately show ?thesis by (rule that)
qed

lemma same_fill_eq:
  "(\<And>j. j < k \<Longrightarrow> load8 (a + j) s = Some v) \<Longrightarrow> same_fill a c k s = Some (k = 0 \<or> scast v = c)"
proof (induction k arbitrary: a)
  case (Suc k)
  have "load8 a s = Some v" using Suc.prems [of 0] by simp
  moreover have "load8 (a + 1 + j) s = Some v" if "j < k" for j using Suc.prems [of "Suc j"] that by simp
  ultimately show ?case using Suc.IH [of "a + 1"] by (auto simp del: One_nat_def)
qed simp

lemma odd_div_128: "odd (n div 128) \<longleftrightarrow> \<not> n mod 256 < (128 :: nat)"
proof -
  have m: "n mod 256 = 128 * (n div 128 mod 2) + n mod 128" using mod_mult2_eq [of n 128 2] by simp
  show ?thesis
  proof (cases "odd (n div 128)")
    case True
    then have "n mod 256 = 128 + n mod 128" using m by (simp add: odd_iff_mod_2_eq_one)
    then show ?thesis using True by simp
  next
    case False
    then have "n mod 256 = n mod 128" using m by (simp add: even_iff_mod_2_eq_zero)
    then show ?thesis using False by simp
  qed
qed

text \<open>A \<open>char\<close> is signed: the fill byte of an index compares equal only if it is below 128.\<close>

lemma fill_signed: "scast (fill_byte i) = i AND 0xFF \<longleftrightarrow> unat i mod 256 < 128"
proof -
  have b: "bit (0xFF :: c_int) n \<longleftrightarrow> n < 8" for n
    using bit_mask_iff [of 8 n, where 'a = c_int] by (cases "n < 32") (auto simp: mask_eq_exp_minus_1 dest: bit_imp_le_length)
  have "bit i 7 \<longleftrightarrow> \<not> unat i mod 256 < 128"
  proof -
    have "bit i 7 \<longleftrightarrow> bit (unat i) 7" using bit_unsigned_iff [where 'a = nat, of i 7] by simp
    also have "\<dots> \<longleftrightarrow> odd (unat i div 128)" by (simp add: bit_iff_odd)
    also have "\<dots> \<longleftrightarrow> \<not> unat i mod 256 < 128" by (rule odd_div_128)
    finally show ?thesis .
  qed
  moreover have "scast (fill_byte i) = i AND 0xFF \<longleftrightarrow> \<not> bit i 7"
  proof -
    have f: "bit (fill_byte i) m \<longleftrightarrow> m < 8 \<and> bit i m" for m
      unfolding fill_byte_def bit_ucast_iff bit_and_iff b by (auto simp: possible_bit_word)
    have "bit (scast (fill_byte i) :: c_int) k \<longleftrightarrow> bit i (min k 7)" if "k < 32" for k
      using that unfolding bit_signed_iff by (auto simp: f possible_bit_word min_def)
    moreover have bits: "x = y \<longleftrightarrow> (\<forall>k<32. bit x k = bit y k)" for x y :: c_int
      by (auto intro!: bit_word_eqI)
    moreover have "bit (i AND 0xFF) k \<longleftrightarrow> k < 8 \<and> bit i k" for k unfolding bit_and_iff b by blast
    ultimately have "scast (fill_byte i) = i AND 0xFF \<longleftrightarrow> (\<forall>k<32. bit i (min k 7) \<longleftrightarrow> k < 8 \<and> bit i k)"
      using bits [of "scast (fill_byte i)" "i AND 0xFF"] by metis
    also have "\<dots> \<longleftrightarrow> \<not> bit i 7"
    proof
      assume "\<forall>k<32. bit i (min k 7) \<longleftrightarrow> k < 8 \<and> bit i k"
      from this [rule_format, of 8] show "\<not> bit i 7" by simp
    next
      assume n: "\<not> bit i 7"
      have "bit i (min k 7) \<longleftrightarrow> k < 8 \<and> bit i k" for k
      proof -
        consider "k < 7" | "k = 7" | "7 < k" by linarith
        then show ?thesis using n by cases simp_all
      qed
      then show "\<forall>k<32. bit i (min k 7) \<longleftrightarrow> k < 8 \<and> bit i k" by blast
    qed
    finally show ?thesis .
  qed
  ultimately show ?thesis by blast
qed

lemma min_size:
  assumes "0 <s z" "0 <s y"
  shows "nat (sint (if z <s y then z else y)) = min (unat z) (unat (y :: c_int))"
proof -
  have "sint z = int (unat z)" "sint y = int (unat y)" using pos_size assms by blast+
  then show ?thesis unfolding word_sless_alt by (cases "unat z < unat y") (simp_all only: of_nat_less_iff if_True if_False nat_int min_def, simp_all)
qed

text \<open>A request to resize is carried out, and then judged by the comparison of the bytes.\<close>

lemma valid_realloc_run:
  assumes S: "sound d L A" and z: "room (d_heap d) z" "0 <s z" and i: "unat i \<in> L" "0 \<le>s i"
  obtains d' d'' A' where
    "valid_realloc (mm_pkg ub) i z d = (if unat i mod 256 < 128 then Some (Fine, d') else Some (Bad, malloc_error d''))"
    "sound d' L A'" "after (max 144 (unat z + 15)) d d'" "d_errors d'' = d_errors d" "settled d d''"
proof -
  note I = S [unfolded sound_def]
  let ?t = "d_trace d" and ?L = "L - {unat i}"
  let ?p = "blocks ?t ! unat i" and ?y = "block_sizes ?t ! unat i"
  have J: "unat i < length (blocks ?t)" "unat i < length (block_sizes ?t)" "0 <s ?y"
    using shadowD [OF _ i(1), of filled ?t A] I by simp_all
  obtain os where "A ?p = Some os" "length os = unat ?y" "filled (unat i) os" using shadowE [OF _ i(1), of filled ?t A] I by blast
  then have J4: "A ?p = Some (replicate (unat ?y) (fill_byte i))" by (simp add: filled_def)
  let ?A = "A(?p := None)"
  have "1 \<le> unat z" using pos_size [OF z(2)] by simp
  then obtain q s where m: "mm_realloc ub ?p z (d_heap d) = Some (q, s)" "q = ?p \<or> A q = None" "q \<noteq> NULL"
      "refines s (?A(q \<mapsto> take (unat z) (replicate (unat ?y) (fill_byte i)) @ drop (unat ?y) (contents s q (unat z))))"
      "same_area (d_heap d) s"
    using refines_realloc [of "d_heap d" A ?p "replicate (unat ?y) (fill_byte i)" z ub] I z J4 by (metis length_replicate)
  let ?bs = "take (unat z) (replicate (unat ?y) (fill_byte i)) @ drop (unat ?y) (contents s q (unat z))"
  let ?d = "d\<lparr>d_heap := s, d_ranges := remove_range ?p (d_ranges d)\<rparr>"
  have l: "length ?bs = unat z" by (simp add: contents_def)
  have r: "refines (d_heap ?d) (?A(q \<mapsto> ?bs))" "shadow filled (d_trace ?d) ?L ?A"
      "ranges_ok (d_trace ?d) ?L (d_ranges ?d)" "8 dvd lo (d_heap ?d)" "d_mem ?d"
    using m(4,5) I shadow_remove [of filled ?t L A "unat i"] ranges_remove [of filled ?t L A "d_ranges d" "unat i"] i(1)
    by (simp_all add: same_area_def lo_def)
  have none: "?A q = None" using m(2) by auto
  let ?e = "?d\<lparr>d_ranges := extent q z # d_ranges ?d\<rparr>"
  have add: "add_range q z ?d = (Fine, ?e)" by (rule add_range_ok [OF r(1) none l z(2) r(2-5)])
  have i': "unat i \<notin> ?L" "unat i < length (blocks (d_trace ?d))" "unat i < length (block_sizes (d_trace ?d))"
    using J by simp_all
  obtain s' t where p: "memset_loop (unat q) (fill_byte i) (unat z) (d_heap ?d) = Some s'" "remember i q z (d_trace ?d) = Some t"
      "sound (?e\<lparr>d_heap := s', d_trace := t\<rparr>) (insert (unat i) ?L) (?A(q \<mapsto> replicate (unat z) (fill_byte i)))"
      "same_area (d_heap ?d) s'" "mem_brk s' = mem_brk (d_heap ?d)"
      "length (blocks t) = length (blocks (d_trace ?d))" "length (block_sizes t) = length (block_sizes (d_trace ?d))"
      "ops t = ops (d_trace ?d)" "num_ops t = num_ops (d_trace ?d)"
    by (rule place [OF r(1) none l z(2) r(2-5) i' i(2)])
  have el: "elem (blocks ?t) i = Some ?p" "elem (block_sizes ?t) i = Some ?y" using J i(2) by (simp_all add: elem_def)
  have "load8 (unat q + j) s = Some (fill_byte i)" if "j < min (unat z) (unat ?y)" for j
    using refines_byte [OF m(4), of q ?bs j] l that by (simp add: nth_append)
  note sf' = this
  have y: "1 \<le> unat ?y" using pos_size [OF J(3)] by simp
  from same_fill_eq [of "min (unat z) (unat ?y)" "unat q" s, OF sf']
  have sf: "same_fill (unat q) (i AND 0xFF) (min (unat z) (unat ?y)) s = Some (unat i mod 256 < 128)"
    using fill_signed [of i] \<open>1 \<le> unat z\<close> y by (simp add: min_def)
  have "valid_realloc (mm_pkg ub) i z d =
      (if unat i mod 256 < 128 then Some (Fine, ?e\<lparr>d_heap := s', d_trace := t\<rparr>) else Some (Bad, malloc_error ?e))"
    using m(1,3) add el sf p(1,2) min_size [OF z(2) J(3)]
    by (simp add: valid_realloc_def fill_byte_def)
  moreover have "sound (?e\<lparr>d_heap := s', d_trace := t\<rparr>) L (?A(q \<mapsto> replicate (unat z) (fill_byte i)))"
    using p(3) i(1) by (simp add: insert_absorb del: fun_upd_apply)
  moreover have "after (max 144 (unat z + 15)) d (?e\<lparr>d_heap := s', d_trace := t\<rparr>)"
    using upD [OF up_realloc [OF z(1)] m(1)] p(4-9) same_area_trans [OF m(5)] by (simp add: after_def settled_def)
  moreover have "settled d ?e" using m(5) by (simp add: settled_def)
  ultimately show ?thesis by (intro that [of _ ?e]) simp_all
qed

lemma valid_free_ok:
  assumes S: "sound d L A" and i: "unat i \<in> L" "0 \<le>s i"
  obtains d' A' where "valid_free (mm_pkg ub) i d = Some (Fine, d')" "sound d' (L - {unat i}) A'" "after 0 d d'"
proof -
  note I = S [unfolded sound_def]
  let ?t = "d_trace d" and ?p = "blocks (d_trace d) ! unat i"
  have J: "unat i < length (blocks ?t)" "A ?p \<noteq> None" using shadowD [OF _ i(1), of filled ?t A] I by simp_all
  obtain s where m: "mm_free ub ?p (d_heap d) = Some s" "refines s (A(?p := None))" "same_area (d_heap d) s"
    using refines_free [of "d_heap d" A ?p ub] J(2) I by blast
  let ?d = "d\<lparr>d_ranges := remove_range ?p (d_ranges d), d_heap := s\<rparr>"
  have b: "mem_brk s = mem_brk (d_heap d)" using stayD [OF stay_free m(1)] by simp
  have "elem (blocks ?t) i = Some ?p" using J(1) i(2) by (simp add: elem_def)
  then have "valid_free (mm_pkg ub) i d = Some (Fine, ?d)" using m(1) by (simp add: valid_free_def)
  moreover have "sound ?d (L - {unat i}) (A(?p := None))"
    using m I shadow_remove [of filled ?t L A "unat i"] ranges_remove [of filled ?t L A "d_ranges d" "unat i"] i(1)
    by (simp add: sound_def same_area_def lo_def del: fun_upd_apply)
  moreover have "after 0 d ?d" using m(3) b by (simp add: after_def settled_def)
  ultimately show ?thesis by (rule that)
qed

subsection \<open>Whole traces\<close>

text \<open>The requests the comparison of signed characters gets wrong.\<close>

definition high_realloc :: "traceop_t \<Rightarrow> bool" where
  "high_realloc r \<longleftrightarrow> op_type r = REALLOC \<and> 128 \<le> unat (op_index r) mod 256"

definition verdict :: "traceop_t list \<Rightarrow> outcome" where
  "verdict rs = (if \<exists>r\<in>set rs. high_realloc r then Bad else Fine)"

text \<open>The memory of \<open>memlib.c\<close>, its arena aligned as libc's \<open>malloc\<close> aligns it.\<close>

definition arena :: "heap \<Rightarrow> bool" where
  "arena s \<longleftrightarrow> 0 < lo s \<and> 8 dvd lo s \<and> unat (mem_max_addr s) = lo s + 20971520"

definition trace_ok :: "trace_t \<Rightarrow> bool" where
  "trace_ok t \<longleftrightarrow> length (blocks t) = length (block_sizes t) \<and> length (blocks t) < 2147483648 \<and>
     wf_ops (length (blocks t)) {} (requests t) \<and> 32 + need (requests t) \<le> 20971520"

lemma roomI: "unat (mem_brk s) + max 144 (unat z + 15) \<le> unat (mem_max_addr s) \<Longrightarrow> unat z + 15 \<le> 20971520 \<Longrightarrow> room s z"
  by (simp add: room_def)

lemma valid_ops_run:
  assumes "sound d L A" "wf_ops n L rs" "length (blocks (d_trace d)) = n" "length (block_sizes (d_trace d)) = n"
    "n < 2147483648" "need rs \<le> 20971520" "unat (mem_brk (d_heap d)) + need rs \<le> unat (mem_max_addr (d_heap d))"
  shows "\<exists>d'. valid_ops (mm_pkg ub) rs d = Some (verdict rs, d') \<and>
    d_errors d' = d_errors d + (if verdict rs = Fine then 0 else 1) \<and> settled d d'"
  using assms
proof (induction rs arbitrary: d L A)
  case Nil
  then show ?case by (simp add: verdict_def)
next
  case (Cons r rs)
  let ?i = "op_index r" and ?z = "op_size r"
  have n: "unat ?i < n" using Cons.prems(2) by (simp add: Let_def)
  then have i: "0 \<le>s ?i" using index_ok Cons.prems(5) by blast
  have go: "\<exists>d'. valid_ops (mm_pkg ub) (r # rs) d = Some (verdict (r # rs), d') \<and>
      d_errors d' = d_errors d + (if verdict (r # rs) = Fine then 0 else 1) \<and> settled d d'"
    if e: "valid_op (mm_pkg ub) r d = Some (Fine, e)" and S: "sound e L' A'" "wf_ops n L' rs" and a: "after k d e"
      and k: "need (r # rs) = k + need rs" and h: "\<not> high_realloc r" for e L' A' k
  proof -
    note D = afterD [OF a]
    have m: "length (blocks (d_trace e)) = n" "length (block_sizes (d_trace e)) = n" "need rs \<le> 20971520"
      "unat (mem_brk (d_heap e)) + need rs \<le> unat (mem_max_addr (d_heap e))"
      using D(2-5) Cons.prems(3,4,6,7) k by simp_all
    have "verdict (r # rs) = verdict rs" using h by (simp add: verdict_def)
    then show ?thesis using Cons.IH [OF S m(1,2) Cons.prems(5) m(3,4)] e D(1) settled_trans [OF D(6)] by auto
  qed
  show ?case
  proof (cases "op_type r")
    case ALLOC
    then have w: "unat ?i \<notin> L" "0 <s ?z" "wf_ops n (insert (unat ?i) L) rs" and
      k: "need (r # rs) = max 144 (unat ?z + 15) + need rs"
      using Cons.prems(2) by (simp_all add: Let_def)
    have "room (d_heap d) ?z" using Cons.prems(6,7) k by (intro roomI) simp_all
    then obtain e A' where e: "valid_alloc (mm_pkg ub) ?i ?z d = Some (Fine, e)" "sound e (insert (unat ?i) L) A'"
        "after (max 144 (unat ?z + 15)) d e"
      using valid_alloc_ok [OF Cons.prems(1) _ w(2,1) _ _ i] n Cons.prems(3,4) by metis
    show ?thesis by (rule go [OF _ e(2) w(3) e(3) k]) (simp_all add: ALLOC e(1) high_realloc_def)
  next
    case FREE
    then have w: "unat ?i \<in> L" "wf_ops n (L - {unat ?i}) rs" and k: "need (r # rs) = 0 + need rs"
      using Cons.prems(2) by (simp_all add: Let_def)
    obtain e A' where e: "valid_free (mm_pkg ub) ?i d = Some (Fine, e)" "sound e (L - {unat ?i}) A'" "after 0 d e"
      by (rule valid_free_ok [OF Cons.prems(1) w(1) i])
    show ?thesis by (rule go [OF _ e(2) w(2) e(3) k]) (simp_all add: FREE e(1) high_realloc_def)
  next
    case REALLOC
    then have w: "unat ?i \<in> L" "0 <s ?z" "wf_ops n L rs" and k: "need (r # rs) = max 144 (unat ?z + 15) + need rs"
      using Cons.prems(2) by (simp_all add: Let_def)
    have "room (d_heap d) ?z" using Cons.prems(6,7) k by (intro roomI) simp_all
    then obtain e e' A' where e: "valid_realloc (mm_pkg ub) ?i ?z d =
          (if unat ?i mod 256 < 128 then Some (Fine, e) else Some (Bad, malloc_error e'))"
        "sound e L A'" "after (max 144 (unat ?z + 15)) d e" "d_errors e' = d_errors d" "settled d e'"
      by (rule valid_realloc_run [OF Cons.prems(1) _ w(2,1) i])
    show ?thesis
    proof (cases "unat ?i mod 256 < 128")
      case True
      show ?thesis by (rule go [OF _ e(2) w(3) e(3) k]) (use True in \<open>simp_all add: REALLOC e(1) high_realloc_def\<close>)
    next
      case False
      then have "verdict (r # rs) = Bad" by (simp add: verdict_def high_realloc_def REALLOC)
      then show ?thesis using False e(1,4,5) by (auto simp: REALLOC settled_def malloc_error_def)
    qed
  qed
qed

lemma start_ok:
  assumes "arena s" "mem_brk s = mem_start_brk s"
  obtains t where "mm_init s = Some t" "refines t Map.empty" "same_area s t" "unat (mem_brk t) = lo s + 32"
proof -
  have "fresh s" using assms by (simp add: fresh_def arena_def)
  then show ?thesis using mm_init_inv [of s] that by (force simp: refines_def covers_def same_area_def)
qed

lemma eval_mm_valid_run:
  assumes "arena (d_heap d)" "d_mem d" "trace_ok (d_trace d)"
  shows "\<exists>d'. eval_mm_valid (mm_pkg ub) d = Some (verdict (requests (d_trace d)), d') \<and>
    d_errors d' = d_errors d + (if verdict (requests (d_trace d)) = Fine then 0 else 1) \<and> settled d d'"
proof -
  let ?s = "mem_reset_brk (d_heap d)" and ?rs = "requests (d_trace d)" and ?n = "length (blocks (d_trace d))"
  have a: "arena ?s" "mem_brk ?s = mem_start_brk ?s" "lo ?s = lo (d_heap d)" "mem_max_addr ?s = mem_max_addr (d_heap d)"
    using assms(1) by (simp_all add: arena_def mem_reset_brk_def lo_def)
  obtain t where t: "mm_init ?s = Some t" "refines t Map.empty" "same_area ?s t" "unat (mem_brk t) = lo ?s + 32"
    by (rule start_ok [OF a(1,2)])
  let ?d = "(clear_ranges (d\<lparr>d_heap := ?s\<rparr>))\<lparr>d_heap := t\<rparr>"
  have "sound ?d {} Map.empty"
    using t(2,3) a(3) assms(1,2) by (simp add: sound_def shadow_def ranges_ok_def clear_ranges_def same_area_def lo_def arena_def)
  moreover have "wf_ops ?n {} ?rs" "need ?rs \<le> 20971520" "?n < 2147483648" "length (block_sizes (d_trace d)) = ?n"
    using assms(3) [unfolded trace_ok_def] by (blast, linarith, blast, metis)
  moreover have "unat (mem_brk t) + need ?rs \<le> unat (mem_max_addr t)"
    using t(3,4) a assms(1,3) by (simp add: trace_ok_def same_area_def arena_def)
  ultimately have "\<exists>d'. valid_ops (mm_pkg ub) ?rs ?d = Some (verdict ?rs, d') \<and>
      d_errors d' = d_errors ?d + (if verdict ?rs = Fine then 0 else 1) \<and> settled ?d d'"
    by (intro valid_ops_run [of ?d "{}" Map.empty ?n]) (simp_all add: clear_ranges_def)
  moreover have "settled d ?d" using t(3) a by (simp add: settled_def clear_ranges_def same_area_def mem_reset_brk_def)
  ultimately show ?thesis using t(1) settled_trans [of d ?d] by (auto simp: eval_mm_valid_def clear_ranges_def Let_def)
qed

text \<open>C14: on every well-formed trace that can fit into the heap, whatever the
  memory held, the driver finds the allocator of \<open>mm.c\<close> valid and counts no error, unless the trace
  resizes a block whose index has a low byte of 128 or more: then the comparison of the signed
  characters fails although the data were preserved, and the driver reports an error.\<close>

theorem eval_mm_valid_correct:
  assumes "arena (d_heap d)" "d_mem d" "trace_ok (d_trace d)"
  shows "\<exists>d'. eval_mm_valid (mm_pkg ub) d = Some (verdict (requests (d_trace d)), d') \<and>
    d_errors d' = d_errors d + (if verdict (requests (d_trace d)) = Fine then 0 else 1)"
  using eval_mm_valid_run [OF assms] by blast

text \<open>A trace that resizes the block of index 128.\<close>

definition resize128 :: trace_t where
  "resize128 = \<lparr>sugg_heapsize = 20000, num_ids = 129, num_ops = 2, weight = 1,
     ops = [\<lparr>op_type = ALLOC, op_index = 128, op_size = 10\<rparr>, \<lparr>op_type = REALLOC, op_index = 128, op_size = 20\<rparr>],
     blocks = replicate 129 0, block_sizes = replicate 129 0\<rparr>"

definition driver0 :: "trace_t \<Rightarrow> driver" where
  "driver0 t = \<lparr>d_heap = \<lparr>mem_start_brk = 64, mem_brk = 64, mem_max_addr = 64 + MAX_HEAP, mem_bytes = (\<lambda>_. 0)\<rparr>,
     d_trace = t, d_ranges = [], d_errors = 0, d_mem = True\<rparr>"

lemma driver0_ok: "arena (d_heap (driver0 t))" "d_mem (driver0 t)" "d_trace (driver0 t) = t" "d_errors (driver0 t) = 0"
  by (simp_all add: driver0_def arena_def lo_def MAX_HEAP_def)

lemma short1_ok: "trace_ok short1" "verdict (requests short1) = Fine"
  by (simp_all add: trace_ok_def short1_def requests_def verdict_def high_realloc_def word_sless_alt)

lemma resize128_ok: "trace_ok resize128" "verdict (requests resize128) = Bad"
  by (simp_all add: trace_ok_def resize128_def requests_def verdict_def high_realloc_def word_sless_alt)

theorem eval_mm_valid_correct_witness:
  "(\<exists>d'. eval_mm_valid (mm_pkg True) (driver0 short1) = Some (Fine, d') \<and> d_errors d' = 0) \<and>
    (\<exists>d'. eval_mm_valid (mm_pkg True) (driver0 resize128) = Some (Bad, d') \<and> d_errors d' = 1)"
  using eval_mm_valid_correct [of "driver0 short1" True] eval_mm_valid_correct [of "driver0 resize128" True]
    driver0_ok short1_ok resize128_ok by simp

subsection \<open>Utilisation\<close>

abbreviation any :: "nat \<Rightarrow> byte list \<Rightarrow> bool" where
  "any i bs \<equiv> True"

definition live :: "trace_t \<Rightarrow> nat set \<Rightarrow> nat" where
  "live t L = (\<Sum>i\<in>L. unat (block_sizes t ! i))"

lemma shadow_finite: "shadow P t L A \<Longrightarrow> finite L"
  by (rule finite_subset [of L "{..<length (blocks t)}"]) (auto dest: shadowD(1))

text \<open>The blocks lie side by side in the heap, so their sizes add up to less than the heap's.\<close>

lemma live_bound:
  assumes R: "refines s A" and I: "shadow P t L A" "L \<noteq> {}"
  shows "lo s + live t L \<le> unat (mem_brk s)"
proof -
  let ?p = "\<lambda>i. unat (blocks t ! i)" and ?z = "\<lambda>i. unat (block_sizes t ! i)"
  let ?S = "\<lambda>i. {?p i ..< ?p i + ?z i}"
  have B: "lo s \<le> ?p i \<and> ?p i + ?z i \<le> unat (mem_brk s)" if i: "i \<in> L" for i
  proof -
    obtain bs where b: "A (blocks t ! i) = Some bs" "length bs = ?z i" by (rule shadowE [OF I(1) i])
    show ?thesis using refines_block(1,2) [OF R b(1)] b(2) by linarith
  qed
  have D: "?S i \<inter> ?S j = {}" if i: "i \<in> L" and j: "j \<in> L" and ne: "i \<noteq> j" for i j
  proof -
    obtain bs where b: "A (blocks t ! i) = Some bs" "length bs = ?z i" by (rule shadowE [OF I(1) i])
    obtain cs where c: "A (blocks t ! j) = Some cs" "length cs = ?z j" by (rule shadowE [OF I(1) j])
    have "blocks t ! i \<noteq> blocks t ! j" using I(1) i j ne by (auto simp: shadow_def inj_on_def)
    from refines_disjoint [OF R b(1) c(1) this] show ?thesis using b(2) c(2) by auto
  qed
  have "live t L = card (\<Union>i\<in>L. ?S i)"
    using card_UN_disjoint [OF shadow_finite [OF I(1)], of ?S] D by (simp add: live_def)
  also have "\<dots> \<le> card {lo s ..< unat (mem_brk s)}" using B by (intro card_mono) fastforce+
  finally have "live t L \<le> unat (mem_brk s) - lo s" by simp
  moreover have "lo s \<le> unat (mem_brk s)" using B I(2) by fastforce
  ultimately show ?thesis by simp
qed

lemma live_insert: "finite L \<Longrightarrow> i \<notin> L \<Longrightarrow> i < length (block_sizes t) \<Longrightarrow>
    live (t\<lparr>blocks := xs, block_sizes := (block_sizes t)[i := z]\<rparr>) (insert i L) = live t L + unat z"
  unfolding live_def by (auto intro!: sum.cong simp: nth_list_update)

lemma live_remove: "finite L \<Longrightarrow> i \<in> L \<Longrightarrow> live t L = live t (L - {i}) + unat (block_sizes t ! i)"
  unfolding live_def by (subst sum.remove [of L i]) simp_all

text \<open>The state of the loop: the sum is the one of the live blocks, and neither it nor the maximum
  is above the size of the heap.\<close>

definition usound :: "util_state \<Rightarrow> nat set \<Rightarrow> store \<Rightarrow> bool" where
  "usound = (\<lambda>(tot, m, d) L A. refines (d_heap d) A \<and> shadow any (d_trace d) L A \<and> arena (d_heap d) \<and>
     tot = of_nat (live (d_trace d) L) \<and> lo (d_heap d) + unat m \<le> unat (mem_brk (d_heap d)) \<and>
     lo (d_heap d) + 32 \<le> unat (mem_brk (d_heap d)) \<and> unat (mem_brk (d_heap d)) \<le> unat (mem_max_addr (d_heap d)))"

lemma usoundI:
  assumes R: "refines s A" "shadow any t L A" and S: "same_area (d_heap d) s" "arena (d_heap d)"
    and B: "unat (mem_brk (d_heap d)) \<le> unat (mem_brk s)" "unat (mem_brk s) \<le> unat (mem_max_addr s)"
      "lo (d_heap d) + 32 \<le> unat (mem_brk (d_heap d))" "lo (d_heap d) + unat m \<le> unat (mem_brk (d_heap d))"
    and x: "x = m \<or> x = c_max (of_nat (live t L)) m" and e: "d_heap e = s" "d_trace e = t"
    and tot: "tot = of_nat (live t L)"
  shows "usound (tot, x, e) L A"
proof -
  have l: "lo s = lo (d_heap d)" "arena s" using S by (simp_all add: same_area_def lo_def arena_def)
  have L: "lo s + live t L \<le> unat (mem_brk s)"
  proof (cases "L = {}")
    case True
    then show ?thesis using B l(1) by (simp add: live_def)
  next
    case False
    then show ?thesis by (rule live_bound [OF R])
  qed
  have top: "unat (mem_brk s) \<le> lo s + 20971520" using B(2) l(2) by (simp add: arena_def)
  have "unat (of_nat (live t L) :: c_int) = live t L"
    using L top by (simp add: unat_of_nat take_bit_nat_eq_self)
  then have "unat (c_max (of_nat (live t L)) m) \<le> max (live t L) (unat m)" by (simp add: c_max_def)
  then have "lo s + unat x \<le> unat (mem_brk s)" using x L B(1,4) l(1) by auto
  then show ?thesis using R l B S(1) e tot by (simp add: usound_def same_area_def)
qed

lemma util_alloc_ok:
  assumes U: "usound (tot, m, d) L A" and z: "room (d_heap d) z" "0 <s z"
    and i: "unat i \<notin> L" "unat i < length (blocks (d_trace d))" "unat i < length (block_sizes (d_trace d))" "0 \<le>s i"
  obtains tot' m' d' A' where "util_alloc (mm_pkg ub) i z (tot, m, d) = Some (Fine, (tot', m', d'))"
    "usound (tot', m', d') (insert (unat i) L) A'" "after (max 144 (unat z + 15)) d d'"
proof -
  note I = U [unfolded usound_def case_prod_conv]
  let ?t = "d_trace d"
  have "1 \<le> unat z" using pos_size [OF z(2)] by simp
  then obtain q s where r: "mm_malloc ub z (d_heap d) = Some (q, s)" "A q = None" "q \<noteq> NULL"
      "refines s (A(q \<mapsto> contents s q (unat z)))" "same_area (d_heap d) s"
    using refines_malloc [of "d_heap d" A z ub] I z by metis
  let ?t' = "?t\<lparr>blocks := (blocks ?t)[unat i := q], block_sizes := (block_sizes ?t)[unat i := z]\<rparr>"
  let ?L = "insert (unat i) L" and ?A = "A(q \<mapsto> contents s q (unat z))"
  have sh: "shadow any ?t' ?L ?A"
    using shadow_insert [of any ?t L A "unat i" q z "contents s q (unat z)"] I i r(2) z(2) by (simp add: contents_def)
  have lv: "live ?t' ?L = live ?t L + unat z" using live_insert [OF shadow_finite i(1,3)] I by blast
  have g: "unat (mem_brk (d_heap d)) \<le> unat (mem_brk s)" "unat (mem_brk s) \<le> unat (mem_brk (d_heap d)) + max 144 (unat z + 15)"
    using upD [OF up_malloc [OF z(1)] r(1)] by simp_all
  have top: "unat (mem_brk s) \<le> unat (mem_max_addr s)" using refines_block(4) [OF r(4), of q] by simp
  let ?d = "d\<lparr>d_heap := s, d_trace := ?t'\<rparr>"
  have tot: "tot + z = of_nat (live ?t' ?L)" using I lv by simp
  have "usound (tot + z, c_max (tot + z) m, ?d) ?L ?A"
    using usoundI [OF r(4) sh r(5) _ g(1) top, of m "c_max (tot + z) m" ?d "tot + z"] I tot by simp
  moreover have "util_alloc (mm_pkg ub) i z (tot, m, d) = Some (Fine, (tot + z, c_max (tot + z) m, ?d))"
    using r(1,3) i by (simp add: util_alloc_def remember_def put_def Let_def)
  moreover have "after (max 144 (unat z + 15)) d ?d" using g r(5) by (simp add: after_def settled_def)
  ultimately show ?thesis using that by blast
qed

lemma util_realloc_ok:
  assumes U: "usound (tot, m, d) L A" and z: "room (d_heap d) z" "0 <s z" and i: "unat i \<in> L" "0 \<le>s i"
  obtains tot' m' d' A' where "util_realloc (mm_pkg ub) i z (tot, m, d) = Some (Fine, (tot', m', d'))"
    "usound (tot', m', d') L A'" "after (max 144 (unat z + 15)) d d'"
proof -
  note I = U [unfolded usound_def case_prod_conv]
  let ?t = "d_trace d" and ?L = "L - {unat i}"
  let ?p = "blocks ?t ! unat i" and ?y = "block_sizes ?t ! unat i"
  have J: "unat i < length (blocks ?t)" "unat i < length (block_sizes ?t)"
    using shadowD [OF _ i(1), of any ?t A] I by simp_all
  obtain bs where bs: "A ?p = Some bs" using shadowD(4) [OF _ i(1), of any ?t A] I by blast
  let ?A = "A(?p := None)"
  have "1 \<le> unat z" using pos_size [OF z(2)] by simp
  then obtain q s where r: "mm_realloc ub ?p z (d_heap d) = Some (q, s)" "q = ?p \<or> A q = None" "q \<noteq> NULL"
      "refines s (?A(q \<mapsto> take (unat z) bs @ drop (length bs) (contents s q (unat z))))" "same_area (d_heap d) s"
    using refines_realloc [of "d_heap d" A ?p bs z ub] I z bs by metis
  let ?bs = "take (unat z) bs @ drop (length bs) (contents s q (unat z))"
  let ?t' = "?t\<lparr>blocks := (blocks ?t)[unat i := q], block_sizes := (block_sizes ?t)[unat i := z]\<rparr>"
  have l: "length ?bs = unat z" by (simp add: contents_def)
  have sr: "shadow any ?t ?L ?A" using shadow_remove [of any ?t L A "unat i"] I i(1) by simp
  have "shadow any ?t' (insert (unat i) ?L) (?A(q \<mapsto> ?bs))"
    by (rule shadow_insert [OF sr _ _ J z(2) l]) (use r(2) in auto)
  then have sh: "shadow any ?t' L (?A(q \<mapsto> ?bs))" using i(1) by (simp add: insert_absorb)
  have f: "finite L" using shadow_finite I by blast
  have "live ?t' (insert (unat i) ?L) = live ?t ?L + unat z" by (rule live_insert [OF _ _ J(2)]) (use f in simp_all)
  then have lv: "live ?t' L + unat ?y = live ?t L + unat z"
    using live_remove [OF f i(1), of ?t] i(1) by (simp add: insert_absorb)
  have g: "unat (mem_brk (d_heap d)) \<le> unat (mem_brk s)" "unat (mem_brk s) \<le> unat (mem_brk (d_heap d)) + max 144 (unat z + 15)"
    using upD [OF up_realloc [OF z(1)] r(1)] by simp_all
  have top: "unat (mem_brk s) \<le> unat (mem_max_addr s)" using refines_block(4) [OF r(4), of q] by simp
  let ?d = "d\<lparr>d_heap := s, d_trace := ?t'\<rparr>"
  have "of_nat (live ?t' L) + ?y = tot + z" using arg_cong [OF lv, of "of_nat :: nat \<Rightarrow> c_int"] I by simp
  then have tot: "tot + (z - ?y) = of_nat (live ?t' L)" by (simp add: algebra_simps eq_diff_eq)
  have "usound (tot + (z - ?y), c_max (tot + (z - ?y)) m, ?d) L (?A(q \<mapsto> ?bs))"
    by (rule usoundI [OF r(4) sh r(5) _ g(1) top, where m = m]) (use I tot in simp_all)
  moreover have "util_realloc (mm_pkg ub) i z (tot, m, d) = Some (Fine, (tot + (z - ?y), c_max (tot + (z - ?y)) m, ?d))"
    using r(1,3) i J by (simp add: util_realloc_def remember_def put_def elem_def Let_def)
  moreover have "after (max 144 (unat z + 15)) d ?d" using g r(5) by (simp add: after_def settled_def)
  ultimately show ?thesis using that by blast
qed

lemma util_free_ok:
  assumes U: "usound (tot, m, d) L A" and i: "unat i \<in> L" "0 \<le>s i"
  obtains tot' m' d' A' where "util_free (mm_pkg ub) i (tot, m, d) = Some (Fine, (tot', m', d'))"
    "usound (tot', m', d') (L - {unat i}) A'" "after 0 d d'"
proof -
  note I = U [unfolded usound_def case_prod_conv]
  let ?t = "d_trace d" and ?L = "L - {unat i}"
  let ?p = "blocks ?t ! unat i" and ?y = "block_sizes ?t ! unat i"
  have J: "unat i < length (blocks ?t)" "unat i < length (block_sizes ?t)" "A ?p \<noteq> None"
    using shadowD [OF _ i(1), of any ?t A] I by simp_all
  obtain s where r: "mm_free ub ?p (d_heap d) = Some s" "refines s (A(?p := None))" "same_area (d_heap d) s"
    using refines_free [of "d_heap d" A ?p ub] J(3) I by blast
  have b: "mem_brk s = mem_brk (d_heap d)" using stayD [OF stay_free r(1)] by simp
  have sh: "shadow any ?t ?L (A(?p := None))" using shadow_remove [of any ?t L A "unat i"] I i(1) by simp
  let ?d = "d\<lparr>d_heap := s\<rparr>"
  have "of_nat (live ?t L) = (of_nat (live ?t ?L) + ?y :: c_int)"
    using live_remove [OF _ i(1), of ?t] shadow_finite I by (metis of_nat_add of_nat_unat ucast_id)
  then have tot: "tot - ?y = of_nat (live ?t ?L)" using I by simp
  have "usound (tot - ?y, m, ?d) ?L (A(?p := None))"
    by (rule usoundI [OF r(2) sh r(3), where m = m]) (use I tot b r(3) in \<open>simp_all add: same_area_def\<close>)
  moreover have "util_free (mm_pkg ub) i (tot, m, d) = Some (Fine, (tot - ?y, m, ?d))"
    using r(1) i J by (simp add: util_free_def elem_def)
  moreover have "after 0 d ?d" using r(3) b by (simp add: after_def settled_def)
  ultimately show ?thesis using that by blast
qed

lemma util_ops_run:
  assumes "usound (tot, m, d) L A" "wf_ops n L rs" "length (blocks (d_trace d)) = n" "length (block_sizes (d_trace d)) = n"
    "n < 2147483648" "need rs \<le> 20971520" "unat (mem_brk (d_heap d)) + need rs \<le> unat (mem_max_addr (d_heap d))"
  shows "\<exists>tot' m' d' L' A'. util_ops (mm_pkg ub) rs (tot, m, d) = Some (Fine, (tot', m', d')) \<and> usound (tot', m', d') L' A' \<and> settled d d' \<and> d_errors d' = d_errors d"
  using assms
proof (induction rs arbitrary: tot m d L A)
  case Nil
  then show ?case by auto
next
  case (Cons r rs)
  let ?i = "op_index r" and ?z = "op_size r"
  have n: "unat ?i < n" using Cons.prems(2) by (simp add: Let_def)
  then have i: "0 \<le>s ?i" using index_ok Cons.prems(5) by blast
  have go: "\<exists>tot' m' d' L' A'. util_ops (mm_pkg ub) (r # rs) (tot, m, d) = Some (Fine, (tot', m', d')) \<and>
      usound (tot', m', d') L' A' \<and> settled d d' \<and> d_errors d' = d_errors d"
    if e: "util_op (mm_pkg ub) r (tot, m, d) = Some (Fine, (tot2, m2, e))" and S: "usound (tot2, m2, e) L2 A2" "wf_ops n L2 rs"
      and a: "after k d e" and k: "need (r # rs) = k + need rs" for tot2 m2 e L2 A2 k
  proof -
    note D = afterD [OF a]
    have p: "length (blocks (d_trace e)) = n" "length (block_sizes (d_trace e)) = n" "need rs \<le> 20971520"
      "unat (mem_brk (d_heap e)) + need rs \<le> unat (mem_max_addr (d_heap e))"
      using D(2-5) Cons.prems(3,4,6,7) k by simp_all
    show ?thesis using Cons.IH [OF S p(1,2) Cons.prems(5) p(3,4)] e settled_trans [OF D(6)] D(1) by fastforce
  qed
  show ?case
  proof (cases "op_type r")
    case ALLOC
    then have w: "unat ?i \<notin> L" "0 <s ?z" "wf_ops n (insert (unat ?i) L) rs" and
      k: "need (r # rs) = max 144 (unat ?z + 15) + need rs"
      using Cons.prems(2) by (simp_all add: Let_def)
    have "room (d_heap d) ?z" using Cons.prems(6,7) k by (intro roomI) simp_all
    then obtain t2 m2 e A' where e: "util_alloc (mm_pkg ub) ?i ?z (tot, m, d) = Some (Fine, (t2, m2, e))"
        "usound (t2, m2, e) (insert (unat ?i) L) A'" "after (max 144 (unat ?z + 15)) d e"
      using util_alloc_ok [OF Cons.prems(1) _ w(2,1) _ _ i] n Cons.prems(3,4) by metis
    show ?thesis by (rule go [OF _ e(2) w(3) e(3) k]) (simp add: ALLOC e(1))
  next
    case FREE
    then have w: "unat ?i \<in> L" "wf_ops n (L - {unat ?i}) rs" and k: "need (r # rs) = 0 + need rs"
      using Cons.prems(2) by (simp_all add: Let_def)
    obtain t2 m2 e A' where e: "util_free (mm_pkg ub) ?i (tot, m, d) = Some (Fine, (t2, m2, e))"
        "usound (t2, m2, e) (L - {unat ?i}) A'" "after 0 d e"
      by (rule util_free_ok [OF Cons.prems(1) w(1) i])
    show ?thesis by (rule go [OF _ e(2) w(2) e(3) k]) (simp add: FREE e(1))
  next
    case REALLOC
    then have w: "unat ?i \<in> L" "0 <s ?z" "wf_ops n L rs" and k: "need (r # rs) = max 144 (unat ?z + 15) + need rs"
      using Cons.prems(2) by (simp_all add: Let_def)
    have "room (d_heap d) ?z" using Cons.prems(6,7) k by (intro roomI) simp_all
    then obtain t2 m2 e A' where e: "util_realloc (mm_pkg ub) ?i ?z (tot, m, d) = Some (Fine, (t2, m2, e))"
        "usound (t2, m2, e) L A'" "after (max 144 (unat ?z + 15)) d e"
      by (rule util_realloc_ok [OF Cons.prems(1) _ w(2,1) i])
    show ?thesis by (rule go [OF _ e(2) w(3) e(3) k]) (simp add: REALLOC e(1))
  qed
qed

lemma eval_mm_util_run:
  assumes "arena (d_heap d)" "trace_ok (d_trace d)"
  shows "\<exists>u d'. eval_mm_util (mm_pkg ub) d = Some (Fine, u, d') \<and> 0 \<le> u \<and> u \<le> 1 \<and> settled d d' \<and> d_errors d' = d_errors d"
proof -
  let ?s = "mem_reset_brk (d_heap d)" and ?rs = "requests (d_trace d)" and ?n = "length (blocks (d_trace d))"
  have a: "arena ?s" "mem_brk ?s = mem_start_brk ?s" "lo ?s = lo (d_heap d)"
    using assms(1) by (simp_all add: arena_def mem_reset_brk_def lo_def)
  obtain t where t: "mm_init ?s = Some t" "refines t Map.empty" "same_area ?s t" "unat (mem_brk t) = lo ?s + 32"
    by (rule start_ok [OF a(1,2)])
  let ?d = "d\<lparr>d_heap := t\<rparr>"
  have at: "arena t" "lo t = lo ?s" using t(3) a(1) by (simp_all add: same_area_def arena_def lo_def)
  have "usound (0, 0, ?d) {} Map.empty"
    using t(2,4) at by (simp add: usound_def shadow_def live_def arena_def)
  moreover have "wf_ops ?n {} ?rs" "need ?rs \<le> 20971520" "?n < 2147483648" "length (block_sizes (d_trace d)) = ?n"
    using assms(2) [unfolded trace_ok_def] by (blast, linarith, blast, metis)
  moreover have "unat (mem_brk t) + need ?rs \<le> unat (mem_max_addr t)"
    using t(4) at assms(2) by (simp add: trace_ok_def arena_def)
  ultimately obtain tot m d' L A where r: "util_ops (mm_pkg ub) ?rs (0, 0, ?d) = Some (Fine, (tot, m, d'))" "usound (tot, m, d') L A" "settled ?d d'" "d_errors d' = d_errors d"
    using util_ops_run [of 0 0 ?d "{}" Map.empty ?n ?rs ub] by auto
  let ?h = "d_heap d'"
  have u: "lo ?h + unat m \<le> unat (mem_brk ?h)" "lo ?h + 32 \<le> unat (mem_brk ?h)" "unat (mem_brk ?h) \<le> lo ?h + 20971520"
    using r(2) by (simp_all add: usound_def arena_def)
  have "unat (mem_heapsize ?h) = unat (mem_brk ?h) - lo ?h"
    using u(2) by (simp add: mem_heapsize_def lo_def unat_sub_if')
  then have h: "unat m \<le> unat (mem_heapsize ?h)" "0 < unat (mem_heapsize ?h)" using u by simp_all
  have "sint m = int (unat m)"
  proof -
    have "\<not> sint m < 0" using sint_neg_unat [of m] u by linarith
    then have "(of_bool (sint m < 0) :: int) = 0" by simp
    then show ?thesis using sint32_eq [of m] uint_nat [of m] by linarith
  qed
  then have "real_of_int (sint m) = real (unat m)" by (simp only: of_int_of_nat_eq)
  moreover have "0 \<le> real x / real y \<and> real x / real y \<le> 1" if "x \<le> y" "0 < y" for x y :: nat
    using that by (simp add: divide_le_eq)
  ultimately have "0 \<le> real_of_int (sint m) / real (unat (mem_heapsize ?h)) \<and> real_of_int (sint m) / real (unat (mem_heapsize ?h)) \<le> 1"
    using h by (simp only:)
  moreover have "settled d ?d" using t(3) by (simp add: settled_def same_area_def mem_reset_brk_def)
  ultimately show ?thesis using t(1) r(1) settled_trans [OF _ r(3)] r(4) by (simp add: eval_mm_util_def Let_def)
qed

text \<open>The evaluation of the space utilisation runs the allocator of \<open>mm.c\<close>
  through every well-formed trace that can fit into the heap, and what it returns, the largest
  total of the live sizes over the size of the heap, lies between 0 and 1.\<close>

lemma eval_mm_util_bounds:
  assumes "arena (d_heap d)" "trace_ok (d_trace d)"
  shows "\<exists>u d'. eval_mm_util (mm_pkg ub) d = Some (Fine, u, d') \<and> 0 \<le> u \<and> u \<le> 1"
  using eval_mm_util_run [OF assms] by blast

lemma eval_mm_util_bounds_witness:
  "\<exists>u d'. eval_mm_util (mm_pkg False) (driver0 short1) = Some (Fine, u, d') \<and> 0 \<le> u \<and> u \<le> 1"
  using eval_mm_util_bounds [of "driver0 short1" False] driver0_ok short1_ok by simp

end
