(* ===== verification/DriverProps.thy ===== *)
theory DriverProps
  imports Driver MdriverProps
begin

text \<open>
  The program \<open>mdriver\<close> on the allocator of \<open>mm.c\<close>: with trace files in the right format it runs to
  its end, counts the traces it accepts, and computes an index between 0 and 100.
\<close>

subsection \<open>Traces read from files\<close>

text \<open>A trace whose file the driver can run: the header is right, the requests are well formed and fit.\<close>

definition file_ok :: "trace_t \<Rightarrow> bool" where
  "file_ok t \<longleftrightarrow> num_ops t = of_nat (length (ops t)) \<and> counts_fit t \<and> 0 <s num_ids t \<and>
     foldl top_index 0 (ops t) = num_ids t - 1 \<and> wf_ops (unat (num_ids t)) {} (ops t) \<and> 32 + need (ops t) \<le> 20971520"

lemma same_requestD:
  assumes "same_request r r'"
  shows "op_type r' = op_type r" "op_index r' = op_index r" "op_type r \<noteq> FREE \<Longrightarrow> op_size r' = op_size r"
  using assms by (auto simp: same_request_def)

lemma same_wf: "list_all2 same_request rs rs' \<Longrightarrow> wf_ops n L rs' = wf_ops n L rs"
proof (induction arbitrary: L rule: list_all2_induct)
  case (Cons r rs r' rs')
  then show ?case using same_requestD [OF Cons(1)] by (cases "op_type r") (simp_all add: Let_def)
qed simp

lemma same_need: "list_all2 same_request rs rs' \<Longrightarrow> need rs' = need rs"
proof (induction rule: list_all2_induct)
  case (Cons r rs r' rs')
  then show ?case using same_requestD [OF Cons(1)] by (cases "op_type r") simp_all
qed simp

lemma same_verdict: "list_all2 same_request rs rs' \<Longrightarrow> verdict rs' = verdict rs"
proof -
  assume a: "list_all2 same_request rs rs'"
  then have "(\<exists>r\<in>set rs'. high_realloc r) = (\<exists>r\<in>set rs. high_realloc r)"
    by (induction rule: list_all2_induct) (auto simp: high_realloc_def dest: same_requestD(1,2))
  then show ?thesis by (simp add: verdict_def)
qed

lemma read_ok:
  assumes "file_ok t" "granted avail t"
  obtains t' where "read_trace avail jo jb js t0 sz (Some (print_trace t)) = Some (Fine, t')" "trace_ok t'"
    "verdict (requests t') = verdict (ops t)" "num_ops t' = num_ops t"
proof -
  note A = assms(1) [unfolded file_ok_def]
  have cf: "length (ops t) < 2147483648" using A by (simp add: counts_fit_def)
  obtain t' where t: "read_trace avail jo jb js t0 sz (Some (print_trace t)) = Some (Fine, t')" "num_ops t' = num_ops t"
      "list_all2 same_request (ops t) (ops t')" "length (blocks t') = unat (num_ids t)" "length (block_sizes t') = unat (num_ids t)"
    using read_trace_print [of t avail] A assms(2) by blast
  have l: "length (ops t') = length (ops t)" using t(3) list_all2_lengthD by fastforce
  have "sint (num_ops t') = int (length (ops t))"
  proof -
    have u: "unat (num_ops t') = length (ops t)" using A t(2) cf by (simp add: unat_of_nat take_bit_nat_eq_self)
    then show ?thesis using sint_neg_unat [of "num_ops t'"] sint32_eq [of "num_ops t'"] uint_nat [of "num_ops t'"] cf
      by (simp add: sint_neg_iff)
  qed
  then have r: "requests t' = ops t'" using l by (simp add: requests_def)
  have "unat (num_ids t) < 2147483648" using pos_size A by blast
  then have "trace_ok t'" using A t(4,5) same_wf [OF t(3)] same_need [OF t(3)] by (simp add: trace_ok_def r)
  then show ?thesis using t(1,2) same_verdict [OF t(3)] r that by simp
qed

subsection \<open>The speed runs\<close>

text \<open>A speed run does what the run for the utilisation does, without the sizes.\<close>

definition follows :: "driver \<Rightarrow> driver \<Rightarrow> bool" where
  "follows d e \<longleftrightarrow> d_heap e = d_heap d \<and> blocks (d_trace e) = blocks (d_trace d)"

definition same_data :: "driver \<Rightarrow> driver \<Rightarrow> bool" where
  "same_data e e' \<longleftrightarrow> d_mem e' = d_mem e \<and> d_errors e' = d_errors e \<and> ops (d_trace e') = ops (d_trace e) \<and>
     num_ops (d_trace e') = num_ops (d_trace e) \<and> block_sizes (d_trace e') = block_sizes (d_trace e)"

lemma remember_follows:
  assumes "remember i p z t = Some t'" "blocks u = blocks t"
  obtains u' where "remember_block i p u = Some u'" "blocks u' = blocks t'"
    "ops u' = ops u" "num_ops u' = num_ops u" "block_sizes u' = block_sizes u"
  using assms by (auto simp: remember_def remember_block_def bind_eq_Some_conv)

lemma speed_follows:
  assumes "util_op pk r (tot, m, d) = Some (Fine, (tot', m', d'))" "follows d e"
  shows "\<exists>e'. speed_op pk r e = Some (Fine, e') \<and> follows d' e' \<and> same_data e e'"
proof -
  have f: "d_heap e = d_heap d" "blocks (d_trace e) = blocks (d_trace d)" using assms(2) by (simp_all add: follows_def)
  show ?thesis
  proof (cases "op_type r")
    case ALLOC
    then obtain p s t where a: "pkg_malloc pk (op_size r) (d_heap d) = Some (p, s)" "p \<noteq> NULL"
        "remember (op_index r) p (op_size r) (d_trace d) = Some t" "d' = d\<lparr>d_heap := s, d_trace := t\<rparr>"
      using assms(1) by (auto simp: util_alloc_def bind_eq_Some_conv Let_def split: if_splits)
    obtain u where "remember_block (op_index r) p (d_trace e) = Some u" "blocks u = blocks t" "ops u = ops (d_trace e)"
        "num_ops u = num_ops (d_trace e)" "block_sizes u = block_sizes (d_trace e)"
      using remember_follows [OF a(3) f(2)] by metis
    then show ?thesis using ALLOC a f by (simp add: follows_def same_data_def)
  next
    case REALLOC
    then obtain z q p s t where a: "elem (blocks (d_trace d)) (op_index r) = Some q"
        "pkg_realloc pk q (op_size r) (d_heap d) = Some (p, s)" "p \<noteq> NULL"
        "remember (op_index r) p (op_size r) (d_trace d) = Some t" "d' = d\<lparr>d_heap := s, d_trace := t\<rparr>"
      using assms(1) by (auto simp: util_realloc_def bind_eq_Some_conv Let_def split: if_splits)
    obtain u where "remember_block (op_index r) p (d_trace e) = Some u" "blocks u = blocks t" "ops u = ops (d_trace e)"
        "num_ops u = num_ops (d_trace e)" "block_sizes u = block_sizes (d_trace e)"
      using remember_follows [OF a(4) f(2)] by metis
    then show ?thesis using REALLOC a f by (simp add: follows_def same_data_def)
  next
    case FREE
    then show ?thesis using assms(1) f by (auto simp: util_free_def follows_def same_data_def bind_eq_Some_conv)
  qed
qed

lemma same_data_trans: "same_data a b \<Longrightarrow> same_data b c \<Longrightarrow> same_data a c"
  by (simp add: same_data_def)

lemma speed_ops_follow:
  "util_ops pk rs u = Some (Fine, u') \<Longrightarrow> follows (snd (snd u)) e \<Longrightarrow>
    \<exists>e'. speed_ops pk rs e = Some (Fine, e') \<and> follows (snd (snd u')) e' \<and> same_data e e'"
proof (induction rs arbitrary: u e)
  case Nil
  then show ?case by (simp add: same_data_def)
next
  case (Cons r rs)
  obtain tot m d where u: "u = (tot, m, d)" by (cases u)
  obtain v where v: "util_op pk r u = Some (Fine, v)" "util_ops pk rs v = Some (Fine, u')"
    using Cons.prems(1) by (auto simp: bind_eq_Some_conv simp del: util_op.simps split: if_splits)
  obtain tot' m' d' where w: "v = (tot', m', d')" by (cases v)
  obtain e1 where e1: "speed_op pk r e = Some (Fine, e1)" "follows d' e1" "same_data e e1"
    using speed_follows v(1) Cons.prems(2) unfolding u w by fastforce
  obtain e2 where "speed_ops pk rs e1 = Some (Fine, e2)" "follows (snd (snd u')) e2" "same_data e1 e2"
    using Cons.IH [OF v(2), of e1] e1(2) w by auto
  then show ?case using e1 same_data_trans [OF e1(3)] by (auto simp del: speed_op.simps)
qed

lemma eval_mm_speed_run:
  assumes "arena (d_heap d)" "trace_ok (d_trace d)"
  shows "\<exists>d'. eval_mm_speed (mm_pkg ub) d = Some (Fine, d') \<and> settled d d' \<and> d_errors d' = d_errors d"
proof -
  obtain u e where u: "eval_mm_util (mm_pkg ub) d = Some (Fine, u, e)" "settled d e"
    using eval_mm_util_run [OF assms] by blast
  obtain c s tot m where s: "pkg_init (mm_pkg ub) (mem_reset_brk (d_heap d)) = Some (c, s)" "\<not> c <s 0"
      "util_ops (mm_pkg ub) (requests (d_trace d)) (0, 0, d\<lparr>d_heap := s\<rparr>) = Some (Fine, (tot, m, e))"
    using u(1) by (auto simp: eval_mm_util_def bind_eq_Some_conv Let_def simp del: mm_pkg_simps split: if_splits)
  obtain e' where "speed_ops (mm_pkg ub) (requests (d_trace d)) (d\<lparr>d_heap := s\<rparr>) = Some (Fine, e')" "follows e e'"
      "same_data (d\<lparr>d_heap := s\<rparr>) e'"
    using speed_ops_follow [OF s(3), of "d\<lparr>d_heap := s\<rparr>"] by (auto simp: follows_def)
  then show ?thesis using s(1,2) u(2)
    by (simp add: eval_mm_speed_def settled_def follows_def same_data_def del: mm_pkg_simps)
qed

subsection \<open>One trace\<close>

text \<open>The state between two traces.\<close>

definition ready :: "driver \<Rightarrow> bool" where
  "ready d \<longleftrightarrow> arena (d_heap d) \<and> d_mem d"

lemma settled_ready: "settled d e \<Longrightarrow> ready d \<Longrightarrow> ready e"
  by (simp add: settled_def ready_def arena_def same_area_def lo_def)

lemma settled_ok: "settled d e \<Longrightarrow> trace_ok (d_trace d) \<Longrightarrow> trace_ok (d_trace e)"
  using settled_requests [of d e] by (auto simp: trace_ok_def settled_def)

lemma timed_runs_run:
  "ready d \<Longrightarrow> trace_ok (d_trace d) \<Longrightarrow>
    \<exists>d'. timed_runs (mm_pkg ub) n d = Some (Fine, d') \<and> settled d d' \<and> d_errors d' = d_errors d"
proof (induction n arbitrary: d)
  case (Suc n)
  obtain e where e: "eval_mm_speed (mm_pkg ub) d = Some (Fine, e)" "settled d e" "d_errors e = d_errors d"
    using eval_mm_speed_run Suc.prems unfolding ready_def by blast
  obtain f where "timed_runs (mm_pkg ub) n e = Some (Fine, f)" "settled e f" "d_errors f = d_errors e"
    using Suc.IH [of e] settled_ready [OF e(2)] settled_ok [OF e(2)] Suc.prems by blast
  then show ?case using e settled_trans [OF e(2)] by simp
qed simp

text \<open>The results of a trace: its verdict, and the numbers in their ranges.\<close>

definition result_ok :: "traceop_t list \<Rightarrow> c_int \<Rightarrow> real \<Rightarrow> stats_t \<Rightarrow> bool" where
  "result_ok rs n secs st \<longleftrightarrow> s_ops st = real_of_int (sint n) \<and> s_valid st = (verdict rs = Fine) \<and>
     0 \<le> s_util st \<and> s_util st \<le> 1 \<and> s_secs st = (if verdict rs = Fine then secs else 0) \<and>
     (verdict rs \<noteq> Fine \<longrightarrow> s_util st = 0)"

lemma eval_trace_run:
  assumes "ready d" "trace_ok (d_trace d)"
  shows "\<exists>st d'. eval_trace (mm_pkg ub) n secs d = Some (Fine, st, d') \<and> ready d' \<and>
    result_ok (requests (d_trace d)) (num_ops (d_trace d)) secs st \<and>
    d_errors d' = d_errors d + (if verdict (requests (d_trace d)) = Fine then 0 else 1)"
proof -
  let ?v = "verdict (requests (d_trace d))"
  obtain a where a: "eval_mm_valid (mm_pkg ub) d = Some (?v, a)" "d_errors a = d_errors d + (if ?v = Fine then 0 else 1)"
      "settled d a"
    using eval_mm_valid_run assms unfolding ready_def by blast
  have ra: "ready a" "trace_ok (d_trace a)" using settled_ready settled_ok a(3) assms by blast+
  obtain u b where b: "eval_mm_util (mm_pkg ub) a = Some (Fine, u, b)" "0 \<le> u" "u \<le> 1" "settled a b" "d_errors b = d_errors a"
    using eval_mm_util_run ra unfolding ready_def by blast
  have rb: "ready b" "trace_ok (d_trace b)" using settled_ready settled_ok b(4) ra by blast+
  obtain c where c: "timed_runs (mm_pkg ub) n b = Some (Fine, c)" "settled b c" "d_errors c = d_errors b"
    using timed_runs_run rb by blast
  show ?thesis
  proof (cases "?v = Fine")
    case True
    then show ?thesis using a b c settled_ready [OF c(2) rb(1)]
      by (simp add: eval_trace_def result_ok_def)
  next
    case False
    then have "?v = Bad" by (simp add: verdict_def split: if_splits)
    then show ?thesis using a ra by (simp add: eval_trace_def result_ok_def)
  qed
qed

subsection \<open>All traces\<close>

text \<open>The files hold the traces \<open>ts\<close>, printed; for the file numbered \<open>i\<close> the memory it needs is there.\<close>

definition on_disk :: "world \<Rightarrow> (nat \<Rightarrow> setting) \<Rightarrow> string \<Rightarrow> nat \<Rightarrow> string list \<Rightarrow> trace_t list \<Rightarrow> bool" where
  "on_disk w js dir i fs ts \<longleftrightarrow> length fs = length ts \<and>
    (\<forall>k < length ts. fits_line (dir @ fs ! k) \<and> w_files w (dir @ fs ! k) = Some (print_trace (ts ! k)) \<and>
      file_ok (ts ! k) \<and> granted (j_avail (js (i + k))) (ts ! k))"

lemma on_disk_simps:
  "on_disk w js dir i [] ts \<longleftrightarrow> ts = []"
  "on_disk w js dir i (f # fs) (t # ts) \<longleftrightarrow> fits_line (dir @ f) \<and> w_files w (dir @ f) = Some (print_trace t) \<and>
     file_ok t \<and> granted (j_avail (js i)) t \<and> on_disk w js dir (Suc i) fs ts"
  "on_disk w js dir i (f # fs) [] \<longleftrightarrow> False"
  by (auto simp: on_disk_def less_Suc_eq_0_disj)

definition rejected :: "trace_t list \<Rightarrow> nat" where
  "rejected ts = length (filter (\<lambda>t. verdict (ops t) \<noteq> Fine) ts)"

lemma open_trace_ok:
  assumes "fits_line (dir @ f)" "w_files w (dir @ f) = Some (print_trace t)" "file_ok t" "granted (j_avail j) t"
  obtains t' where "open_trace w j dir f = Some (Fine, t')" "trace_ok t'"
    "verdict (requests t') = verdict (ops t)" "num_ops t' = num_ops t"
  by (rule read_ok [OF assms(3,4), of "j_ops j" "j_blocks j" "j_sizes j" "j_trace j" "j_size j"])
    (use assms(1,2) that in \<open>simp add: open_trace_def\<close>)

lemma result_ok_cong: "verdict rs = verdict rs' \<Longrightarrow> result_ok rs n secs st = result_ok rs' n secs st"
  by (simp add: result_ok_def)

lemma mm_loop_run:
  "on_disk w (w_mm w) dir i fs ts \<Longrightarrow> ready d \<Longrightarrow>
    \<exists>sts d'. mm_loop (mm_pkg ub) w dir i fs d = Some (Fine, sts, d') \<and> d_errors d' = d_errors d + of_nat (rejected ts) \<and>
      list_all2 (\<lambda>(j, t) st. result_ok (ops t) (num_ops t) (time_of (w_mm w j)) st) (enumerate i ts) sts"
proof (induction fs arbitrary: i d ts)
  case Nil
  then show ?case by (simp add: rejected_def on_disk_simps)
next
  case (Cons f fs i d us)
  then obtain t ts where us: "us = t # ts" by (cases us) (simp_all add: on_disk_simps)
  note D = Cons.prems(1) [unfolded us on_disk_simps]
  let ?j = "w_mm w i"
  obtain t' where t': "open_trace w ?j dir f = Some (Fine, t')" "trace_ok t'" "verdict (requests t') = verdict (ops t)"
      "num_ops t' = num_ops t"
    using open_trace_ok [of dir f w t ?j] D by blast
  have "ready (d\<lparr>d_trace := t'\<rparr>)" using Cons.prems(2) by (simp add: ready_def)
  then obtain st e where e: "eval_trace (mm_pkg ub) 10 (time_of ?j) (d\<lparr>d_trace := t'\<rparr>) = Some (Fine, st, e)" "ready e"
      "result_ok (ops t) (num_ops t) (time_of ?j) st" "d_errors e = d_errors d + (if verdict (ops t) = Fine then 0 else 1)"
    using eval_trace_run [of "d\<lparr>d_trace := t'\<rparr>" ub 10 "time_of ?j"] t' result_ok_cong [OF t'(3)] by auto
  obtain sts e' where "mm_loop (mm_pkg ub) w dir (i + 1) fs e = Some (Fine, sts, e')"
      "d_errors e' = d_errors e + of_nat (rejected ts)"
      "list_all2 (\<lambda>(j, t) st. result_ok (ops t) (num_ops t) (time_of (w_mm w j)) st) (enumerate (i + 1) ts) sts"
    using Cons.IH [OF _ e(2), of "i + 1" ts] D by auto
  then show ?case using t'(1) e by (simp add: rejected_def us)
qed

subsection \<open>libc's allocator\<close>

text \<open>An allocator that always finds memory.\<close>

definition never_null :: "'w libc \<Rightarrow> bool" where
  "never_null lc \<longleftrightarrow> (\<forall>z m. fst (libc_malloc lc z m) \<noteq> NULL) \<and> (\<forall>q z m. fst (libc_realloc lc q z m) \<noteq> NULL)"

lemma libc_op_run:
  assumes "never_null lc" "unat (op_index r) < length (blocks t)" "length (blocks t) < 2147483648"
  shows "\<exists>t' m'. libc_op lc r (t, m) = Some (Fine, t', m') \<and> length (blocks t') = length (blocks t) \<and>
    ops t' = ops t \<and> num_ops t' = num_ops t"
proof -
  have i: "0 \<le>s op_index r" using index_ok assms(2,3) by blast
  obtain p m1 where p: "libc_malloc lc (op_size r) m = (p, m1)" by fastforce
  obtain q m2 where q: "libc_realloc lc (blocks t ! unat (op_index r)) (op_size r) m = (q, m2)" by fastforce
  have "p \<noteq> NULL" "q \<noteq> NULL" using assms(1) p q unfolding never_null_def by (metis fst_conv)+
  then show ?thesis using p q i assms(2)
    by (cases "op_type r") (simp_all add: remember_block_def put_def elem_def)
qed

lemma libc_ops_run:
  "never_null lc \<Longrightarrow> wf_ops (length (blocks t)) L rs \<Longrightarrow> length (blocks t) < 2147483648 \<Longrightarrow>
    \<exists>t' m'. libc_ops lc rs (t, m) = Some (Fine, t', m') \<and> length (blocks t') = length (blocks t) \<and>
      ops t' = ops t \<and> num_ops t' = num_ops t"
proof (induction rs arbitrary: L t m)
  case (Cons r rs)
  have "unat (op_index r) < length (blocks t)" using Cons.prems(2) by (simp add: Let_def)
  then obtain t1 m1 where t1: "libc_op lc r (t, m) = Some (Fine, t1, m1)" "length (blocks t1) = length (blocks t)"
      "ops t1 = ops t" "num_ops t1 = num_ops t"
    using libc_op_run [OF Cons.prems(1)] Cons.prems(3) by blast
  obtain L' where "wf_ops (length (blocks t)) L' rs"
    using Cons.prems(2) by (cases "op_type r") (auto simp: Let_def)
  then show ?case using Cons.IH [of t1 L' m1] t1 Cons.prems(1,3) by (simp del: libc_op.simps)
qed simp

lemma libc_runs_run:
  "never_null lc \<Longrightarrow> wf_ops (length (blocks t)) {} (requests t) \<Longrightarrow> length (blocks t) < 2147483648 \<Longrightarrow>
    \<exists>u. libc_runs lc n (t, m) = Some (Fine, u)"
proof (induction n arbitrary: t m)
  case (Suc n)
  obtain t' m' where t': "libc_ops lc (requests t) (t, m) = Some (Fine, t', m')" "length (blocks t') = length (blocks t)"
      "ops t' = ops t" "num_ops t' = num_ops t"
    using libc_ops_run [OF Suc.prems] by blast
  have q: "requests t' = requests t" using t'(3,4) by (simp add: requests_def)
  have "\<exists>u. libc_runs lc n (t', m') = Some (Fine, u)"
    by (rule Suc.IH [OF Suc.prems(1)]) (unfold t'(2) q, fact Suc.prems(2), fact Suc.prems(3))
  then show ?case using t'(1) by (simp add: eval_libc_speed_def)
qed simp

lemma eval_libc_run:
  assumes "never_null lc" "trace_ok t"
  shows "\<exists>st m'. eval_libc lc secs t m = Some (Fine, st, m')"
proof -
  have w: "wf_ops (length (blocks t)) {} (requests t)" "length (blocks t) < 2147483648"
    using assms(2) unfolding trace_ok_def by (blast, blast)
  obtain t' m' where t': "libc_ops lc (requests t) (t, m) = Some (Fine, t', m')" "length (blocks t') = length (blocks t)"
      "ops t' = ops t" "num_ops t' = num_ops t"
    using libc_ops_run [OF assms(1) w] by blast
  then have "requests t' = requests t" by (simp add: requests_def)
  then obtain u where "libc_runs lc 10 (t', m') = Some (Fine, u)"
    using libc_runs_run [OF assms(1), of t' 10 m'] w t'(2) by auto
  then show ?thesis using t'(1) by (cases u) (simp add: eval_libc_def eval_libc_valid_def)
qed

lemma libc_loop_run:
  "on_disk w (w_libc w) dir i fs ts \<Longrightarrow> never_null lc \<Longrightarrow> \<exists>sts. libc_loop lc w dir i fs m = Some (Fine, sts)"
proof (induction fs arbitrary: i m ts)
  case (Cons f fs i m us)
  then obtain t ts where us: "us = t # ts" by (cases us) (simp_all add: on_disk_simps)
  note D = Cons.prems(1) [unfolded us on_disk_simps]
  obtain t' where t': "open_trace w (w_libc w i) dir f = Some (Fine, t')" "trace_ok t'"
    using open_trace_ok [of dir f w t "w_libc w i"] D by blast
  obtain st m' where e: "eval_libc lc (time_of (w_libc w i)) t' m = Some (Fine, st, m')"
    using eval_libc_run [OF Cons.prems(2) t'(2)] by blast
  obtain sts where "libc_loop lc w dir (i + 1) fs m' = Some (Fine, sts)" 
    using Cons.IH [OF _ Cons.prems(2), of "i + 1" ts] D by auto
  then show ?case using t'(1) e by simp
qed simp

subsection \<open>The index\<close>

lemma util_sum: "\<forall>st\<in>set sts. s_util st \<le> 1 \<Longrightarrow> sum_list (map s_util sts) \<le> real (length sts)"
  by (induction sts) auto

lemma perf_index_bounds:
  assumes "sts \<noteq> []" "\<forall>st\<in>set sts. 0 \<le> s_util st \<and> s_util st \<le> 1 \<and> 0 \<le> s_ops st \<and> 0 \<le> s_secs st"
  shows "0 \<le> perf_index e sts \<and> perf_index e sts \<le> 100"
proof -
  define u where "u = sum_list (map s_util sts) / real (length sts)"
  define x where "x = sum_list (map s_ops sts) / sum_list (map s_secs sts)"
  define y where "y = (if x > AVG_LIBC_THRUPUT then 1 - UTIL_WEIGHT else (1 - UTIL_WEIGHT) * (x / AVG_LIBC_THRUPUT))"
  have "0 \<le> sum_list (map f sts)" if "\<forall>st\<in>set sts. 0 \<le> f st" for f :: "stats_t \<Rightarrow> real"
    using that by (intro sum_list_nonneg) auto
  then have "0 \<le> u" "0 \<le> x" using assms(2) by (simp_all add: u_def x_def)
  moreover have "u \<le> 1" using util_sum [of sts] assms by (simp add: u_def divide_le_eq)
  ultimately have "0 \<le> UTIL_WEIGHT * u" "UTIL_WEIGHT * u \<le> 60 / 100" "0 \<le> y" "y \<le> 40 / 100"
    by (simp_all add: UTIL_WEIGHT_def AVG_LIBC_THRUPUT_def y_def field_simps)
  then show ?thesis by (simp add: perf_index_def Let_def flip: u_def x_def y_def)
qed

lemma perf_index_errors: "e \<noteq> 0 \<Longrightarrow> perf_index e sts = 0"
  by (simp add: perf_index_def Let_def)

text \<open>The index can be told from the row of totals: 60 points for the utilisation, and 40 for the
  throughput, up to 600 thousand requests per second.\<close>

lemma totals:
  "\<forall>st\<in>set sts. s_valid st \<Longrightarrow>
    foldl (\<lambda>(secs, ops, util) st. if s_valid st then (secs + s_secs st, ops + s_ops st, util + s_util st) else (secs, ops, util))
      (a, b, c) sts = (a + sum_list (map s_secs sts), b + sum_list (map s_ops sts), c + sum_list (map s_util sts))"
  by (induction sts arbitrary: a b c) (auto simp: add.assoc)

lemma index_of_total:
  assumes "\<forall>st\<in>set sts. s_valid st" "total (printresults e sts) = Some (u, n, s, k)"
  shows "perf_index e sts = 60 / 100 * u + 40 * min 1 (k / 600)"
  using assms(2) totals [OF assms(1), of 0 0 0]
  by (auto simp: printresults_def perf_index_def UTIL_WEIGHT_def AVG_LIBC_THRUPUT_def Let_def min_def field_simps split: if_splits)

subsection \<open>The whole program\<close>

lemma rejected_le: "rejected ts \<le> length ts"
  by (simp add: rejected_def)

lemma results_set:
  assumes "list_all2 (\<lambda>(j, t) st. result_ok (ops t) (num_ops t) (time_of (w_mm w j)) st) (enumerate i ts) sts"
    and "\<forall>t\<in>set ts. file_ok t" "\<forall>j. 0 \<le> time_of (w_mm w j)"
  shows "length sts = length ts" "length (filter s_valid sts) + rejected ts = length ts"
    "\<forall>st\<in>set sts. 0 \<le> s_util st \<and> s_util st \<le> 1 \<and> 0 \<le> s_ops st \<and> 0 \<le> s_secs st"
proof -
  have "length sts = length ts \<and> length (filter s_valid sts) + rejected ts = length ts \<and>
      (\<forall>st\<in>set sts. 0 \<le> s_util st \<and> s_util st \<le> 1 \<and> 0 \<le> s_ops st \<and> 0 \<le> s_secs st)"
    using assms(1,2)
  proof (induction ts arbitrary: i sts)
    case (Cons t ts)
    obtain st sts' where s: "sts = st # sts'" "result_ok (ops t) (num_ops t) (time_of (w_mm w i)) st"
        "list_all2 (\<lambda>(j, t) st. result_ok (ops t) (num_ops t) (time_of (w_mm w j)) st) (enumerate (Suc i) ts) sts'"
      using Cons.prems(1) by (auto simp: list_all2_Cons1)
    have n: "num_ops t = of_nat (length (ops t))" "length (ops t) < 2147483648"
      using Cons.prems(2) by (simp_all add: file_ok_def counts_fit_def)
    then have "unat (num_ops t) < 2147483648" by (simp add: unat_of_nat take_bit_nat_eq_self)
    then have "0 \<le> sint (num_ops t)" using sint_neg_unat [of "num_ops t"] by linarith
    then have "0 \<le> s_ops st" using s(2) unfolding result_ok_def by (metis of_int_0_le_iff)
    moreover have "s_valid st = (verdict (ops t) = Fine)" "0 \<le> s_util st" "s_util st \<le> 1" "0 \<le> s_secs st"
      using s(2) assms(3) by (simp_all add: result_ok_def)
    ultimately show ?case using Cons.IH [OF s(3)] Cons.prems(2) s(1) by (auto simp: rejected_def)
  qed (simp add: rejected_def)
  then show "length sts = length ts" "length (filter s_valid sts) + rejected ts = length ts"
    "\<forall>st\<in>set sts. 0 \<le> s_util st \<and> s_util st \<le> 1 \<and> 0 \<le> s_ops st \<and> 0 \<le> s_secs st" by blast+
qed

lemma time_of_nonneg: "micros (started j) \<le> micros (stopped j) \<Longrightarrow> 0 \<le> time_of j"
  using fsecs_mean [of "started j" "stopped j"] by (simp add: time_of_def zero_le_mult_iff)

lemma team_filled: "team_complete team"
  by (simp add: team_complete_def team_def)

definition mem_ok :: "world \<Rightarrow> bool" where
  "mem_ok w \<longleftrightarrow> w_mem w \<and> 0 < unat (w_arena w) \<and> 8 dvd unat (w_arena w) \<and> unat (w_arena w) + 20971520 < 4294967296"

lemma test_mm_run:
  assumes "mem_ok w" "on_disk w (w_mm w) (tracedir p) 0 (files_of p) ts"
  shows "\<exists>sts. test_mm (mm_pkg ub) w p = Some (Fine, sts, of_nat (rejected ts)) \<and>
    list_all2 (\<lambda>(j, t) st. result_ok (ops t) (num_ops t) (time_of (w_mm w j)) st) (enumerate 0 ts) sts"
proof -
  let ?s = "\<lparr>mem_start_brk = w_arena w, mem_brk = w_arena w, mem_max_addr = w_arena w + MAX_HEAP, mem_bytes = w_bytes w\<rparr>"
  let ?d = "\<lparr>d_heap = ?s, d_trace = j_trace (w_mm w 0), d_ranges = [], d_errors = 0, d_mem = True\<rparr>"
  have "unat MAX_HEAP = 20971520" by (simp add: MAX_HEAP_def)
  then have "unat (w_arena w + MAX_HEAP) = unat (w_arena w) + 20971520"
    using assms(1) unat_add_lem [of "w_arena w" MAX_HEAP] by (simp add: mem_ok_def)
  then have "ready ?d" using assms(1) by (simp add: ready_def arena_def lo_def mem_ok_def)
  moreover have "w_arena w \<noteq> NULL" using assms(1) by (auto simp: mem_ok_def NULL_def)
  ultimately show ?thesis
    using mm_loop_run [OF assms(2), of ?d ub] assms(1) by (auto simp: test_mm_def mem_init_def mem_ok_def)
qed

lemma on_disk_files: "on_disk w js dir i fs ts \<Longrightarrow> length ts = length fs \<and> (\<forall>t\<in>set ts. file_ok t)"
  by (auto simp: on_disk_def in_set_conv_nth)

lemma files_count: "read_options os q = Some (Inr p) \<Longrightarrow> length (files_of q) \<in> {1, 11} \<Longrightarrow> length (files_of p) \<in> {1, 11}"
  by (induction os q rule: read_options.induct)
    (auto simp: files_of_def set_dir_def Let_def bind_eq_Some_conv default_tracefiles_def split: if_splits option.splits)

text \<open>C9: whenever the options are accepted, the trace files hold well-formed traces
  that fit (into the arena, and their arrays into 32-bit sizes and the memory there is) and the clock advances during the timed runs, the program \<open>mdriver\<close> linked with the allocator of \<open>mm.c\<close>
  comes to its end with exit code 0, whatever the memory held. Its counter of errors is the number
  of traces that resize a block whose index has a low byte of 128 or more, it counts all others as
  correct, and its performance index lies between 0 and 100, and is 0 if there was an error.\<close>

theorem mdriver_result:
  assumes "read_options (getopt (optstring ''f:t:hvVgal'') args) options0 = Some (Inr p)"
    and "mem_ok w" "on_disk w (w_mm w) (tracedir p) 0 (files_of p) ts"
    and "\<forall>j. micros (started (w_mm w j)) < micros (stopped (w_mm w j))"
    and "run_libc p \<longrightarrow> never_null lc \<and> on_disk w (w_libc w) (tracedir p) 0 (files_of p) ts"
  shows "\<exists>r. mdriver_main (mm_pkg ub) lc m team w args = Some (Exit 0, Some r) \<and>
    errors r = of_nat (rejected ts) \<and> 0 \<le> perfindex r \<and> perfindex r \<le> 100 \<and> (rejected ts > 0 \<longrightarrow> perfindex r = 0) \<and>
    grade r = (if autograder p then Some (length ts - rejected ts, perfindex r) else None)"
proof -
  note f = on_disk_files [OF assms(3)]
  have len: "length ts \<in> {1, 11}"
    using files_count [OF assms(1)] f by (simp add: files_of_def options0_def default_tracefiles_def)
  obtain sts where s: "test_mm (mm_pkg ub) w p = Some (Fine, sts, of_nat (rejected ts))"
      "list_all2 (\<lambda>(j, t) st. result_ok (ops t) (num_ops t) (time_of (w_mm w j)) st) (enumerate 0 ts) sts"
    using test_mm_run [OF assms(2,3)] by blast
  have "\<forall>j. 0 \<le> time_of (w_mm w j)" using assms(4) time_of_nonneg less_imp_le by blast
  note R = results_set [OF s(2) conjunct2 [OF f] this]
  obtain lt where lt: "test_libc lc m w p = Some (Fine, lt)"
    using assms(2,5) libc_loop_run [of w "tracedir p" 0 "files_of p" ts lc m] by (fastforce simp: test_libc_def mem_ok_def)
  have "mdriver_main (mm_pkg ub) lc m team w args = Some (Exit 0, Some (summary p lt sts (of_nat (rejected ts))))"
    using assms(1) team_filled lt s(1) by (simp add: mdriver_main_def)
  moreover have "0 \<le> perf_index (of_nat (rejected ts)) sts \<and> perf_index (of_nat (rejected ts)) sts \<le> 100"
  proof -
    have "sts \<noteq> []" using R(1) len by auto
    then show ?thesis by (rule perf_index_bounds [OF _ R(3)])
  qed
  moreover have "(of_nat (rejected ts) :: c_int) \<noteq> 0" if "rejected ts > 0"
  proof -
    have "rejected ts \<le> 11" using rejected_le [of ts] len by auto
    then have "unat (of_nat (rejected ts) :: c_int) = rejected ts" by (simp add: unat_of_nat take_bit_nat_eq_self)
    then show ?thesis using that by fastforce
  qed
  moreover have "length (filter s_valid sts) = length ts - rejected ts" using R(2) by simp
  ultimately show ?thesis using perf_index_errors by (simp add: summary_def Let_def)
qed

text \<open>The file \<open>short1-bal.rep\<close> in the current directory, and an autograder's command.\<close>

definition world1 :: world where
  "world1 =
    (let j = \<lparr>j_avail = (\<lambda>_ n. n < 4096), j_trace = resize128, j_size = 0, j_ops = (\<lambda>_. \<lparr>op_type = FREE, op_index = 7, op_size = 7\<rparr>), j_blocks = (\<lambda>_. 5),
           j_sizes = (\<lambda>_. 9), started = \<lparr>tv_sec = 10, tv_usec = 0\<rparr>, stopped = \<lparr>tv_sec = 10, tv_usec = 500\<rparr>\<rparr>
     in \<lparr>w_files = [''./short1-bal.rep'' \<mapsto> print_trace short1, ''./resize.rep'' \<mapsto> print_trace resize128],
          w_libc = (\<lambda>_. j), w_mm = (\<lambda>_. j), w_mem = True, w_arena = 4096, w_bytes = (\<lambda>_. 170)\<rparr>)"

definition libc1 :: "unit libc" where
  "libc1 = \<lparr>libc_malloc = (\<lambda>_ _. (8, ())), libc_realloc = (\<lambda>_ _ _. (8, ())), libc_free = (\<lambda>_ _. ())\<rparr>"

theorem mdriver_result_witness:
  "(\<exists>r. mdriver_main (mm_pkg True) libc1 () team world1 [''-glf'', ''short1-bal.rep''] = Some (Exit 0, Some r) \<and>
      errors r = 0 \<and> grade r = Some (1, perfindex r)) \<and>
   (\<exists>r. mdriver_main (mm_pkg True) libc1 () team world1 [''-v'', ''-fresize.rep''] = Some (Exit 0, Some r) \<and>
      errors r = 1 \<and> perfindex r = 0)"
proof -
  let ?p = "options0\<lparr>tracedir := ''./'', tracefiles := Some [''short1-bal.rep''], run_libc := True, autograder := True\<rparr>"
  let ?q = "options0\<lparr>tracedir := ''./'', tracefiles := Some [''resize.rep''], verbose := 1\<rparr>"
  have o: "read_options (getopt (optstring ''f:t:hvVgal'') [''-glf'', ''short1-bal.rep'']) options0 = Some (Inr ?p)"
    "read_options (getopt (optstring ''f:t:hvVgal'') [''-v'', ''-fresize.rep'']) options0 = Some (Inr ?q)"
    by (simp_all add: options0_def)
  have ok: "file_ok short1" "file_ok resize128" "granted (\<lambda>_ n. n < 4096) short1" "granted (\<lambda>_ n. n < 4096) resize128"
    "rejected [short1] = 0" "rejected [resize128] = 1"
    by (simp_all add: file_ok_def counts_fit_def granted_def short1_def resize128_def top_index_def word_sless_alt rejected_def verdict_def high_realloc_def)
  have w: "mem_ok world1" "\<forall>j. micros (started (w_mm world1 j)) < micros (stopped (w_mm world1 j))" "never_null libc1"
    by (simp_all add: mem_ok_def world1_def Let_def micros_def never_null_def libc1_def NULL_def)
  have d: "on_disk world1 (w_mm world1) (tracedir ?p) 0 (files_of ?p) [short1]"
    "on_disk world1 (w_libc world1) (tracedir ?p) 0 (files_of ?p) [short1]"
    "on_disk world1 (w_mm world1) (tracedir ?q) 0 (files_of ?q) [resize128]"
    using ok by (simp_all add: on_disk_simps files_of_def fits_line_def world1_def Let_def)
  show ?thesis
    using mdriver_result [OF o(1) w(1) d(1) w(2), of libc1 True "()"] mdriver_result [OF o(2) w(1) d(3) w(2), of libc1 True "()"]
      ok(5,6) w(3) d(2) by (auto simp: options0_def)
qed

end
