(* ===== verification/TimingProps.thy ===== *)
theory TimingProps
  imports Timing "HOL-Library.Multiset"
begin

text \<open>
  The K-best scheme of \<open>malloclab-handout/fcyc.c\<close>: the array always holds the least samples in
  order, so the result is the least of the samples taken, and the loop ends.
\<close>

subsection \<open>Insertion behind equal values\<close>

fun ins :: "real \<Rightarrow> real list \<Rightarrow> real list" where
  "ins v [] = [v]"
| "ins v (x # xs) = (if x \<le> v then x # ins v xs else v # x # xs)"

lemma mset_ins [simp]: "mset (ins v xs) = add_mset v (mset xs)"
  by (induction xs) auto

lemma length_ins [simp]: "length (ins v xs) = Suc (length xs)"
  by (induction xs) auto

lemma sorted_ins: "sorted xs \<Longrightarrow> sorted (ins v xs)"
proof (induction xs)
  case (Cons x xs)
  have "set (ins v xs) = insert v (set xs)" by (metis mset_ins set_mset_add_mset_insert set_mset_mset)
  then show ?case using Cons by auto
qed simp

lemma sort_snoc: "sort (xs @ [v]) = ins v (sort xs)"
  by (rule properties_for_sort) (simp_all add: sorted_ins)

lemma ins_above: "\<forall>a\<in>set A. a \<le> v \<Longrightarrow> ins v (A @ B) = A @ ins v B"
  by (induction A) auto

lemma ins_below: "B \<noteq> [] \<Longrightarrow> v < hd B \<Longrightarrow> ins v (A @ B) = ins v A @ B"
proof (induction A)
  case Nil
  then show ?case by (cases B) auto
qed auto

lemma sift_ins: "sorted xs \<Longrightarrow> sift (length xs) (xs @ v # ys) = ins v xs @ ys"
proof (induction xs arbitrary: ys rule: rev_induct)
  case (snoc a xs)
  have s: "sorted xs" "\<forall>b\<in>set xs. b \<le> a" using snoc.prems by (auto simp: sorted_append)
  have n: "((xs @ [a]) @ v # ys) ! length xs = a" "((xs @ [a]) @ v # ys) ! Suc (length xs) = v"
    by (simp_all add: nth_append)
  show ?case
  proof (cases "a > v")
    case True
    have "((xs @ [a]) @ v # ys)[length xs := v, Suc (length xs) := a] = xs @ v # a # ys"
      by (simp add: list_update_append)
    then have "sift (length (xs @ [a])) ((xs @ [a]) @ v # ys) = sift (length xs) (xs @ v # a # ys)"
      using True n by (simp add: Let_def)
    also have "\<dots> = ins v xs @ a # ys" by (rule snoc.IH [OF s(1)])
    finally show ?thesis using True ins_below [of "[a]" v xs] by simp
  next
    case False
    then have "sift (length (xs @ [a])) ((xs @ [a]) @ v # ys) = (xs @ [a]) @ v # ys" using n by simp
    moreover have "\<forall>b\<in>set (xs @ [a]). b \<le> v" using s(2) False by fastforce
    then have "ins v (xs @ [a]) = (xs @ [a]) @ [v]" using ins_above [of "xs @ [a]" v "[]"] by simp
    ultimately show ?thesis by simp
  qed
qed simp

subsection \<open>The array of the least samples\<close>

definition best_of :: "fcyc_t \<Rightarrow> (nat \<Rightarrow> real) \<Rightarrow> nat \<Rightarrow> sampler \<Rightarrow> bool" where
  "best_of p x n s \<longleftrightarrow> samplecount s = n \<and> length (kvalues s) = nat (kbest p) \<and>
     take n (kvalues s) = take (nat (kbest p)) (sort (map x [0..<n]))"

lemma best_of_init: "best_of p x 0 (init_sampler p)"
  by (simp add: best_of_def init_sampler_def)

lemma add_sample_best:
  assumes "best_of p x n s" "1 \<le> kbest p"
  shows "\<exists>s'. add_sample p (x n) s = Some s' \<and> best_of p x (Suc n) s'"
proof -
  define k where "k = nat (kbest p)"
  define S where "S = sort (map x [0..<n])"
  have k: "1 \<le> k" "kbest p = int k" using assms(2) by (simp_all add: k_def)
  have s: "samplecount s = n" "length (kvalues s) = k" "take n (kvalues s) = take k S"
    using assms(1) by (simp_all add: best_of_def k_def S_def)
  have S: "sorted S" "length S = n" by (simp_all add: S_def)
  have Sn: "sort (map x [0..<Suc n]) = ins (x n) S" using sort_snoc [of "map x [0..<n]" "x n"] by (simp add: S_def)
  show ?thesis
  proof (cases "n < k")
    case True
    have v: "kvalues s = S @ kvalues s ! n # drop (Suc n) (kvalues s)"
      using s True S(2) by (metis id_take_nth_drop less_imp_le_nat take_all_iff)
    have "(kvalues s)[n := x n] = S @ x n # drop (Suc n) (kvalues s)"
      by (subst v) (simp add: S(2) list_update_append)
    then have "sift n ((kvalues s)[n := x n]) = ins (x n) S @ drop (Suc n) (kvalues s)"
      using sift_ins [OF S(1), of "x n"] S(2) by simp
    then have "add_sample p (x n) s =
        Some (s\<lparr>kvalues := ins (x n) S @ drop (Suc n) (kvalues s), samplecount := Suc n\<rparr>)"
      using True k s(1) by (simp add: add_sample_def Let_def)
    then show ?thesis using True s(2) S(2) unfolding best_of_def Sn k_def [symmetric] by simp
  next
    case False
    then have v: "kvalues s = take k S" "k - 1 < n" using s k(1) by (auto simp: take_all_iff)
    have n: "take k S ! (k - 1) = S ! (k - 1)" using k(1) by simp
    show ?thesis
    proof (cases "x n < S ! (k - 1)")
      case True
      define A where "A = take (k - 1) S"
      define B where "B = drop (k - 1) S"
      have AB: "S = A @ B" "length A = k - 1" "B \<noteq> []" "hd B = S ! (k - 1)"
        using v(2) S(2) by (simp_all add: A_def B_def hd_drop_conv_nth)
      have A: "sorted A" using S(1) by (simp add: A_def sorted_wrt_take)
      have "take k S = A @ [S ! (k - 1)]"
        using take_Suc_conv_app_nth [of "k - 1" S] v(2) S(2) k(1) by (simp add: A_def)
      then have "(take k S)[k - 1 := x n] = A @ [x n]" using AB(2) by (simp add: list_update_append)
      then have "sift (k - 1) ((take k S)[k - 1 := x n]) = ins (x n) A" using sift_ins [OF A, of "x n" "[]"] AB(2) by simp
      then have "add_sample p (x n) s = Some (s\<lparr>kvalues := ins (x n) A, samplecount := Suc n\<rparr>)"
        using False True k n s(1) v(1) by (simp add: add_sample_def Let_def)
      moreover have "ins (x n) S = ins (x n) A @ B" unfolding AB(1) using ins_below AB True by simp
      then have "take k (ins (x n) S) = ins (x n) A" using AB(2) k(1) by simp
      ultimately show ?thesis using False k AB(2) unfolding best_of_def Sn k_def [symmetric] by simp
    next
      case ge: False
      have "\<forall>a\<in>set (take k S). a \<le> x n"
      proof
        fix a assume "a \<in> set (take k S)"
        then obtain i where i: "i < k" "a = S ! i" by (auto simp: in_set_conv_nth)
        then have "a \<le> S ! (k - 1)" using sorted_nth_mono [OF S(1), of i "k - 1"] v(2) S(2) by simp
        then show "a \<le> x n" using ge by simp
      qed
      then have "ins (x n) S = take k S @ ins (x n) (drop k S)" using ins_above by (metis append_take_drop_id)
      then have "take k (ins (x n) S) = take k S" using False S(2) by simp
      moreover have "add_sample p (x n) s = Some (s\<lparr>kvalues := take k S, samplecount := Suc n\<rparr>)"
        using False ge k n s(1) v(1) by (simp add: add_sample_def Let_def)
      ultimately show ?thesis using False S(2) unfolding best_of_def Sn k_def [symmetric] by simp
    qed
  qed
qed

text \<open>The least \<open>k\<close> of the first \<open>n\<close> samples lie within the tolerance.\<close>

definition converged :: "fcyc_t \<Rightarrow> (nat \<Rightarrow> real) \<Rightarrow> nat \<Rightarrow> bool" where
  "converged p x n \<longleftrightarrow> kbest p \<le> int n \<and>
     (let S = sort (map x [0..<n]) in (1 + epsilon p) * S ! 0 \<ge> S ! (nat (kbest p) - 1))"

lemma best_of_converged:
  assumes "best_of p x n s" "1 \<le> kbest p"
  shows "has_converged p s \<longleftrightarrow> converged p x n"
proof (cases "kbest p \<le> int n")
  case True
  then have "kvalues s = take (nat (kbest p)) (sort (map x [0..<n]))"
    using assms(1) take_all [of "kvalues s" n] by (simp add: best_of_def)
  then show ?thesis using True assms by (simp add: has_converged_def converged_def best_of_def Let_def)
qed (use assms in \<open>simp add: has_converged_def converged_def best_of_def\<close>)

lemma best_of_min:
  assumes "best_of p x n s" "1 \<le> kbest p" "1 \<le> n"
  shows "kvalues s ! 0 = Min (x ` {..<n})"
proof -
  let ?S = "sort (map x [0..<n])"
  have "take n (kvalues s) ! 0 = take (nat (kbest p)) ?S ! 0" using assms(1) by (simp add: best_of_def)
  then have "kvalues s ! 0 = ?S ! 0" using assms(2,3) by simp
  also have "\<dots> = Min (set ?S)"
  proof (rule Min_eqI [symmetric])
    show "?S ! 0 \<in> set ?S" using assms(3) by (intro nth_mem) simp
    fix y assume "y \<in> set ?S"
    then obtain i where "i < length ?S" "y = ?S ! i" by (metis in_set_conv_nth)
    then show "?S ! 0 \<le> y" by (simp add: sorted_nth_mono)
  qed simp
  finally show ?thesis by (simp add: atLeast0LessThan)
qed

subsection \<open>The loop\<close>

lemma clear_loop_returns: "0 < incr \<Longrightarrow> \<exists>r. clear_loop incr cptr cend = Some r"
proof (induction "nat (cend - cptr)" arbitrary: cptr rule: less_induct)
  case less
  show ?case
  proof (cases "cptr < cend")
    case True
    then have "\<exists>r. clear_loop incr (cptr + incr) cend = Some r" using less by simp
    then show ?thesis using True by (subst clear_loop.simps) simp
  next
    case False
    then show ?thesis by (subst clear_loop.simps) simp
  qed
qed

text \<open>A cache block of fewer than four bytes makes the loop that clears the cache endless.\<close>

definition cache_ok :: "(int \<Rightarrow> bool) \<Rightarrow> fcyc_t \<Rightarrow> bool" where
  "cache_ok mem p \<longleftrightarrow> \<not> clear_cache p \<or> 4 \<le> cache_block p \<and> (cache_buf p \<or> mem (cache_bytes p))"

lemma clear_ok:
  assumes "cache_ok mem p"
  shows "\<exists>b. (if clear_cache p then clear mem p else Some p) = Some (p\<lparr>cache_buf := b\<rparr>) \<and> cache_ok mem (p\<lparr>cache_buf := b\<rparr>)"
proof (cases "clear_cache p")
  case True
  then have "0 < cache_block p div 4" using assms by (simp add: cache_ok_def pos_imp_zdiv_pos_iff)
  then obtain r where "clear_loop (cache_block p div 4) 0 (cache_bytes p div 4) = Some r" using clear_loop_returns by blast
  then have "clear mem p = Some (p\<lparr>cache_buf := True\<rparr>)" using True assms by (auto simp: clear_def cache_ok_def)
  then show ?thesis using True assms by (intro exI [of _ True]) (simp add: cache_ok_def)
next
  case False
  have "p = p\<lparr>cache_buf := cache_buf p\<rparr>" by simp
  then show ?thesis using False assms by (intro exI [of _ "cache_buf p"]) simp
qed

lemma cache_buf_other [simp]:
  "best_of (p\<lparr>cache_buf := b\<rparr>) = best_of p" "converged (p\<lparr>cache_buf := b\<rparr>) = converged p"
  "measure_run (p\<lparr>cache_buf := b\<rparr>) = measure_run p" "add_sample (p\<lparr>cache_buf := b\<rparr>) = add_sample p"
  "has_converged (p\<lparr>cache_buf := b\<rparr>) = has_converged p"
  by (simp_all add: fun_eq_iff best_of_def converged_def measure_run_def add_sample_def has_converged_def cong: if_cong)

lemma fcyc_loop_run:
  assumes "1 \<le> kbest p" "cache_ok mem p" "\<forall>n. measure_run p (runs n) (c n) = Some (x n, c (Suc n))" "best_of p x n s"
  shows "\<exists>m p' s'. n < m \<and> fcyc_loop mem runs p (c n) s = Some (p', c m, s') \<and> best_of p x m s' \<and>
    int m \<le> max (int n + 1) (maxsamples p) \<and> (converged p x m \<or> maxsamples p \<le> int m) \<and>
    (\<forall>i. n < i \<and> i < m \<longrightarrow> \<not> converged p x i)"
  using assms
proof (induction "nat (maxsamples p - int n)" arbitrary: n s p rule: less_induct)
  case less
  obtain b where b: "(if clear_cache p then clear mem p else Some p) = Some (p\<lparr>cache_buf := b\<rparr>)" "cache_ok mem (p\<lparr>cache_buf := b\<rparr>)"
    using clear_ok [OF less.prems(2)] by blast
  let ?p = "p\<lparr>cache_buf := b\<rparr>"
  obtain s' where s': "add_sample p (x n) s = Some s'" "best_of p x (Suc n) s'"
    using add_sample_best [OF less.prems(4,1)] by blast
  have n: "samplecount s = n" "samplecount s' = Suc n" using less.prems(4) s'(2) by (simp_all add: best_of_def)
  have step: "fcyc_loop mem runs p (c n) s =
      (if \<not> converged p x (Suc n) \<and> int (Suc n) < maxsamples p then fcyc_loop mem runs ?p (c (Suc n)) s' else Some (?p, c (Suc n), s'))"
    using b(1) s'(1) n less.prems(3) best_of_converged [OF s'(2) less.prems(1)]
    by (subst fcyc_loop.simps) simp
  show ?case
  proof (cases "\<not> converged p x (Suc n) \<and> int (Suc n) < maxsamples p")
    case True
    have "nat (maxsamples ?p - int (Suc n)) < nat (maxsamples p - int n)" using True by simp
    then have "\<exists>m p' t. Suc n < m \<and> fcyc_loop mem runs ?p (c (Suc n)) s' = Some (p', c m, t) \<and> best_of ?p x m t \<and>
        int m \<le> max (int (Suc n) + 1) (maxsamples ?p) \<and> (converged ?p x m \<or> maxsamples ?p \<le> int m) \<and>
        (\<forall>i. Suc n < i \<and> i < m \<longrightarrow> \<not> converged ?p x i)"
      by (rule less.hyps) (use less.prems b(2) s'(2) in simp_all)
    then obtain m p' t where m: "Suc n < m" "fcyc_loop mem runs ?p (c (Suc n)) s' = Some (p', c m, t)"
        "best_of p x m t" "int m \<le> max (int (Suc n) + 1) (maxsamples p)" "converged p x m \<or> maxsamples p \<le> int m"
        "\<forall>i. Suc n < i \<and> i < m \<longrightarrow> \<not> converged p x i"
      by auto
    have "\<not> converged p x i" if "n < i" "i < m" for i
      using True m(6) that by (cases "i = Suc n") auto
    then show ?thesis using True m step by (intro exI [of _ m] exI [of _ p'] exI [of _ t]) auto
  next
    case False
    then have "fcyc_loop mem runs p (c n) s = Some (?p, c (Suc n), s')" unfolding step by (rule if_not_P)
    then show ?thesis using False s'(2) by (intro exI [of _ "Suc n"] exI [of _ ?p] exI [of _ s']) auto
  qed
qed

text \<open>C20: \<open>fcyc\<close> ends and returns the least of the samples it has taken. It stops at the first sample after
  which the \<open>k\<close> least of all samples lie within the tolerance, and no later than after
  \<open>maxsamples\<close> samples, or one. There is room for the array of the samples and, if the cache is
  cleared, for that of the cache, whose block has at least the size of an \<open>int\<close>.\<close>

theorem fcyc_best:
  assumes "1 \<le> kbest p" "mem (8 * kbest p)" "cache_ok mem p" "\<forall>n. measure_run p (runs n) (c n) = Some (x n, c (Suc n))"
  shows "\<exists>n p'. 1 \<le> n \<and> fcyc mem runs p (c 0) = Some (Min (x ` {..<n}), p', c n) \<and>
    int n \<le> max 1 (maxsamples p) \<and> (converged p x n \<or> maxsamples p \<le> int n) \<and>
    (\<forall>i. 0 < i \<and> i < n \<longrightarrow> \<not> converged p x i)"
proof -
  obtain m p' s where m: "0 < m" "fcyc_loop mem runs p (c 0) (init_sampler p) = Some (p', c m, s)" "best_of p x m s"
      "int m \<le> max 1 (maxsamples p)" "converged p x m \<or> maxsamples p \<le> int m" "\<forall>i. 0 < i \<and> i < m \<longrightarrow> \<not> converged p x i"
    using fcyc_loop_run [OF assms(1,3,4) best_of_init] by auto
  moreover have "kvalues s ! 0 = Min (x ` {..<m})" using best_of_min [OF m(3) assms(1)] m(1) by simp
  ultimately show ?thesis by (intro exI [of _ m] exI [of _ p']) (simp add: fcyc_def assms(2))
qed

definition ex_clock :: clock where
  "ex_clock = \<lparr>cyc_hi = 0, cyc_lo = 4294967290, cyc_per_tick = 0, start_tick = 0\<rparr>"

definition ex_runs :: "nat \<Rightarrow> timed_run" where
  "ex_runs n = \<lparr>r_cal = [], r_start = (0, 4294967290), r_start_tick = 0,
     r_stop = (1, if n = 0 then 124 else 94), r_stop_tick = 0\<rparr>"

theorem fcyc_best_witness: "\<exists>p'. fcyc (\<lambda>n. n \<le> 1024) ex_runs fcyc_defaults ex_clock = Some (100, p', ex_clock)"
proof -
  let ?x = "\<lambda>n::nat. if n = 0 then 130 else 100 :: real"
  have m: "\<forall>n. measure_run fcyc_defaults (ex_runs n) ex_clock = Some (?x n, ex_clock)"
    by (simp add: measure_run_def fcyc_defaults_def ex_runs_def ex_clock_def start_counter_def get_counter_def)
  have "cache_ok (\<lambda>n. n \<le> 1024) fcyc_defaults" "1 \<le> kbest fcyc_defaults" "8 * kbest fcyc_defaults \<le> 1024"
    by (simp_all add: cache_ok_def fcyc_defaults_def)
  from fcyc_best [where mem = "\<lambda>n. n \<le> 1024", OF this(2,3,1), of ex_runs "\<lambda>_. ex_clock" ?x] m obtain n p' where
    n: "1 \<le> n" "fcyc (\<lambda>n. n \<le> 1024) ex_runs fcyc_defaults ex_clock = Some (Min (?x ` {..<n}), p', ex_clock)"
      "converged fcyc_defaults ?x n \<or> maxsamples fcyc_defaults \<le> int n" by blast
  have "n \<noteq> 1" using n(3) by (auto simp: converged_def fcyc_defaults_def)
  then have "2 \<le> n" using n(1) by simp
  then have "0 < n" "1 < n" by simp_all
  then have "?x ` {..<n} = {130, 100}" 
  proof (intro equalityI insert_subsetI empty_subsetI)
    show "130 \<in> ?x ` {..<n}" "100 \<in> ?x ` {..<n}"
      using image_eqI [of 130 ?x 0 "{..<n}"] image_eqI [of 100 ?x 1 "{..<n}"] \<open>0 < n\<close> \<open>1 < n\<close> by simp_all
  qed auto
  then show ?thesis using n(2) by auto
qed

end
