(* ===== verification/Jobs.thy ===== *)
theory Jobs
  imports CLib "HOL-Library.Monad_Syntax"
begin

text \<open>
  The job list of the shell, \<open>shlab-handout/tsh.c\<close>: an array of \<open>MAXJOBS\<close> job structures, the
  empty ones with process id 0, and the counter \<open>nextjid\<close>. A pointer to a job is its index. The
  helper routines come first, then the well-formedness invariant and its preservation, and the
  job list as a finite map from process ids to jobs. The job ids are C's \<open>int\<close>s; the counter
  grows by one for a job and is reset from the list, so \<open>int\<close> stands for them without overflow.
\<close>

subsection \<open>State\<close>

datatype jstate = UNDEF | FG | BG | ST

record job_t =
  pid :: int
  jid :: int
  state :: jstate
  cmdline :: string

text \<open>
  The globals of the shell. \<open>out\<close> is what it printed, \<open>sent\<close> the signals it sent with \<open>kill\<close>
  (latest first), \<open>chld_blocked\<close> the bit of SIGCHLD in its signal mask, and \<open>overrun\<close> tells whether a
  \<open>strcpy\<close> has written behind the end of a job's \<open>cmdline\<close>; what the program does then is undefined.
\<close>

record shell =
  jobs :: "job_t list"
  nextjid :: int
  verbose :: bool
  out :: string
  sent :: "(int \<times> nat) list"
  chld_blocked :: bool
  overrun :: bool

text \<open>A buffer of \<open>tsh_MAXLINE\<close> bytes holds lines of fewer characters.\<close>

definition tsh_MAXLINE :: nat where
  "tsh_MAXLINE = 1024"

definition MAXJOBS :: nat where
  "MAXJOBS = 16"

definition print :: "string \<Rightarrow> shell \<Rightarrow> shell" where
  "print t s = s\<lparr>out := out s @ t\<rparr>"

definition newline :: string where
  "newline = [CHR 0x0A]"

text \<open>\<open>perror\<close> with the text the C library has for the error number.\<close>

definition perror :: "string \<Rightarrow> string \<Rightarrow> shell \<Rightarrow> shell" where
  "perror m e s = print (m @ '': '' @ e @ newline) s"

subsection \<open>The helper routines\<close>

definition clearjob :: job_t where
  "clearjob = \<lparr>pid = 0, jid = 0, state = UNDEF, cmdline = []\<rparr>"

definition initjobs :: "shell \<Rightarrow> shell" where
  "initjobs s = s\<lparr>jobs := replicate MAXJOBS clearjob\<rparr>"

fun maxjid_from :: "int \<Rightarrow> job_t list \<Rightarrow> int" where
  "maxjid_from m [] = m"
| "maxjid_from m (j # js) = maxjid_from (if jid j > m then jid j else m) js"

definition maxjid :: "job_t list \<Rightarrow> int" where
  "maxjid js = maxjid_from 0 js"

text \<open>The loops over the list that stop at the first job of some kind.\<close>

fun index :: "('a \<Rightarrow> bool) \<Rightarrow> 'a list \<Rightarrow> nat option" where
  "index P [] = None"
| "index P (x # xs) = (if P x then Some 0 else map_option Suc (index P xs))"

definition addjob :: "int \<Rightarrow> jstate \<Rightarrow> string \<Rightarrow> shell \<Rightarrow> bool \<times> shell" where
  "addjob p st cmd s =
     (if p < 1 then (False, s)
      else case index (\<lambda>j. pid j = 0) (jobs s) of
        Some i \<Rightarrow>
          let j = \<lparr>pid = p, jid = nextjid s, state = st, cmdline = cmd\<rparr>;
              s = s\<lparr>jobs := (jobs s)[i := j], nextjid := nextjid s + 1\<rparr>;
              s = (if nextjid s > int MAXJOBS then s\<lparr>nextjid := 1\<rparr> else s);
              s = (if tsh_MAXLINE \<le> length cmd then s\<lparr>overrun := True\<rparr> else s);
              s = (if verbose s
                   then print (''Added job ['' @ dec (jid j) @ ''] '' @ dec p @ '' '' @ cmd @ newline) s else s)
          in (True, s)
      | None \<Rightarrow> (False, print (''Tried to create too many jobs'' @ newline) s))"

definition deletejob :: "int \<Rightarrow> shell \<Rightarrow> bool \<times> shell" where
  "deletejob p s =
     (if p < 1 then (False, s)
      else case index (\<lambda>j. pid j = p) (jobs s) of
        Some i \<Rightarrow>
          let s = s\<lparr>jobs := (jobs s)[i := clearjob]\<rparr>
          in (True, s\<lparr>nextjid := maxjid (jobs s) + 1\<rparr>)
      | None \<Rightarrow> (False, s))"

definition fgpid :: "shell \<Rightarrow> int" where
  "fgpid s = (case index (\<lambda>j. state j = FG) (jobs s) of Some i \<Rightarrow> pid (jobs s ! i) | None \<Rightarrow> 0)"

definition getjobpid :: "int \<Rightarrow> shell \<Rightarrow> nat option" where
  "getjobpid p s = (if p < 1 then None else index (\<lambda>j. pid j = p) (jobs s))"

definition getjobjid :: "int \<Rightarrow> shell \<Rightarrow> nat option" where
  "getjobjid n s = (if n < 1 then None else index (\<lambda>j. jid j = n) (jobs s))"

definition pid2jid :: "int \<Rightarrow> shell \<Rightarrow> int" where
  "pid2jid p s =
     (if p < 1 then 0
      else case index (\<lambda>j. pid j = p) (jobs s) of Some i \<Rightarrow> jid (jobs s ! i) | None \<Rightarrow> 0)"

definition set_state :: "nat \<Rightarrow> jstate \<Rightarrow> shell \<Rightarrow> shell" where
  "set_state i st s = s\<lparr>jobs := (jobs s)[i := (jobs s ! i)\<lparr>state := st\<rparr>]\<rparr>"

text \<open>The entry of a job: \<open>[jid] (pid)\<close>, what it is doing and its command line.\<close>

fun list_from :: "nat \<Rightarrow> job_t list \<Rightarrow> string" where
  "list_from i [] = []"
| "list_from i (j # js) =
     (if pid j \<noteq> 0
      then ''['' @ dec (jid j) @ ''] ('' @ dec (pid j) @ '') '' @
        (case state j of BG \<Rightarrow> ''Running '' | FG \<Rightarrow> ''Foreground '' | ST \<Rightarrow> ''Stopped ''
         | UNDEF \<Rightarrow> ''listjobs: Internal error: job['' @ dec (int i) @ ''].state='' @ dec 0 @ '' '') @
        cmdline j
      else []) @ list_from (Suc i) js"

definition listjobs :: "shell \<Rightarrow> shell" where
  "listjobs s = print (list_from 0 (jobs s)) s"

subsection \<open>The loops\<close>

lemma index_some: "index P xs = Some i \<Longrightarrow> i < length xs \<and> P (xs ! i) \<and> (\<forall>k<i. \<not> P (xs ! k))"
proof (induction xs arbitrary: i)
  case (Cons x xs)
  show ?case
  proof (cases "P x")
    case False
    then obtain k where k: "index P xs = Some k" "i = Suc k" using Cons.prems by auto
    then show ?thesis using Cons.IH [OF k(1)] False by (auto simp: less_Suc_eq_0_disj)
  qed (use Cons.prems in auto)
qed simp

lemma index_none: "index P xs = None \<longleftrightarrow> (\<forall>x\<in>set xs. \<not> P x)"
  by (induction xs) auto

lemma maxjid_from: "maxjid_from m js \<ge> m \<and> (\<forall>j\<in>set js. jid j \<le> maxjid_from m js) \<and>
    (maxjid_from m js = m \<or> (\<exists>j\<in>set js. maxjid_from m js = jid j))"
proof (induction js arbitrary: m)
  case (Cons j js)
  from Cons.IH [of "if jid j > m then jid j else m"] show ?case by (auto split: if_splits)
qed simp

lemma maxjid_ge: "j \<in> set js \<Longrightarrow> jid j \<le> maxjid js" "0 \<le> maxjid js"
  using maxjid_from [of 0 js] by (auto simp: maxjid_def)

subsection \<open>The invariant\<close>

text \<open>A slot is empty, or holds a job with a process, an id and a state.\<close>

definition slot_ok :: "job_t \<Rightarrow> bool" where
  "slot_ok j \<longleftrightarrow> j = clearjob \<or> 1 \<le> pid j \<and> 1 \<le> jid j \<and> state j \<noteq> UNDEF"

definition live :: "job_t list \<Rightarrow> int list" where
  "live js = filter (\<lambda>p. p \<noteq> 0) (map pid js)"

definition jobs_ok :: "shell \<Rightarrow> bool" where
  "jobs_ok s \<longleftrightarrow> length (jobs s) = MAXJOBS \<and> (\<forall>j\<in>set (jobs s). slot_ok j) \<and> distinct (live (jobs s)) \<and> 1 \<le> nextjid s"

text \<open>The jobs as a map from their process ids.\<close>

definition job_of :: "shell \<Rightarrow> int \<Rightarrow> job_t option" where
  "job_of s p = (if p < 1 then None else map_option (\<lambda>i. jobs s ! i) (index (\<lambda>j. pid j = p) (jobs s)))"

lemma slot_clear [simp]: "slot_ok clearjob"
  by (simp add: slot_ok_def)

lemma clear_sel [simp]: "pid clearjob = 0" "jid clearjob = 0" "state clearjob = UNDEF"
  by (simp_all add: clearjob_def)

lemma live_append [simp]: "live (xs @ ys) = live xs @ live ys"
  by (simp add: live_def)

lemma live_Cons [simp]: "live (j # js) = (if pid j = 0 then live js else pid j # live js)"
  by (simp add: live_def)

lemma live_Nil [simp]: "live [] = []"
  by (simp add: live_def)

lemma zero_live [simp]: "0 \<notin> set (live js)"
  by (simp add: live_def)

lemma in_live: "p \<in> set (live js) \<longleftrightarrow> p \<noteq> 0 \<and> (\<exists>j\<in>set js. pid j = p)"
  by (auto simp: live_def)

lemma split_at: "i < length xs \<Longrightarrow> \<exists>us vs. xs = us @ (xs ! i) # vs \<and> length us = i"
  by (metis id_take_nth_drop length_take min.absorb4)

text \<open>With distinct process ids the position of a job does not matter.\<close>

lemma index_pid:
  assumes "distinct (live js)" "i < length js" "pid (js ! i) = p" "p \<noteq> 0"
  shows "index (\<lambda>j. pid j = p) js = Some i"
  using assms(1-3)
proof (induction js arbitrary: i)
  case (Cons j js)
  show ?case
  proof (cases i)
    case (Suc k)
    then have k: "k < length js" "pid (js ! k) = p" using Cons.prems by simp_all
    have "pid j \<noteq> p"
    proof
      assume "pid j = p"
      moreover have "p \<in> set (live js)" using k assms(4) by (auto simp: in_live)
      ultimately show False using Cons.prems(1) assms(4) by simp
    qed
    then show ?thesis using Cons.IH [OF _ k] Cons.prems(1) Suc by (simp split: if_splits)
  qed (use Cons.prems in simp)
qed simp

lemma job_of_iff:
  assumes "jobs_ok s"
  shows "job_of s p = Some j \<longleftrightarrow> 1 \<le> p \<and> pid j = p \<and> j \<in> set (jobs s)"
proof
  assume "job_of s p = Some j"
  then show "1 \<le> p \<and> pid j = p \<and> j \<in> set (jobs s)"
    by (auto simp: job_of_def dest!: index_some split: if_splits)
next
  assume *: "1 \<le> p \<and> pid j = p \<and> j \<in> set (jobs s)"
  then obtain i where i: "i < length (jobs s)" "jobs s ! i = j" by (auto simp: in_set_conv_nth)
  then have "index (\<lambda>j. pid j = p) (jobs s) = Some i"
    using * assms by (intro index_pid) (auto simp: jobs_ok_def)
  then show "job_of s p = Some j" using * i(2) by (simp add: job_of_def)
qed

subsection \<open>Updates of one slot\<close>

lemma slot_pid: "slot_ok j \<Longrightarrow> pid j = 0 \<or> 1 \<le> pid j"
  by (auto simp: slot_ok_def)

lemma job_of_eqI:
  assumes "jobs_ok s" "\<And>p j. f p = Some j \<longleftrightarrow> 1 \<le> p \<and> pid j = p \<and> j \<in> set (jobs s)"
  shows "job_of s = f"
proof
  fix p
  show "job_of s p = f p" using job_of_iff [OF assms(1), of p] assms(2) [of p] by (metis not_None_eq)
qed

text \<open>Slot \<open>i\<close> is overwritten with a job whose process id is its old one or a new one, or cleared.\<close>

lemma update_slot:
  assumes s: "jobs_ok s" and i: "i < length (jobs s)" and j: "slot_ok j"
    and p: "pid j \<noteq> 0 \<Longrightarrow> pid j = pid (jobs s ! i) \<or> job_of s (pid j) = None"
    and t: "jobs t = (jobs s)[i := j]" "1 \<le> nextjid t"
  shows "jobs_ok t"
    "job_of t = (\<lambda>p. if pid j \<noteq> 0 \<and> p = pid j then Some j else if p = pid (jobs s ! i) then None else job_of s p)"
proof -
  obtain us vs where js: "jobs s = us @ (jobs s ! i) # vs" "length us = i" using split_at [OF i] by blast
  have "(us @ (jobs s ! i) # vs)[length us := j] = us @ j # vs" by (rule list_update_length)
  then have jt: "jobs t = us @ j # vs" using t(1) js by metis
  let ?o = "jobs s ! i"
  have D: "distinct (live (us @ ?o # vs))" "\<forall>k\<in>set us \<union> set vs \<union> {?o}. slot_ok k"
    using s js(1) by (metis jobs_ok_def, metis Un_iff insert_iff jobs_ok_def list.simps(15) set_append singletonD)
  have fresh: "pid j \<notin> set (live us) \<union> set (live vs)" if "pid j \<noteq> 0"
  proof -
    show ?thesis
    proof (cases "pid j = pid ?o")
      case True
      then show ?thesis using D(1) that by auto
    next
      case False
      then have none: "job_of s (pid j) = None" using p [OF that] by simp
      have "pid k \<noteq> pid j" if "k \<in> set us \<union> set vs" for k
      proof
        assume "pid k = pid j"
        moreover have "k \<in> set (jobs s)" using that by (subst js(1)) auto
        moreover have "1 \<le> pid j" using slot_pid [OF j] \<open>pid j \<noteq> 0\<close> by blast
        ultimately have "job_of s (pid j) = Some k" using job_of_iff [OF s] by blast
        then show False using none by simp
      qed
      then show ?thesis by (auto simp: in_live)
    qed
  qed
  then have dt: "distinct (live (jobs t))" using D(1) by (auto simp: jt split: if_splits)
  show ok: "jobs_ok t"
  proof -
    have "length (jobs t) = MAXJOBS" using t(1) s by (simp add: jobs_ok_def)
    moreover have "\<forall>k\<in>set (jobs t). slot_ok k" using D(2) j by (auto simp: jt)
    ultimately show ?thesis using dt t(2) by (simp add: jobs_ok_def)
  qed
  have old: "1 \<le> p \<and> pid k = p \<and> k \<in> set us \<union> set vs \<longleftrightarrow> job_of s p = Some k \<and> p \<noteq> pid ?o" for p k
  proof
    assume *: "1 \<le> p \<and> pid k = p \<and> k \<in> set us \<union> set vs"
    then have "p \<in> set (live us) \<union> set (live vs)" by (auto simp: in_live)
    then have "p \<noteq> pid ?o" using D(1) by (auto split: if_splits)
    moreover have "k \<in> set (jobs s)" using * by (subst js(1)) auto
    ultimately show "job_of s p = Some k \<and> p \<noteq> pid ?o" using * job_of_iff [OF s] by blast
  next
    assume *: "job_of s p = Some k \<and> p \<noteq> pid ?o"
    then have "1 \<le> p \<and> pid k = p \<and> k \<in> set (us @ ?o # vs)" using job_of_iff [OF s] js(1) by metis
    then show "1 \<le> p \<and> pid k = p \<and> k \<in> set us \<union> set vs" using * by auto
  qed
  show "job_of t = (\<lambda>p. if pid j \<noteq> 0 \<and> p = pid j then Some j else if p = pid ?o then None else job_of s p)"
  proof (rule job_of_eqI [OF ok])
    fix p k
    show "(if pid j \<noteq> 0 \<and> p = pid j then Some j else if p = pid ?o then None else job_of s p) = Some k \<longleftrightarrow>
        1 \<le> p \<and> pid k = p \<and> k \<in> set (jobs t)"
      using old [of p k] fresh slot_pid [OF j] by (auto simp: jt in_live)
  qed
qed

lemma job_of_print [simp]: "job_of (print m s) = job_of s" "jobs_ok (print m s) = jobs_ok s" "jobs (print m s) = jobs s"
    "nextjid (print m s) = nextjid s" "chld_blocked (print m s) = chld_blocked s" "sent (print m s) = sent s"
  by (simp_all add: print_def job_of_def jobs_ok_def fun_eq_iff)

lemma job_of_index: "jobs_ok s \<Longrightarrow> i < length (jobs s) \<Longrightarrow> 1 \<le> pid (jobs s ! i) \<Longrightarrow> job_of s (pid (jobs s ! i)) = Some (jobs s ! i)"
  by (simp add: job_of_iff)

lemma jobs_okD: "jobs_ok s \<Longrightarrow> i < length (jobs s) \<Longrightarrow> slot_ok (jobs s ! i)" "jobs_ok s \<Longrightarrow> length (jobs s) = 16"
  by (auto simp: jobs_ok_def MAXJOBS_def)

lemma init_ok: "1 \<le> nextjid s \<Longrightarrow> jobs_ok (initjobs s) \<and> job_of (initjobs s) = Map.empty"
proof -
  assume n: "1 \<le> nextjid s"
  have "live (replicate k clearjob) = []" for k by (induction k) auto
  then have ok: "jobs_ok (initjobs s)" using n by (auto simp: jobs_ok_def initjobs_def)
  have "job_of (initjobs s) = (\<lambda>_. None)" by (rule job_of_eqI [OF ok]) (auto simp: initjobs_def)
  with ok show ?thesis by simp
qed

lemma addjob_full:
  assumes "jobs_ok s" "index (\<lambda>j. pid j = 0) (jobs s) = None"
  shows "addjob p st cmd s = (False, if p < 1 then s else print (''Tried to create too many jobs'' @ newline) s)"
  using assms by (simp add: addjob_def)

lemma addjob_free:
  assumes s: "jobs_ok s" and i: "index (\<lambda>j. pid j = 0) (jobs s) = Some i" and p: "1 \<le> p" "job_of s p = None" "st \<noteq> UNDEF"
  shows "\<exists>t. addjob p st cmd s = (True, t) \<and> jobs_ok t \<and>
    job_of t = (job_of s)(p \<mapsto> \<lparr>pid = p, jid = nextjid s, state = st, cmdline = cmd\<rparr>) \<and>
    chld_blocked t = chld_blocked s \<and> sent t = sent s \<and>
    jobs t = (jobs s)[i := \<lparr>pid = p, jid = nextjid s, state = st, cmdline = cmd\<rparr>] \<and>
    nextjid t = (if nextjid s + 1 > 16 then 1 else nextjid s + 1)"
proof -
  let ?j = "\<lparr>pid = p, jid = nextjid s, state = st, cmdline = cmd\<rparr>"
  define t where "t = snd (addjob p st cmd s)"
  have t: "addjob p st cmd s = (True, t)" "jobs t = (jobs s)[i := ?j]" "chld_blocked t = chld_blocked s" "sent t = sent s"
    "nextjid t = (if nextjid s + 1 > 16 then 1 else nextjid s + 1)"
    using i p(1) by (simp_all add: t_def addjob_def Let_def MAXJOBS_def)
  have n: "1 \<le> nextjid s" using s by (simp add: jobs_ok_def)
  have il: "i < length (jobs s)" "pid (jobs s ! i) = 0" using index_some [OF i] by simp_all
  have j: "slot_ok ?j" using n p by (simp add: slot_ok_def)
  have "1 \<le> nextjid t" using t(5) n by simp
  note U = update_slot [OF s il(1) j _ t(2) this]
  have "job_of t = (job_of s)(p \<mapsto> ?j)"
    using U(2) p il(2) by (auto simp: fun_eq_iff job_of_def)
  then show ?thesis using U(1) p t by simp
qed

lemma deletejob_ok:
  assumes s: "jobs_ok s"
  shows "jobs_ok (snd (deletejob p s)) \<and> job_of (snd (deletejob p s)) = (job_of s)(p := None) \<and>
    (fst (deletejob p s) \<longleftrightarrow> job_of s p \<noteq> None) \<and> chld_blocked (snd (deletejob p s)) = chld_blocked s \<and>
    sent (snd (deletejob p s)) = sent s"
proof (cases "p < 1")
  case False
  show ?thesis
  proof (cases "index (\<lambda>j. pid j = p) (jobs s)")
    case None
    then have "job_of s p = None" by (simp add: job_of_def)
    then show ?thesis using s None False by (auto simp: deletejob_def)
  next
    case (Some i)
    define t where "t = snd (deletejob p s)"
    have t: "deletejob p s = (True, t)" "jobs t = (jobs s)[i := clearjob]" "nextjid t = maxjid (jobs t) + 1"
      "chld_blocked t = chld_blocked s" "sent t = sent s"
      using Some False by (simp_all add: t_def deletejob_def Let_def)
    have il: "i < length (jobs s)" "pid (jobs s ! i) = p" using index_some [OF Some] by simp_all
    have "1 \<le> nextjid t" using t(3) maxjid_ge(2) [of "jobs t"] by simp
    note U = update_slot [OF s il(1) slot_clear _ t(2) this]
    have "job_of t = (job_of s)(p := None)" using U(2) il(2) by (simp add: fun_eq_iff)
    moreover have "job_of s p \<noteq> None" using Some False by (simp add: job_of_def)
    ultimately show ?thesis using U(1) t by simp
  qed
qed (use s in \<open>simp add: deletejob_def job_of_def fun_upd_idem\<close>)

lemma set_state_ok:
  assumes s: "jobs_ok s" and i: "i < length (jobs s)" "1 \<le> pid (jobs s ! i)" "st \<noteq> UNDEF"
  shows "jobs_ok (set_state i st s)" "job_of (set_state i st s) = (job_of s)(pid (jobs s ! i) \<mapsto> (jobs s ! i)\<lparr>state := st\<rparr>)"
proof -
  let ?j = "(jobs s ! i)\<lparr>state := st\<rparr>" and ?t = "set_state i st s"
  have j: "slot_ok ?j" using jobs_okD(1) [OF s i(1)] i by (auto simp: slot_ok_def clearjob_def)
  have n: "jobs ?t = (jobs s)[i := ?j]" "1 \<le> nextjid ?t" using s by (simp_all add: set_state_def jobs_ok_def)
  note U = update_slot [OF s i(1) j _ n]
  show "jobs_ok ?t" using U(1) by simp
  show "job_of ?t = (job_of s)(pid (jobs s ! i) \<mapsto> ?j)" using U(2) i(2) by (auto simp: fun_eq_iff)
qed

lemma getjobpid_some:
  assumes "jobs_ok s" "getjobpid p s = Some i"
  shows "i < length (jobs s)" "pid (jobs s ! i) = p" "1 \<le> p" "job_of s p = Some (jobs s ! i)"
  using assms index_some [of "\<lambda>j. pid j = p" "jobs s" i] by (auto simp: getjobpid_def job_of_def split: if_splits)

lemma getjobpid_none: "getjobpid p s = None \<longleftrightarrow> job_of s p = None"
  by (simp add: getjobpid_def job_of_def)

lemma getjobjid_some:
  assumes "jobs_ok s" "getjobjid n s = Some i"
  shows "i < length (jobs s)" "jid (jobs s ! i) = n" "1 \<le> pid (jobs s ! i)" "job_of s (pid (jobs s ! i)) = Some (jobs s ! i)"
proof -
  have i: "i < length (jobs s)" "jid (jobs s ! i) = n" "1 \<le> n"
    using assms(2) index_some [of "\<lambda>j. jid j = n" "jobs s" i] by (auto simp: getjobjid_def split: if_splits)
  have "slot_ok (jobs s ! i)" using jobs_okD(1) [OF assms(1) i(1)] .
  then have p: "1 \<le> pid (jobs s ! i)" using i(2,3) by (auto simp: slot_ok_def clearjob_def)
  then show "1 \<le> pid (jobs s ! i)" "job_of s (pid (jobs s ! i)) = Some (jobs s ! i)"
    using job_of_index [OF assms(1) i(1)] by simp_all
  show "i < length (jobs s)" "jid (jobs s ! i) = n" using i by simp_all
qed

end
