(* ===== verification/Shell.thy ===== *)
theory Shell
  imports Jobs
begin

text \<open>
  The shell of \<open>shlab-handout/tsh.c\<close>: the parser of a command line, the signal handlers, the
  commands and the read/eval loop. What the operating system answers is an argument: the results
  of the system calls of one command line are the record \<open>sys\<close>, the answers of \<open>waitpid\<close> to one
  run of the SIGCHLD handler a list, the signals that arrive while the shell waits for the
  foreground job a schedule, in which a signal can also arrive between the test of the loop and
  the \<open>pause\<close>, and those that arrive inside the commands a list for each point of the code at which
  the job list is looked at or written (\<open>point\<close>); a signal that arrives elsewhere finds the list as it
  was at the last of these points. While SIGCHLD is blocked its handler does not run. \<open>None\<close> and \<open>Crash\<close> are undefined behaviour: a null pointer that is followed, a
  write behind the end of an array.
\<close>

subsection \<open>parseline\<close>

definition MAXARGS :: nat where
  "MAXARGS = 128"

text \<open>The next argument in the buffer and what is left behind its delimiter.\<close>

definition next_arg :: "string \<Rightarrow> (string \<times> string) option" where
  "next_arg buf = (if buf \<noteq> [] \<and> hd buf = CHR 0x27 then cut (CHR 0x27) (tl buf) else cut (CHR '' '') buf)"

lemma next_arg_length: "next_arg buf = Some (w, r) \<Longrightarrow> length r < length buf"
proof -
  assume "next_arg buf = Some (w, r)"
  then obtain c t where "cut c t = Some (w, r)" "length t \<le> length buf" by (auto simp: next_arg_def split: if_splits)
  then show ?thesis using cut_length [of c t w r] by simp
qed

function parse_args :: "string \<Rightarrow> string list" where
  "parse_args buf = (case next_arg buf of None \<Rightarrow> [] | Some (w, r) \<Rightarrow> w # parse_args (skip (CHR '' '') r))"
  by pat_completeness auto
termination
  by (relation "measure length") (auto dest!: next_arg_length intro: le_less_trans [OF skip_length])

declare parse_args.simps [simp del]

text \<open>
  The whole line: the arguments and whether the job runs in the background. The copy of the line has
  \<open>tsh_MAXLINE\<close> bytes with the final NUL; \<open>fgets\<close> reads no line that does not fit. The array of the
  arguments has \<open>MAXARGS\<close> entries, one of them for the final null pointer.
\<close>

definition parseline :: "string \<Rightarrow> (string list \<times> bool) option" where
  "parseline line =
     (if line = [] \<or> tsh_MAXLINE \<le> length line then None
      else let buf = skip (CHR '' '') (butlast line @ '' ''); args = parse_args buf
        in if MAXARGS \<le> length args then None
           else if args = [] then Some ([], True)
           else if last args \<noteq> [] \<and> hd (last args) = CHR ''&'' then Some (butlast args, True)
           else Some (args, False))"

subsection \<open>The signal handlers\<close>

datatype status = Signaled nat | Stopped nat | Exited nat

text \<open>An answer of \<open>waitpid\<close>: an error, or a child and its status. No answer is its 0.\<close>

datatype wait = Wait_error string | Child int status

definition SIGINT :: nat where "SIGINT = 2"
definition SIGTSTP :: nat where "SIGTSTP = 20"
definition SIGCONT :: nat where "SIGCONT = 18"

fun sigchld_handler :: "wait list \<Rightarrow> shell \<Rightarrow> shell option" where
  "sigchld_handler [] s = Some s"
| "sigchld_handler (w # ws) s =
     (if maxjid (jobs s) = 0 then Some s
      else case w of
        Wait_error e \<Rightarrow> Some (perror ''waitpid'' e s)
      | Child wpid st \<Rightarrow>
          (case st of
            Signaled n \<Rightarrow>
              (case getjobpid wpid s of
                None \<Rightarrow> None
              | Some i \<Rightarrow>
                  let j = jobs s ! i;
                      s = print (''Job ['' @ dec (jid j) @ ''] ('' @ dec (pid j) @ '') terminated by signal '' @
                            dec (int n) @ newline) s
                  in sigchld_handler ws (snd (deletejob wpid s)))
          | Stopped n \<Rightarrow>
              (case getjobpid wpid s of
                None \<Rightarrow> None
              | Some i \<Rightarrow>
                  let j = jobs s ! i;
                      s = print (''Job ['' @ dec (jid j) @ ''] ('' @ dec (pid j) @ '') stopped by signal '' @
                            dec (int n) @ newline) s
                  in sigchld_handler ws (set_state i ST s))
          | Exited n \<Rightarrow> sigchld_handler ws (snd (deletejob wpid s))))"

text \<open>\<open>kill\<close> with its error, if any. The two handlers that forward a signal differ in the signal.\<close>

definition kill :: "string option \<Rightarrow> int \<Rightarrow> nat \<Rightarrow> shell \<Rightarrow> bool \<times> shell" where
  "kill err p sig s =
     (let s = s\<lparr>sent := (p, sig) # sent s\<rparr>
      in case err of None \<Rightarrow> (True, s) | Some e \<Rightarrow> (False, perror ''kill'' e s))"

definition sigint_handler :: "string option \<Rightarrow> shell \<Rightarrow> shell" where
  "sigint_handler err s = (let p = fgpid s in if p \<noteq> 0 then snd (kill err (- p) SIGINT s) else s)"

definition sigtstp_handler :: "string option \<Rightarrow> shell \<Rightarrow> shell" where
  "sigtstp_handler err s = (let p = fgpid s in if p \<noteq> 0 then snd (kill err (- p) SIGTSTP s) else s)"

datatype event = Chld "wait list" | Sig_int "string option" | Sig_tstp "string option"

fun deliver :: "event \<Rightarrow> shell \<Rightarrow> shell option" where
  "deliver (Chld ws) s = (if chld_blocked s then Some s else sigchld_handler ws s)"
| "deliver (Sig_int err) s = Some (sigint_handler err s)"
| "deliver (Sig_tstp err) s = Some (sigtstp_handler err s)"

fun deliver_all :: "event list \<Rightarrow> shell \<Rightarrow> shell option" where
  "deliver_all [] s = Some s"
| "deliver_all (e # es) s = (case deliver e s of None \<Rightarrow> None | Some s \<Rightarrow> deliver_all es s)"

subsection \<open>The commands\<close>

text \<open>How a command ends; \<open>Block\<close>: it waits for signals, and no more come.\<close>

datatype 'a outcome = Ret 'a | Crash | Exit shell | Block shell | Exec "string list"

text \<open>A signal while the shell waits: before the \<open>pause\<close> that follows a test, or during it.\<close>

datatype tick = Before event | During event

fun waitfg_loop :: "nat \<Rightarrow> int \<Rightarrow> bool \<Rightarrow> tick list \<Rightarrow> shell \<Rightarrow> (shell \<times> tick list) outcome" where
  "waitfg_loop i p tested ts s =
     (if \<not> tested \<and> \<not> (pid (jobs s ! i) = p \<and> state (jobs s ! i) = FG) then Ret (s, ts)
      else case ts of
        [] \<Rightarrow> Block s
      | Before e # ts \<Rightarrow> (case deliver e s of None \<Rightarrow> Crash | Some s \<Rightarrow> waitfg_loop i p True ts s)
      | During e # ts \<Rightarrow> (case deliver e s of None \<Rightarrow> Crash | Some s \<Rightarrow> waitfg_loop i p False ts s))"

declare waitfg_loop.simps [simp del]

definition waitfg :: "int \<Rightarrow> tick list \<Rightarrow> shell \<Rightarrow> (shell \<times> tick list) outcome" where
  "waitfg p ts s = (case getjobpid p s of None \<Rightarrow> Ret (s, ts) | Some i \<Rightarrow> waitfg_loop i p False ts s)"

text \<open>The points inside the commands: in \<open>do_bgfg\<close> behind the lookup of the job, before the test of its
  state, after \<open>SIGCONT\<close> is sent, before \<open>waitfg\<close> and behind \<open>printf\<close>, and in \<open>eval\<close> when SIGCHLD is unblocked.\<close>

datatype point = Looked_up | Testing | Resumed | Waiting | Printed | Unblocking

text \<open>The answers of the system to one command line, and the signals that arrive.\<close>

record sys =
  malloc_err :: "string option"
  block_err :: "string option"
  fork :: "string + int"
  setpgid_err :: "string option"
  execve_err :: "(int \<times> string) option"
  arrive :: "point \<Rightarrow> event list"
  unblock_err :: "string option"
  kill_err :: "string option"

text \<open>The argument of \<open>bg\<close> and \<open>fg\<close>: the job it names, or what is printed.\<close>

definition bgfg_job :: "string \<Rightarrow> string \<Rightarrow> shell \<Rightarrow> string + nat" where
  "bgfg_job cmd arg s =
     (let bad = cmd @ '': argument must be a PID or %jobid'' @ newline
      in if arg \<noteq> [] \<and> hd arg = CHR ''%''
         then let (n, r) = strtol (tl arg); n = to_int n
           in if r \<noteq> [] then Inl bad
              else case getjobjid n s of
                None \<Rightarrow> Inl (''%'' @ dec n @ '': No such job'' @ newline)
              | Some i \<Rightarrow> Inr i
         else let (n, r) = strtol arg; n = to_int n
           in if r \<noteq> [] then Inl bad
              else case getjobpid n s of
                None \<Rightarrow> Inl (''('' @ dec n @ ''): No such process'' @ newline)
              | Some i \<Rightarrow> Inr i)"

definition job_line :: "job_t \<Rightarrow> string" where
  "job_line j = ''['' @ dec (jid j) @ ''] ('' @ dec (pid j) @ '') '' @ cmdline j"

text \<open>From the lookup on: \<open>job\<close> is the entry \<open>i\<close>, \<open>byid\<close> tells whether it was given by its job id, in
  which case \<open>pid\<close> is read from the entry. A handler that runs in between may clear or change it.\<close>

definition bgfg_run :: "sys \<Rightarrow> tick list \<Rightarrow> string \<Rightarrow> bool \<Rightarrow> nat \<Rightarrow> shell \<Rightarrow> (shell \<times> tick list) outcome" where
  "bgfg_run y ts cmd byid i s =
     (let p = pid (jobs s ! i)
      in case deliver_all (arrive y Looked_up) s of None \<Rightarrow> Crash | Some s \<Rightarrow>
        let p = (if byid then pid (jobs s ! i) else p)
        in case deliver_all (arrive y Testing) s of None \<Rightarrow> Crash | Some s \<Rightarrow>
          let (ok, s) = (if state (jobs s ! i) = ST then kill (kill_err y) (- p) SIGCONT s else (True, s))
          in if \<not> ok then Ret (s, ts)
             else case deliver_all (arrive y Resumed) s of None \<Rightarrow> Crash | Some s \<Rightarrow>
               if cmd = ''fg''
               then (case deliver_all (arrive y Waiting) (set_state i FG s) of None \<Rightarrow> Crash | Some s \<Rightarrow> waitfg p ts s)
               else (case deliver_all (arrive y Printed) (print (job_line (jobs s ! i)) s) of None \<Rightarrow> Crash
                 | Some s \<Rightarrow> Ret (set_state i BG s, ts)))"

definition do_bgfg :: "sys \<Rightarrow> tick list \<Rightarrow> string list \<Rightarrow> shell \<Rightarrow> (shell \<times> tick list) outcome" where
  "do_bgfg y ts argv s =
     (let cmd = argv ! 0
      in if length argv < 2
         then Ret (print (cmd @ '' command requires PID or %jobid argument'' @ newline) s, ts)
         else case bgfg_job cmd (argv ! 1) s of
           Inl m \<Rightarrow> Ret (print m s, ts)
         | Inr i \<Rightarrow> bgfg_run y ts cmd (argv ! 1 \<noteq> [] \<and> hd (argv ! 1) = CHR ''%'') i s)"

text \<open>\<open>strcmp\<close> follows \<open>argv[0]\<close>, the null pointer if there is no argument. The flag says a command was built in.\<close>

definition builtin_cmd :: "sys \<Rightarrow> tick list \<Rightarrow> string list \<Rightarrow> shell \<Rightarrow> (bool \<times> shell \<times> tick list) outcome" where
  "builtin_cmd y ts argv s =
     (if argv = [] then Crash
      else if argv ! 0 = ''quit'' then Exit s
      else if argv ! 0 = ''jobs'' then Ret (True, listjobs s, ts)
      else if argv ! 0 = ''bg'' \<or> argv ! 0 = ''fg''
      then (case do_bgfg y ts argv s of
          Ret (s, ts) \<Rightarrow> Ret (True, s, ts) | Crash \<Rightarrow> Crash | Exit s \<Rightarrow> Exit s | Block s \<Rightarrow> Block s | Exec a \<Rightarrow> Exec a)
      else Ret (False, s, ts))"

text \<open>The child of \<open>fork\<close>.\<close>

definition child :: "sys \<Rightarrow> string list \<Rightarrow> shell \<Rightarrow> (shell \<times> tick list) outcome" where
  "child y argv s =
     (case setpgid_err y of
        Some e \<Rightarrow> Exit (perror ''setpgid'' e s)
      | None \<Rightarrow>
          (case execve_err y of
            None \<Rightarrow> Exec argv
          | Some (errno, e) \<Rightarrow>
              Exit (if errno = 2 then print (argv ! 0 @ '': Command not found'' @ newline) s else perror ''execve'' e s)))"

text \<open>The parent, from \<open>addjob\<close> on.\<close>

definition parent :: "sys \<Rightarrow> tick list \<Rightarrow> bool \<Rightarrow> int \<Rightarrow> string \<Rightarrow> shell \<Rightarrow> (shell \<times> tick list) outcome" where
  "parent y ts bg p line s =
     (let s = snd (addjob p (if bg then BG else FG) line s);
          job = getjobpid p s
      in if overrun s \<or> (bg \<and> job = None) then Crash
         else let s = (if bg then print (job_line (jobs s ! the job)) s else s)
           in case unblock_err y of
             Some e \<Rightarrow> Ret (perror ''sigprocmask'' e s, ts)
           | None \<Rightarrow> (case deliver_all (arrive y Unblocking) (s\<lparr>chld_blocked := False\<rparr>) of
               None \<Rightarrow> Crash | Some s \<Rightarrow> if bg then Ret (s, ts) else waitfg p ts s))"

definition eval :: "sys \<Rightarrow> tick list \<Rightarrow> string \<Rightarrow> shell \<Rightarrow> (shell \<times> tick list) outcome" where
  "eval y ts line s =
     (case malloc_err y of
        Some e \<Rightarrow> Ret (perror ''malloc'' e s, ts)
      | None \<Rightarrow>
          (case parseline line of
            None \<Rightarrow> Crash
          | Some (argv, bg) \<Rightarrow>
              (case builtin_cmd y ts argv s of
                Crash \<Rightarrow> Crash | Exit s \<Rightarrow> Exit s | Block s \<Rightarrow> Block s | Exec a \<Rightarrow> Exec a
              | Ret (b, s, ts) \<Rightarrow>
                  if b then Ret (s, ts)
                  else case block_err y of
                    Some e \<Rightarrow> Ret (perror ''sigprocmask'' e s, ts)
                  | None \<Rightarrow>
                      let s = s\<lparr>chld_blocked := True\<rparr>
                      in case fork y of
                        Inl e \<Rightarrow> Ret (perror ''fork'' e s, ts)
                      | Inr p \<Rightarrow> if p = 0 then child y argv s else parent y ts bg p line s)))"

subsection \<open>The read/eval loop\<close>

text \<open>What \<open>fgets\<close> finds: an error, or a line and whether the end of the file was reached.\<close>

datatype input = Read_error | Line string bool

fun events_of :: "tick list \<Rightarrow> event list" where
  "events_of [] = []"
| "events_of (Before e # ts) = e # events_of ts"
| "events_of (During e # ts) = e # events_of ts"

text \<open>
  One round of the loop of \<open>main\<close> per input; the signals a command did not wait for arrive at the
  next prompt. Without more input the shell waits.
\<close>

fun main_loop :: "bool \<Rightarrow> (sys \<times> tick list \<times> input) list \<Rightarrow> shell \<Rightarrow> shell outcome" where
  "main_loop emit [] s = Block (if emit then print ''tsh> '' s else s)"
| "main_loop emit ((y, ts, inp) # inps) s =
     (let s = (if emit then print ''tsh> '' s else s)
      in case inp of
        Read_error \<Rightarrow> Exit (print (''fgets error'' @ newline) s)
      | Line line eof \<Rightarrow>
          if eof then Exit s
          else case eval y ts line s of
            Ret (s, ts) \<Rightarrow> (case deliver_all (events_of ts) s of None \<Rightarrow> Crash | Some s \<Rightarrow> main_loop emit inps s)
          | Crash \<Rightarrow> Crash | Exit s \<Rightarrow> Exit s | Block s \<Rightarrow> Block s | Exec a \<Rightarrow> Exec a)"

definition shell0 :: shell where
  "shell0 = initjobs \<lparr>jobs = [], nextjid = 1, verbose = False, out = [], sent = [], chld_blocked = False, overrun = False\<rparr>"

text \<open>The options \<open>verbose\<close> and \<open>emit_prompt\<close>; \<open>None\<close> when \<open>main\<close> prints the usage and exits.\<close>

fun shell_options :: "(char \<times> string) list \<Rightarrow> bool \<times> bool \<Rightarrow> (bool \<times> bool) option" where
  "shell_options [] u = Some u"
| "shell_options ((c, _) # os) (verb, emit) =
    (if c = CHR ''h'' then None
     else if c = CHR ''v'' then shell_options os (True, emit)
     else if c = CHR ''p'' then shell_options os (verb, False)
     else None)"

definition usage :: "shell \<Rightarrow> shell outcome" where
  "usage s = Exit (print (''Usage: shell [-hvp]'' @ newline @ ''   -h   print this message'' @ newline @
     ''   -v   print additional diagnostic information'' @ newline @
     ''   -p   do not emit a command prompt'' @ newline) s)"

definition shell_main :: "string list \<Rightarrow> (sys \<times> tick list \<times> input) list \<Rightarrow> shell outcome" where
  "shell_main args inps =
     (case shell_options (getopt (optstring ''hvp'') args) (False, True) of
        None \<Rightarrow> usage shell0
      | Some (verb, emit) \<Rightarrow> main_loop emit inps (initjobs (shell0\<lparr>verbose := verb\<rparr>)))"

end
