(* ===== verification/ShellProps.thy ===== *)
theory ShellProps
  imports Shell
begin

text \<open>
  What the shell of \<open>shlab-handout/tsh.c\<close> promises: the parser reads back what was quoted for it,
  the job list is a map from process ids, the SIGCHLD handler updates that map by what \<open>waitpid\<close>
  answered, and at every prompt no job is in the foreground. The last part proves where the code
  goes wrong: on a blank line, with a seventeenth job, with a signal that arrives just before the
  \<open>pause\<close>, after a failed \<open>fork\<close>, and with job ids that are given out twice.
\<close>

subsection \<open>Parsing\<close>

text \<open>Arguments written as the parser expects them: quoted if they are empty or have a space.\<close>

definition quote :: "string \<Rightarrow> string" where
  "quote w = (if w = [] \<or> CHR '' '' \<in> set w then CHR 0x27 # w @ [CHR 0x27] else w)"

fun unparse :: "string list \<Rightarrow> string" where
  "unparse [] = []"
| "unparse (w # ws) = quote w @ CHR '' '' # unparse ws"

lemma next_arg_quote:
  assumes "CHR 0x27 \<notin> set w"
  shows "\<exists>r'. next_arg (quote w @ CHR '' '' # r) = Some (w, r') \<and> skip (CHR '' '') r' = skip (CHR '' '') r"
proof (cases "w = [] \<or> CHR '' '' \<in> set w")
  case True
  then show ?thesis using cut_append [OF assms, of "CHR '' '' # r"] by (simp add: quote_def next_arg_def)
next
  case False
  then have "hd (w @ CHR '' '' # r) \<noteq> CHR 0x27" using assms hd_in_set by (cases w) auto
  then show ?thesis using False cut_append [of "CHR '' ''" w r] by (simp add: quote_def next_arg_def)
qed

lemma skip_unparse:
  assumes "\<forall>w\<in>set ws. CHR 0x27 \<notin> set w"
  shows "skip (CHR '' '') (unparse ws) = unparse ws"
proof (cases ws)
  case (Cons w ws')
  have "quote w \<noteq> [] \<and> hd (quote w) \<noteq> CHR '' ''"
  proof (cases "w = [] \<or> CHR '' '' \<in> set w")
    case False
    then show ?thesis by (cases w) (auto simp: quote_def)
  qed (simp add: quote_def)
  then show ?thesis by (intro skip_id) (simp add: Cons)
qed simp

lemma parse_unparse:
  "\<forall>w\<in>set ws. CHR 0x27 \<notin> set w \<Longrightarrow> parse_args (unparse ws) = ws"
proof (induction ws)
  case Nil
  show ?case by (simp add: parse_args.simps [of "[]"] next_arg_def)
next
  case (Cons w ws)
  obtain r where r: "next_arg (unparse (w # ws)) = Some (w, r)" "skip (CHR '' '') r = skip (CHR '' '') (unparse ws)"
    using next_arg_quote [of w "unparse ws"] Cons.prems by auto
  then show ?case using Cons skip_unparse [of ws] by (subst parse_args.simps) simp
qed

text \<open>C23: \<open>parseline\<close> reads back every list of fewer than 128 arguments that was
  written with quotes around the empty ones and those with spaces, after any number of leading
  spaces, if the line fits in the buffer of 1024 bytes; a last argument that starts with an ampersand
  is dropped and asks for the background.\<close>

theorem parseline_roundtrip:
  assumes "ws \<noteq> []" "length ws < 128" "\<forall>w\<in>set ws. CHR 0x27 \<notin> set w" "k + length (unparse ws) < 1024"
  shows "parseline (replicate k (CHR '' '') @ butlast (unparse ws) @ newline) =
    Some (if last ws \<noteq> [] \<and> hd (last ws) = CHR ''&'' then (butlast ws, True) else (ws, False))"
proof -
  have "unparse ws \<noteq> [] \<and> last (unparse ws) = CHR '' ''" using assms(1)
  proof (induction ws)
    case (Cons w ws)
    then show ?case by (cases ws) auto
  qed simp
  then have eq: "butlast (unparse ws) @ '' '' = unparse ws" by (metis append_butlast_last_id)
  have ne: "unparse ws \<noteq> []" using assms(1) by (cases ws) simp_all
  have "skip (CHR '' '') (butlast (replicate k (CHR '' '') @ butlast (unparse ws) @ newline) @ '' '') = unparse ws"
    using skip_unparse [OF assms(3)] eq by (simp add: newline_def butlast_append)
  moreover have "length (replicate k (CHR '' '') @ butlast (unparse ws) @ newline) < 1024"
    using assms(4) ne by (cases "unparse ws") (simp_all add: newline_def)
  ultimately show ?thesis
    using assms(1,2) parse_unparse [OF assms(3)] by (simp add: parseline_def Let_def MAXARGS_def tsh_MAXLINE_def newline_def)
qed

theorem parseline_roundtrip_witness:
  "parseline (''  '' @ butlast (unparse [''echo'', ''a b'', ''&'']) @ newline) = Some ([''echo'', ''a b''], True)"
  using parseline_roundtrip [of "[''echo'', ''a b'', ''&'']" 2] by (simp add: numeral_2_eq_2 quote_def)

subsection \<open>The job list\<close>

lemma live_less: "length (live js) \<le> length js \<and> (length (live js) < length js \<longleftrightarrow> (\<exists>j\<in>set js. pid j = 0))"
  by (induction js) auto

text \<open>C22: the job list is a map from process ids to jobs with room for 16: \<open>addjob\<close> of a
  new process adds its job if there is a free slot and else changes nothing but the output,
  \<open>deletejob\<close> removes one job, and the lookup by process id finds it; all keep the invariant.\<close>

theorem job_list_map:
  assumes "jobs_ok s" "1 \<le> p" "job_of s p = None" "st \<noteq> UNDEF"
  shows "jobs_ok (snd (addjob p st cmd s)) \<and> jobs_ok (snd (deletejob q s)) \<and>
    job_of (snd (addjob p st cmd s)) =
      (if length (live (jobs s)) < 16 then (job_of s)(p \<mapsto> \<lparr>pid = p, jid = nextjid s, state = st, cmdline = cmd\<rparr>)
       else job_of s) \<and>
    fst (addjob p st cmd s) = (length (live (jobs s)) < 16) \<and>
    job_of (snd (deletejob q s)) = (job_of s)(q := None) \<and>
    map_option (\<lambda>i. jobs s ! i) (getjobpid q s) = job_of s q"
proof -
  have len: "length (jobs s) = 16" using jobs_okD(2) [OF assms(1)] .
  have full: "index (\<lambda>j. pid j = 0) (jobs s) = None \<longleftrightarrow> \<not> length (live (jobs s)) < 16"
  proof -
    show ?thesis using len live_less [of "jobs s"] by (simp add: index_none)
  qed
  have del: "jobs_ok (snd (deletejob q s)) \<and> job_of (snd (deletejob q s)) = (job_of s)(q := None)"
    using deletejob_ok [OF assms(1), of q] by simp
  have get: "map_option (\<lambda>i. jobs s ! i) (getjobpid q s) = job_of s q" by (simp add: getjobpid_def job_of_def)
  show ?thesis
  proof (cases "index (\<lambda>j. pid j = 0) (jobs s)")
    case None
    then show ?thesis using full del get assms(1,2) by (simp add: addjob_full [OF assms(1) None])
  next
    case (Some i)
    then show ?thesis using full del get addjob_free [OF assms(1) Some assms(2-4), of cmd] by auto
  qed
qed

lemma shell0_ok: "jobs_ok shell0" "job_of shell0 = Map.empty"
  using init_ok [of "\<lparr>jobs = [], nextjid = 1, verbose = False, out = [], sent = [], chld_blocked = False, overrun = False\<rparr>"]
  by (simp_all add: shell0_def)

theorem job_list_map_witness:
  "jobs_ok (snd (addjob 42 FG ''ls'' shell0)) \<and>
   job_of (snd (addjob 42 FG ''ls'' shell0)) = [42 \<mapsto> \<lparr>pid = 42, jid = 1, state = FG, cmdline = ''ls''\<rparr>]"
proof -
  have "live (replicate k clearjob) = []" for k by (induction k) auto
  then have "live (jobs shell0) = []" "nextjid shell0 = 1" by (simp_all add: shell0_def initjobs_def)
  then show ?thesis using job_list_map [OF shell0_ok(1), of 42 FG "''ls''" 1] shell0_ok(2) by simp
qed

subsection \<open>The SIGCHLD handler\<close>

text \<open>What the answers of \<open>waitpid\<close> mean for the map of jobs; \<open>None\<close> where an unknown child is looked up.\<close>

fun reap :: "wait list \<Rightarrow> (int \<rightharpoonup> job_t) \<Rightarrow> (int \<rightharpoonup> job_t) option" where
  "reap [] m = Some m"
| "reap (w # ws) m =
     (if m = Map.empty then Some m
      else case w of
        Wait_error e \<Rightarrow> Some m
      | Child p (Exited n) \<Rightarrow> reap ws (m(p := None))
      | Child p (Signaled n) \<Rightarrow> (if m p = None then None else reap ws (m(p := None)))
      | Child p (Stopped n) \<Rightarrow> (case m p of None \<Rightarrow> None | Some j \<Rightarrow> reap ws (m(p \<mapsto> j\<lparr>state := ST\<rparr>))))"

lemma maxjid_empty:
  assumes "jobs_ok s"
  shows "maxjid (jobs s) = 0 \<longleftrightarrow> job_of s = Map.empty"
proof
  assume m: "maxjid (jobs s) = 0"
  have "job_of s p = None" for p
  proof (rule ccontr)
    assume "job_of s p \<noteq> None"
    then obtain j where "1 \<le> p" "pid j = p" "j \<in> set (jobs s)" using job_of_iff [OF assms] by blast
    moreover from this have "slot_ok j" using assms by (simp add: jobs_ok_def)
    ultimately show False using maxjid_ge(1) [of j "jobs s"] m by (auto simp: slot_ok_def)
  qed
  then show "job_of s = Map.empty" by (rule ext)
next
  assume e: "job_of s = Map.empty"
  show "maxjid (jobs s) = 0"
  proof (rule ccontr)
    assume "maxjid (jobs s) \<noteq> 0"
    then obtain j where j: "j \<in> set (jobs s)" "jid j \<noteq> 0" using maxjid_from [of 0 "jobs s"] by (auto simp: maxjid_def)
    moreover from this have "slot_ok j" using assms by (simp add: jobs_ok_def)
    ultimately have "job_of s (pid j) = Some j" using job_of_iff [OF assms, of "pid j" j] by (auto simp: slot_ok_def)
    then show False using e by simp
  qed
qed

lemma set_state_print [simp]: "set_state i st (print m s) = print m (set_state i st s)"
  by (simp add: set_state_def print_def)

lemma deletejob_print [simp]: "snd (deletejob p (print m s)) = print m (snd (deletejob p s))"
  by (simp add: deletejob_def print_def Let_def split: option.split)

lemma getjobpid_print [simp]: "getjobpid p (print m s) = getjobpid p s"
  by (simp add: getjobpid_def)

lemma sigchld_steps:
  assumes s: "jobs_ok s" and ne: "maxjid (jobs s) \<noteq> 0"
  shows "sigchld_handler (Child p (Exited n) # ws) s = sigchld_handler ws (snd (deletejob p s))"
    "job_of s p = None \<Longrightarrow> sigchld_handler (Child p (Signaled n) # ws) s = None"
    "job_of s p = None \<Longrightarrow> sigchld_handler (Child p (Stopped n) # ws) s = None"
    "job_of s p = Some j \<Longrightarrow> \<exists>m. sigchld_handler (Child p (Signaled n) # ws) s = sigchld_handler ws (print m (snd (deletejob p s)))"
    "job_of s p = Some j \<Longrightarrow> \<exists>m i. sigchld_handler (Child p (Stopped n) # ws) s = sigchld_handler ws (print m (set_state i ST s)) \<and>
       i < length (jobs s) \<and> jobs s ! i = j \<and> pid j = p \<and> 1 \<le> p"
proof -
  show "sigchld_handler (Child p (Exited n) # ws) s = sigchld_handler ws (snd (deletejob p s))"
    using ne by simp
  show "sigchld_handler (Child p (Signaled n) # ws) s = None" "sigchld_handler (Child p (Stopped n) # ws) s = None"
    if "job_of s p = None"
    using ne that getjobpid_none [of p s] by simp_all
  assume j: "job_of s p = Some j"
  then obtain i where i: "getjobpid p s = Some i" using getjobpid_none [of p s] by auto
  note g = getjobpid_some [OF s i]
  show "\<exists>m. sigchld_handler (Child p (Signaled n) # ws) s = sigchld_handler ws (print m (snd (deletejob p s)))"
    using ne i by (simp add: Let_def) blast
  let ?m = "''Job ['' @ dec (jid (jobs s ! i)) @
      ''] ('' @ dec (pid (jobs s ! i)) @ '') stopped by signal '' @ dec (int n) @ newline"
  have "sigchld_handler (Child p (Stopped n) # ws) s = sigchld_handler ws (print ?m (set_state i ST s))"
    using ne i by (simp add: Let_def)
  with g j show "\<exists>m i. sigchld_handler (Child p (Stopped n) # ws) s = sigchld_handler ws (print m (set_state i ST s)) \<and>
      i < length (jobs s) \<and> jobs s ! i = j \<and> pid j = p \<and> 1 \<le> p"
    by (intro exI [of _ ?m] exI [of _ i]) simp
qed

lemma sigchld_reap:
  "jobs_ok s \<Longrightarrow> map_option job_of (sigchld_handler ws s) = reap ws (job_of s) \<and>
     (\<forall>t. sigchld_handler ws s = Some t \<longrightarrow> jobs_ok t \<and> chld_blocked t = chld_blocked s \<and> sent t = sent s)"
proof (induction ws arbitrary: s)
  case (Cons w ws)
  note s = Cons.prems
  show ?case
  proof (cases "maxjid (jobs s) = 0")
    case True
    then show ?thesis using maxjid_empty [OF s] s by simp
  next
    case ne: False
    then have me: "job_of s \<noteq> Map.empty" using maxjid_empty [OF s] by simp
    have D: "map_option job_of (sigchld_handler ws (print m (snd (deletejob p s)))) = reap ws ((job_of s)(p := None)) \<and>
        (\<forall>t. sigchld_handler ws (print m (snd (deletejob p s))) = Some t \<longrightarrow>
          jobs_ok t \<and> chld_blocked t = chld_blocked s \<and> sent t = sent s)" for p m
    proof -
      have d: "jobs_ok (snd (deletejob p s))" "job_of (snd (deletejob p s)) = (job_of s)(p := None)"
        "chld_blocked (snd (deletejob p s)) = chld_blocked s" "sent (snd (deletejob p s)) = sent s"
        using deletejob_ok [OF s, of p] by blast+
      show ?thesis using Cons.IH [of "print m (snd (deletejob p s))"] d(1) unfolding job_of_print d(2-4) by blast
    qed
    have D': "print [] t = t" for t by (simp add: print_def)
    show ?thesis
    proof (cases w)
      case (Wait_error e)
      then show ?thesis using ne me s by (simp add: perror_def)
    next
      case (Child p st)
      show ?thesis
      proof (cases st)
        case (Exited n)
        then show ?thesis using D [of "[]" p] me sigchld_steps(1) [OF s ne] unfolding D' by (simp add: Child)
      next
        case (Signaled n)
        show ?thesis
        proof (cases "job_of s p")
          case None
          then show ?thesis using me sigchld_steps(2) [OF s ne None] by (simp add: Child Signaled)
        next
          case (Some j)
          obtain m where m: "sigchld_handler (Child p (Signaled n) # ws) s = sigchld_handler ws (print m (snd (deletejob p s)))"
            using sigchld_steps(4) [OF s ne Some] by blast
          show ?thesis using D [of m p] me m Some by (simp add: Child Signaled del: sigchld_handler.simps)
        qed
      next
        case (Stopped n)
        show ?thesis
        proof (cases "job_of s p")
          case None
          then show ?thesis using me sigchld_steps(3) [OF s ne None] by (simp add: Child Stopped)
        next
          case (Some j)
          obtain m i where m: "sigchld_handler (Child p (Stopped n) # ws) s = sigchld_handler ws (print m (set_state i ST s))"
              "i < length (jobs s)" "jobs s ! i = j" "pid j = p" "1 \<le> p"
            using sigchld_steps(5) [OF s ne Some] by blast
          have t: "jobs_ok (set_state i ST s)" "job_of (set_state i ST s) = (job_of s)(p \<mapsto> j\<lparr>state := ST\<rparr>)"
            using set_state_ok [OF s m(2), of ST] m by simp_all
          have u: "chld_blocked (set_state i ST s) = chld_blocked s" "sent (set_state i ST s) = sent s"
            by (simp_all add: set_state_def)
          have "map_option job_of (sigchld_handler ws (print m (set_state i ST s))) = reap ws ((job_of s)(p \<mapsto> j\<lparr>state := ST\<rparr>)) \<and>
              (\<forall>t. sigchld_handler ws (print m (set_state i ST s)) = Some t \<longrightarrow>
                jobs_ok t \<and> chld_blocked t = chld_blocked s \<and> sent t = sent s)"
            using Cons.IH [of "print m (set_state i ST s)"] t(1) unfolding job_of_print t(2) u by blast
          then show ?thesis using me m(1) Some by (simp add: Child Stopped del: sigchld_handler.simps)
        qed
      qed
    qed
  qed
qed simp

text \<open>C12: on a well-formed job list the SIGCHLD handler does to the map of jobs what the
  answers of \<open>waitpid\<close> mean: a child that exited or was killed loses its job, a stopped one is marked
  stopped, an error or the last job ends the loop; it follows a null pointer exactly when a child
  that was killed or stopped is not in the list. It keeps the invariant and the signal mask.\<close>

theorem sigchld_refines:
  assumes "jobs_ok s"
  shows "map_option job_of (sigchld_handler ws s) = reap ws (job_of s) \<and>
    (\<forall>t. sigchld_handler ws s = Some t \<longrightarrow> jobs_ok t \<and> chld_blocked t = chld_blocked s)"
  using sigchld_reap [OF assms] by simp

lemma add_one:
  obtains s where "addjob 42 FG ''ls'' shell0 = (True, s)" "jobs_ok s" "chld_blocked s = False"
    "job_of s = [42 \<mapsto> \<lparr>pid = 42, jid = 1, state = FG, cmdline = ''ls''\<rparr>]"
proof -
  have i: "index (\<lambda>j. pid j = 0) (jobs shell0) = Some 0" "nextjid shell0 = 1" "chld_blocked shell0 = False"
    by (simp_all add: shell0_def initjobs_def MAXJOBS_def numeral_eq_Suc)
  show ?thesis using addjob_free [OF shell0_ok(1) i(1), of 42 FG "''ls''"] shell0_ok(2) i(2,3) that by auto
qed

theorem sigchld_refines_witness:
  "\<exists>s. addjob 42 FG ''ls'' shell0 = (True, s) \<and>
    map_option job_of (sigchld_handler [Child 42 (Stopped 20), Child 42 (Exited 0)] s) = Some Map.empty"
proof -
  obtain s where s: "addjob 42 FG ''ls'' shell0 = (True, s)" "jobs_ok s"
    "job_of s = [42 \<mapsto> \<lparr>pid = 42, jid = 1, state = FG, cmdline = ''ls''\<rparr>]" by (rule add_one)
  have ne: "m(a \<mapsto> b) \<noteq> Map.empty" for m :: "int \<rightharpoonup> job_t" and a b by simp
  show ?thesis
    using sigchld_refines [OF s(2), of "[Child 42 (Stopped 20), Child 42 (Exited 0)]"] s(1) ne
    by (intro exI [of _ s]) (simp add: s(3) fun_upd_def del: sigchld_handler.simps cong: if_cong)
qed

subsection \<open>Waiting for the foreground job\<close>

text \<open>What a handler can do to a slot: nothing, clear it, or mark it stopped.\<close>

definition settles :: "shell \<Rightarrow> shell \<Rightarrow> bool" where
  "settles s t \<longleftrightarrow> length (jobs t) = length (jobs s) \<and>
     (\<forall>k < length (jobs s). jobs t ! k = jobs s ! k \<or> jobs t ! k = clearjob \<or> pid (jobs t ! k) \<in> {0, pid (jobs s ! k)} \<and> state (jobs t ! k) = ST)"

lemma settles_trans: "settles s t \<Longrightarrow> settles t u \<Longrightarrow> settles s u"
proof -
  assume a: "settles s t" "settles t u"
  have "jobs u ! k = jobs s ! k \<or> jobs u ! k = clearjob \<or> pid (jobs u ! k) \<in> {0, pid (jobs s ! k)} \<and> state (jobs u ! k) = ST"
    if "k < length (jobs s)" for k
  proof -
    have "jobs t ! k = jobs s ! k \<or> jobs t ! k = clearjob \<or> pid (jobs t ! k) \<in> {0, pid (jobs s ! k)} \<and> state (jobs t ! k) = ST"
      "jobs u ! k = jobs t ! k \<or> jobs u ! k = clearjob \<or> pid (jobs u ! k) \<in> {0, pid (jobs t ! k)} \<and> state (jobs u ! k) = ST"
      using a that by (simp_all add: settles_def)
    then show ?thesis by auto
  qed
  then show "settles s u" using a by (simp add: settles_def)
qed

lemma nth_upd: "xs[i := x] ! k = (if k = i \<and> i < length xs then x else xs ! k)"
  by (cases "i < length xs") (auto simp: nth_list_update list_update_beyond)

lemma settles_basic: "settles s s" "settles s (print m s)" "settles s (snd (deletejob p s))" "settles s (set_state i ST s)"
  by (auto simp: settles_def print_def deletejob_def set_state_def Let_def nth_upd split: option.split)

lemma settles_same: "jobs t = jobs s \<Longrightarrow> settles s t"
  by (simp add: settles_def)

lemma settles_print: "settles s t \<Longrightarrow> settles s (print m t)" "settles (print m s) t = settles s t"
  by (simp_all add: settles_def)

lemma sigchld_next:
  assumes "sigchld_handler (w # ws) s = Some t"
  shows "jobs t = jobs s \<or> (\<exists>u. settles s u \<and> sigchld_handler ws u = Some t)"
proof (cases "maxjid (jobs s) = 0")
  case False
  show ?thesis
  proof (cases w)
    case (Wait_error e)
    then show ?thesis using assms False by (auto simp: perror_def)
  next
    case (Child p st)
    show ?thesis
    proof (cases st)
      case (Exited n)
      then show ?thesis using assms False settles_basic(3) [of s p] by (auto simp: Child)
    next
      case (Signaled n)
      obtain i where i: "getjobpid p s = Some i" using assms False by (auto simp: Child Signaled split: option.splits)
      obtain m where "sigchld_handler ws (print m (snd (deletejob p s))) = Some t"
        using assms False i by (simp add: Child Signaled Let_def)
      then show ?thesis using settles_print(1) [OF settles_basic(3) [of s p], of m] by blast
    next
      case (Stopped n)
      obtain i where i: "getjobpid p s = Some i" using assms False by (auto simp: Child Stopped split: option.splits)
      obtain m where "sigchld_handler ws (print m (set_state i ST s)) = Some t"
        using assms False i by (simp add: Child Stopped Let_def)
      then show ?thesis using settles_print(1) [OF settles_basic(4) [of s i], of m] by blast
    qed
  qed
qed (use assms in simp)

lemma sigchld_settles: "sigchld_handler ws s = Some t \<Longrightarrow> settles s t"
proof (induction ws arbitrary: s)
  case (Cons w ws)
  from sigchld_next [OF Cons.prems] show ?case using Cons.IH settles_same settles_trans by blast
qed (simp add: settles_basic)

lemma forward_simps [simp]:
  "jobs (sigint_handler err s) = jobs s" "jobs (sigtstp_handler err s) = jobs s"
  "nextjid (sigint_handler err s) = nextjid s" "nextjid (sigtstp_handler err s) = nextjid s"
  "chld_blocked (sigint_handler err s) = chld_blocked s" "chld_blocked (sigtstp_handler err s) = chld_blocked s"
  by (simp_all add: sigint_handler_def sigtstp_handler_def kill_def Let_def perror_def split: option.split)

lemma deliver_settles: "deliver e s = Some t \<Longrightarrow> settles s t"
  by (cases e) (auto simp: sigchld_settles settles_same split: if_splits)

lemma deliver_ok:
  assumes "jobs_ok s" "deliver e s = Some t"
  shows "jobs_ok t" "chld_blocked t = chld_blocked s"
proof -
  have "jobs_ok t \<and> chld_blocked t = chld_blocked s"
  proof (cases e)
    case (Chld ws)
    then show ?thesis using assms sigchld_reap [OF assms(1), of ws] by (simp split: if_splits)
  next
    case (Sig_int err)
    then show ?thesis using assms by (auto simp: jobs_ok_def)
  next
    case (Sig_tstp err)
    then show ?thesis using assms by (auto simp: jobs_ok_def)
  qed
  then show "jobs_ok t" "chld_blocked t = chld_blocked s" by simp_all
qed

text \<open>The slots of foreground jobs; \<open>only_fg p i s\<close>: no slot but \<open>i\<close> has one, and that of process \<open>p\<close>.\<close>

definition only_fg :: "int \<Rightarrow> nat \<Rightarrow> shell \<Rightarrow> bool" where
  "only_fg p i s \<longleftrightarrow> (\<forall>k < length (jobs s). state (jobs s ! k) = FG \<longrightarrow> k = i \<and> pid (jobs s ! k) = p)"

definition no_fg :: "shell \<Rightarrow> bool" where
  "no_fg s \<longleftrightarrow> (\<forall>j\<in>set (jobs s). state j \<noteq> FG)"

lemma no_fg_print [simp]: "no_fg (print m s) = no_fg s"
  by (simp add: no_fg_def)

lemma no_fg_nth: "no_fg s \<longleftrightarrow> (\<forall>k < length (jobs s). state (jobs s ! k) \<noteq> FG)"
  by (simp add: no_fg_def all_set_conv_all_nth)

lemma settles_fg: "settles s t \<Longrightarrow> only_fg p i s \<Longrightarrow> only_fg p i t" "settles s t \<Longrightarrow> no_fg s \<Longrightarrow> no_fg t"
proof -
  assume a: "settles s t"
  have "state (jobs t ! k) = FG \<Longrightarrow> k < length (jobs t) \<Longrightarrow> jobs t ! k = jobs s ! k" for k
    using a unfolding settles_def by fastforce
  moreover have "length (jobs t) = length (jobs s)" using a by (simp add: settles_def)
  ultimately show "only_fg p i s \<Longrightarrow> only_fg p i t" "no_fg s \<Longrightarrow> no_fg t"
    by (auto simp: only_fg_def no_fg_nth)
qed

lemma waitfg_loop_ok:
  "waitfg_loop i p tested ts s = Ret (t, us) \<Longrightarrow> jobs_ok s \<Longrightarrow> only_fg p i s \<Longrightarrow>
   jobs_ok t \<and> no_fg t \<and> chld_blocked t = chld_blocked s"
proof (induction i p tested ts s rule: waitfg_loop.induct)
  case (1 i p tested ts s)
  show ?case
  proof (cases "\<not> tested \<and> \<not> (pid (jobs s ! i) = p \<and> state (jobs s ! i) = FG)")
    case True
    then have "t = s" using 1(3) by (simp add: waitfg_loop.simps)
    moreover have "no_fg s" using 1(5) True by (auto simp: only_fg_def no_fg_nth)
    ultimately show ?thesis using 1(4) by simp
  next
    case False
    then obtain k ts' where ts: "ts = k # ts'" using 1(3) by (subst (asm) waitfg_loop.simps) (auto split: list.splits)
    show ?thesis
    proof (cases k)
      case (Before e)
      then obtain u where u: "deliver e s = Some u" "waitfg_loop i p True ts' u = Ret (t, us)"
        using 1(3) False ts by (subst (asm) waitfg_loop.simps) (auto split: option.splits)
      show ?thesis
        using 1(1) [OF False ts Before u(1,2)] deliver_ok [OF 1(4) u(1)] settles_fg(1) [OF deliver_settles [OF u(1)] 1(5)] by simp
    next
      case (During e)
      then obtain u where u: "deliver e s = Some u" "waitfg_loop i p False ts' u = Ret (t, us)"
        using 1(3) False ts by (subst (asm) waitfg_loop.simps) (auto split: option.splits)
      show ?thesis
        using 1(2) [OF False ts During u(1,2)] deliver_ok [OF 1(4) u(1)] settles_fg(1) [OF deliver_settles [OF u(1)] 1(5)] by simp
    qed
  qed
qed

lemma waitfg_ok:
  assumes "waitfg p ts s = Ret (t, us)" "jobs_ok s" "\<And>k. k < length (jobs s) \<Longrightarrow> state (jobs s ! k) = FG \<Longrightarrow> pid (jobs s ! k) = p"
  shows "jobs_ok t \<and> no_fg t \<and> chld_blocked t = chld_blocked s"
proof (cases "getjobpid p s")
  case None
  have "no_fg s"
    unfolding no_fg_nth
  proof (intro allI impI notI)
    fix k assume k: "k < length (jobs s)" "state (jobs s ! k) = FG"
    have "slot_ok (jobs s ! k)" using jobs_okD(1) [OF assms(2) k(1)] .
    then have "1 \<le> pid (jobs s ! k)" using k(2) by (auto simp: slot_ok_def)
    then have "job_of s p \<noteq> None" using job_of_index [OF assms(2) k(1)] assms(3) [OF k] by simp
    then show False using None getjobpid_none [of p s] by simp
  qed
  then show ?thesis using assms(1,2) None by (simp add: waitfg_def)
next
  case (Some i)
  note g = getjobpid_some [OF assms(2) Some]
  have "only_fg p i s"
    unfolding only_fg_def
  proof (intro allI impI conjI)
    fix k assume k: "k < length (jobs s)" "state (jobs s ! k) = FG"
    show p: "pid (jobs s ! k) = p" using assms(3) [OF k] .
    have "index (\<lambda>j. pid j = p) (jobs s) = Some k"
      using k(1) p g(3) assms(2) by (intro index_pid) (auto simp: jobs_ok_def)
    then show "k = i" using Some by (simp add: getjobpid_def split: if_splits)
  qed
  then show ?thesis using waitfg_loop_ok [of i p False ts s t us] assms(1,2) Some by (simp add: waitfg_def)
qed

lemma deliver_all_ok:
  "jobs_ok s \<Longrightarrow> deliver_all es s = Some t \<Longrightarrow> jobs_ok t \<and> settles s t \<and> chld_blocked t = chld_blocked s"
proof (induction es arbitrary: s)
  case (Cons e es)
  then obtain u where u: "deliver e s = Some u" "deliver_all es u = Some t" by (auto split: option.splits)
  then show ?case using Cons.IH [OF deliver_ok(1) [OF Cons.prems(1) u(1)] u(2)] deliver_ok(2) [OF Cons.prems(1) u(1)]
      settles_trans [OF deliver_settles [OF u(1)]] by simp
qed (simp add: settles_basic)

subsection \<open>At the prompt no job is in the foreground\<close>

lemma no_fg_set: "no_fg s \<Longrightarrow> k < length (jobs (set_state i FG s)) \<Longrightarrow> state (jobs (set_state i FG s) ! k) = FG \<Longrightarrow> k = i"
  by (auto simp: no_fg_nth set_state_def nth_upd split: if_splits)

lemma kill_simps [simp]: "jobs (snd (kill e p n s)) = jobs s" "nextjid (snd (kill e p n s)) = nextjid s"
    "chld_blocked (snd (kill e p n s)) = chld_blocked s"
  by (simp_all add: kill_def Let_def perror_def split: option.split)

lemma same_jobs: "jobs t = jobs s \<Longrightarrow> nextjid t = nextjid s \<Longrightarrow> (jobs_ok t \<longleftrightarrow> jobs_ok s) \<and> (no_fg t \<longleftrightarrow> no_fg s)"
  by (simp add: jobs_ok_def no_fg_def)

lemma bgfg_job_some:
  assumes "bgfg_job cmd arg s = Inr i" "jobs_ok s"
  shows "i < length (jobs s)" "1 \<le> pid (jobs s ! i)"
proof -
  consider n where "getjobjid n s = Some i" | n where "getjobpid n s = Some i"
    using assms(1) by (auto simp: bgfg_job_def Let_def split: if_splits prod.splits option.splits)
  then show "i < length (jobs s)" "1 \<le> pid (jobs s ! i)"
    by (cases; use getjobjid_some [OF assms(2)] getjobpid_some [OF assms(2)] in blast)+
qed

text \<open>A report that process \<open>p\<close> has ended, and commands during which none arrives before they have
  written the job's state.\<close>

fun ends :: "int \<Rightarrow> event \<Rightarrow> bool" where
  "ends p (Chld ws) = list_ex (\<lambda>w. case w of Child q (Exited _) \<Rightarrow> q = p | Child q (Signaled _) \<Rightarrow> q = p | _ \<Rightarrow> False) ws"
| "ends p _ = False"

definition survives :: "int \<Rightarrow> sys \<Rightarrow> bool" where
  "survives p y \<longleftrightarrow> list_all (\<lambda>pt. list_all (\<lambda>e. \<not> ends p e) (arrive y pt)) [Looked_up, Testing, Resumed, Printed]"

lemma reap_keeps:
  "reap ws m = Some m' \<Longrightarrow> m p \<noteq> None \<Longrightarrow> \<not> ends p (Chld ws) \<Longrightarrow> m' p \<noteq> None"
proof (induction ws arbitrary: m)
  case (Cons w ws)
  show ?case
  proof (cases w)
    case (Child q st)
    then show ?thesis using Cons.IH Cons.prems
      by (cases st) (auto split: if_splits option.splits)
  qed (use Cons.prems in \<open>auto split: if_splits\<close>)
qed auto

lemma settled_slot:
  assumes "settles s t" "jobs_ok s" "i < length (jobs s)" "pid (jobs s ! i) = p" "1 \<le> p" "job_of t p \<noteq> None"
  shows "pid (jobs t ! i) = p"
proof -
  obtain k where k: "getjobpid p t = Some k" using assms(6) getjobpid_none [of p t] by auto
  then have kt: "k < length (jobs t)" "pid (jobs t ! k) = p"
    using index_some [of "\<lambda>j. pid j = p" "jobs t" k] by (auto simp: getjobpid_def split: if_splits)
  then have ks: "k < length (jobs s)" "pid (jobs s ! k) = p"
    using assms(1,5) unfolding settles_def by (auto dest!: spec [of _ k])
  have "distinct (live (jobs s))" "p \<noteq> 0" using assms(2,5) by (simp_all add: jobs_ok_def)
  then have "Some k = Some i" using index_pid [OF _ ks] index_pid [OF _ assms(3,4)] by metis
  then show ?thesis using kt by simp
qed

lemma deliver_keeps:
  assumes "deliver e s = Some t" "jobs_ok s" "i < length (jobs s)" "pid (jobs s ! i) = p" "1 \<le> p" "\<not> ends p e"
  shows "pid (jobs t ! i) = p"
proof (cases e)
  case (Chld ws)
  show ?thesis
  proof (cases "chld_blocked s")
    case False
    have "job_of s p \<noteq> None" using job_of_index [OF assms(2,3)] assms(4,5) by simp
    moreover have "reap ws (job_of s) = Some (job_of t)"
      using sigchld_reap [OF assms(2), of ws] assms(1) Chld False by auto
    ultimately have "job_of t p \<noteq> None" using reap_keeps assms(6) Chld by blast
    then show ?thesis using settled_slot [OF deliver_settles [OF assms(1)] assms(2-5)] by simp
  qed (use assms Chld in simp)
qed (use assms in auto)

lemma deliver_all_keeps:
  "deliver_all es s = Some t \<Longrightarrow> jobs_ok s \<Longrightarrow> i < length (jobs s) \<Longrightarrow> pid (jobs s ! i) = p \<Longrightarrow> 1 \<le> p \<Longrightarrow>
   list_all (\<lambda>e. \<not> ends p e) es \<Longrightarrow> no_fg s \<Longrightarrow>
   jobs_ok t \<and> i < length (jobs t) \<and> pid (jobs t ! i) = p \<and> no_fg t \<and> chld_blocked t = chld_blocked s"
proof (induction es arbitrary: s)
  case (Cons e es)
  then obtain u where u: "deliver e s = Some u" "deliver_all es u = Some t" by (auto split: option.splits)
  have "length (jobs u) = length (jobs s)" using deliver_settles [OF u(1)] by (simp add: settles_def)
  moreover have "pid (jobs u ! i) = p" using deliver_keeps [OF u(1) Cons.prems(2-5)] Cons.prems(6) by simp
  moreover have "no_fg u" using settles_fg(2) [OF deliver_settles [OF u(1)] Cons.prems(7)] .
  ultimately show ?case
    using Cons.IH [OF u(2)] deliver_ok [OF Cons.prems(2) u(1)] Cons.prems(3,5,6) by simp
qed auto

lemma bgfg_run_ok:
  assumes r: "bgfg_run y ts cmd byid i s = Ret (t, us)" and s: "jobs_ok s" "no_fg s"
    and i: "i < length (jobs s)" "pid (jobs s ! i) = p" "1 \<le> p" and y: "survives p y"
  shows "jobs_ok t \<and> no_fg t \<and> chld_blocked t = chld_blocked s"
proof -
  have q: "list_all (\<lambda>e. \<not> ends p e) (arrive y pt)" if "pt \<in> {Looked_up, Testing, Resumed, Printed}" for pt
    using y that by (auto simp: survives_def)
  let ?K = "\<lambda>u. jobs_ok u \<and> i < length (jobs u) \<and> pid (jobs u ! i) = p \<and> no_fg u \<and> chld_blocked u = chld_blocked s"
  have step: "?K v" if "deliver_all (arrive y pt) u = Some v" "?K u" "pt \<in> {Looked_up, Testing, Resumed, Printed}" for u v pt
    using deliver_all_keeps [OF that(1), of i p] i(3) q [OF that(3)] that(2) by blast
  obtain a b where a: "deliver_all (arrive y Looked_up) s = Some a" "deliver_all (arrive y Testing) a = Some b"
    using r by (auto simp: bgfg_run_def Let_def split: option.splits)
  have A: "?K a" using step [OF a(1)] s i by simp
  have B: "?K b" using step [OF a(2) A] by simp
  define ok c where "ok = fst (if state (jobs b ! i) = ST then kill (kill_err y) (- p) SIGCONT b else (True, b))"
    and "c = snd (if state (jobs b ! i) = ST then kill (kill_err y) (- p) SIGCONT b else (True, b))"
  have c: "jobs c = jobs b" "nextjid c = nextjid b" "chld_blocked c = chld_blocked b" by (simp_all add: c_def)
  then have C: "?K c" using B same_jobs [OF c(1,2)] by simp
  have run: "(if \<not> ok then Ret (c, ts)
      else case deliver_all (arrive y Resumed) c of None \<Rightarrow> Crash | Some s \<Rightarrow>
        if cmd = ''fg''
        then (case deliver_all (arrive y Waiting) (set_state i FG s) of None \<Rightarrow> Crash | Some s \<Rightarrow> waitfg p ts s)
        else (case deliver_all (arrive y Printed) (print (job_line (jobs s ! i)) s) of None \<Rightarrow> Crash
          | Some s \<Rightarrow> Ret (set_state i BG s, ts))) = Ret (t, us)"
    using r A i(2) unfolding ok_def c_def
    by (cases byid; cases "state (jobs b ! i) = ST"; simp add: bgfg_run_def Let_def a prod.case_eq_if split del: if_split cong: if_cong)
  show ?thesis
  proof (cases ok)
    case True
    then obtain d where d: "deliver_all (arrive y Resumed) c = Some d" using run by (auto split: option.splits)
    have D: "?K d" using step [OF d C] by simp
    then have d1: "1 \<le> pid (jobs d ! i)" using i(3) by simp
    show ?thesis
    proof (cases "cmd = ''fg''")
      case fg: True
      then obtain e where e: "deliver_all (arrive y Waiting) (set_state i FG d) = Some e" "waitfg p ts e = Ret (t, us)"
        using run True d by (auto split: option.splits)
      have f: "jobs_ok (set_state i FG d)" using set_state_ok(1) [of d i FG] D d1 by simp
      have E: "jobs_ok e" "settles (set_state i FG d) e" "chld_blocked e = chld_blocked d"
        using deliver_all_ok [OF f e(1)] by (simp_all add: set_state_def)
      have "only_fg p i (set_state i FG d)"
        unfolding only_fg_def
      proof (intro allI impI conjI)
        fix k assume k: "k < length (jobs (set_state i FG d))" "state (jobs (set_state i FG d) ! k) = FG"
        show ki: "k = i" using no_fg_set [OF _ k] D by blast
        show "pid (jobs (set_state i FG d) ! k) = p" unfolding ki using D by (simp add: set_state_def)
      qed
      then have "only_fg p i e" using settles_fg(1) [OF E(2)] by blast
      then show ?thesis using waitfg_ok [OF e(2) E(1)] E(3) D by (simp add: only_fg_def)
    next
      case bg: False
      then obtain e where e: "deliver_all (arrive y Printed) (print (job_line (jobs d ! i)) d) = Some e" "t = set_state i BG e"
        using run True d by (auto split: option.splits)
      have E: "?K e" using step [OF e(1)] D by simp
      then have "jobs_ok t" unfolding e(2) using set_state_ok(1) [of e i BG] i(3) by simp
      moreover have "no_fg t" "chld_blocked t = chld_blocked s" using E by (auto simp: e(2) no_fg_nth set_state_def nth_upd)
      ultimately show ?thesis by simp
    qed
  qed (use run C in simp)
qed

text \<open>The process that \<open>bg\<close> or \<open>fg\<close> resumes.\<close>

definition resumed :: "string list \<Rightarrow> shell \<Rightarrow> int option" where
  "resumed argv s =
     (if length argv < 2 \<or> argv ! 0 \<notin> {''bg'', ''fg''} then None
      else case bgfg_job (argv ! 0) (argv ! 1) s of Inl m \<Rightarrow> None | Inr i \<Rightarrow> Some (pid (jobs s ! i)))"

lemma do_bgfg_ok:
  assumes r: "do_bgfg y ts argv s = Ret (t, us)" "argv ! 0 \<in> {''bg'', ''fg''}" and s: "jobs_ok s" "no_fg s"
    and y: "\<And>q. resumed argv s = Some q \<Longrightarrow> survives q y"
  shows "jobs_ok t \<and> no_fg t \<and> chld_blocked t = chld_blocked s"
proof (cases "length argv < 2")
  case True
  then show ?thesis using r s by (auto simp: do_bgfg_def Let_def)
next
  case False
  show ?thesis
  proof (cases "bgfg_job (argv ! 0) (argv ! 1) s")
    case (Inl m)
    then show ?thesis using r s False by (auto simp: do_bgfg_def Let_def)
  next
    case (Inr i)
    note i = bgfg_job_some [OF Inr s(1)]
    have "survives (pid (jobs s ! i)) y" using y Inr False r(2) by (simp add: resumed_def)
    then show ?thesis using bgfg_run_ok [OF _ s i(1) refl i(2)] r(1) Inr False by (simp add: do_bgfg_def Let_def)
  qed
qed

lemma builtin_ok:
  assumes "builtin_cmd y ts argv s = Ret (b, t, us)" "jobs_ok s" "no_fg s" "\<And>q. resumed argv s = Some q \<Longrightarrow> survives q y"
  shows "jobs_ok t \<and> no_fg t \<and> chld_blocked t = chld_blocked s"
  using assms do_bgfg_ok [of y ts argv s t us]
  by (auto simp: builtin_cmd_def listjobs_def split: if_splits outcome.splits)

lemma parent_ok:
  assumes r: "parent y ts bg p line s = Ret (t, us)" and s: "jobs_ok s" "no_fg s"
    and p: "1 \<le> p" "job_of s p = None" and ub: "unblock_err y = None"
  shows "jobs_ok t \<and> no_fg t \<and> \<not> chld_blocked t"
proof -
  let ?st = "if bg then BG else FG"
  define a where "a = snd (addjob p ?st line s)"
  define c where "c = (if bg then print (job_line (jobs a ! the (getjobpid p a))) a else a)\<lparr>chld_blocked := False\<rparr>"
  have a: "jobs_ok a \<and> (\<forall>k < length (jobs a). state (jobs a ! k) = FG \<longrightarrow> \<not> bg \<and> pid (jobs a ! k) = p)"
  proof (cases "index (\<lambda>j. pid j = 0) (jobs s)")
    case None
    then show ?thesis using s by (auto simp: a_def addjob_full [OF s(1) None] no_fg_nth)
  next
    case (Some i)
    have "?st \<noteq> UNDEF" by simp
    then obtain u where "addjob p ?st line s = (True, u)" "jobs_ok u"
        "jobs u = (jobs s)[i := \<lparr>pid = p, jid = nextjid s, state = ?st, cmdline = line\<rparr>]"
      using addjob_free [OF s(1) Some p] by blast
    then show ?thesis using s(2) by (auto simp: a_def no_fg_nth nth_upd split: if_splits)
  qed
  have c: "jobs c = jobs a" "jobs_ok c" "\<not> chld_blocked c" using a by (simp_all add: c_def jobs_ok_def)
  obtain d where d: "deliver_all (arrive y Unblocking) c = Some d" "(if bg then Ret (d, ts) else waitfg p ts d) = Ret (t, us)"
    using r ub by (simp add: parent_def Let_def a_def [symmetric] c_def split: if_splits option.splits)
  have D: "jobs_ok d" "settles c d" "\<not> chld_blocked d" using deliver_all_ok [OF c(2) d(1)] c(3) by simp_all
  have fg: "\<not> bg \<and> pid (jobs d ! k) = p" if "k < length (jobs d)" "state (jobs d ! k) = FG" for k
  proof -
    have "k < length (jobs a)" "jobs d ! k = jobs a ! k" using D(2) that c(1) unfolding settles_def by fastforce+
    then show ?thesis using a that(2) by simp
  qed
  show ?thesis
  proof (cases bg)
    case True
    then have "no_fg d" using fg by (auto simp: no_fg_nth)
    then show ?thesis using d(2) D True by simp
  next
    case False
    then show ?thesis using waitfg_ok [of p ts d t us] d(2) D fg by simp
  qed
qed

text \<open>C13: between two command lines no job is in the foreground: if none is when
  \<open>eval\<close> is called, none is when it returns, whatever signals arrive meanwhile, for built-in
  commands and new jobs alike, and SIGCHLD is unblocked. The one signal left out is the report that
  the job that \<open>bg\<close> or \<open>fg\<close> resumes has ended, between its lookup and the write of its state: then the
  claim is false (\<open>fg_race\<close>). The kernel gives a new child an id no job has, and the calls of \<open>fork\<close>
  and of \<open>sigprocmask\<close> succeed.\<close>

theorem prompt_no_foreground:
  assumes "eval y ts line s = Ret (t, us)" "jobs_ok s" "no_fg s" "\<not> chld_blocked s"
    and "fork y = Inr p" "1 \<le> p" "job_of s p = None" "block_err y = None" "unblock_err y = None"
    and "\<And>argv bg q. parseline line = Some (argv, bg) \<Longrightarrow> resumed argv s = Some q \<Longrightarrow> survives q y"
  shows "jobs_ok t \<and> no_fg t \<and> \<not> chld_blocked t"
proof (cases "malloc_err y")
  case (Some e)
  then show ?thesis using assms by (auto simp: eval_def perror_def)
next
  case None
  then obtain argv bg where pl: "parseline line = Some (argv, bg)" using assms(1) by (auto simp: eval_def split: option.splits)
  then obtain b u vs where bi: "builtin_cmd y ts argv s = Ret (b, u, vs)"
    using assms(1) None by (auto simp: eval_def split: outcome.splits)
  show ?thesis
  proof (cases b)
    case True
    then show ?thesis using builtin_ok [OF bi assms(2,3) assms(10) [OF pl]] assms(1,4) None pl bi by (auto simp: eval_def)
  next
    case False
    then have u: "u = s" "vs = ts" using bi by (auto simp: builtin_cmd_def split: if_splits outcome.splits)
    let ?s = "s\<lparr>chld_blocked := True\<rparr>"
    have s: "jobs_ok ?s" "no_fg ?s" "job_of ?s p = None"
      using assms(2,3,7) by (auto simp: jobs_ok_def no_fg_def job_of_def split: if_splits)
    have "parent y ts bg p line ?s = Ret (t, us)"
      using assms(1,5,6,8) None pl bi False u by (simp add: eval_def Let_def)
    from parent_ok [OF this s(1,2) assms(6) s(3) assms(9)] show ?thesis .
  qed
qed

text \<open>A system that does what it is asked and forks the process 42, and a child that exits at once.\<close>

definition sys0 :: sys where
  "sys0 = \<lparr>malloc_err = None, block_err = None, fork = Inr 42, setpgid_err = None, execve_err = None, arrive = (\<lambda>_. []),
     unblock_err = None, kill_err = None\<rparr>"

lemma run_ls: "\<exists>t. eval sys0 [During (Chld [Child 42 (Exited 0)])] (''ls'' @ newline) shell0 = Ret (t, [])"
proof -
  have "(case eval sys0 [During (Chld [Child 42 (Exited 0)])] (''ls'' @ newline) shell0 of
      Ret (t, us) \<Rightarrow> us = [] | _ \<Rightarrow> False)"
    by code_simp
  then show ?thesis by (auto split: outcome.splits)
qed

theorem prompt_no_foreground_witness:
  "\<exists>t. eval sys0 [During (Chld [Child 42 (Exited 0)])] (''ls'' @ newline) shell0 = Ret (t, []) \<and> no_fg t \<and> \<not> chld_blocked t"
proof -
  obtain t where r: "eval sys0 [During (Chld [Child 42 (Exited 0)])] (''ls'' @ newline) shell0 = Ret (t, [])"
    using run_ls by blast
  have "no_fg shell0" "\<not> chld_blocked shell0" by (simp_all add: no_fg_def shell0_def initjobs_def)
  then show ?thesis using prompt_no_foreground [OF r shell0_ok(1)] shell0_ok(2) r by (auto simp: sys0_def survives_def)
qed

subsection \<open>The commands bg and fg and the keyboard\<close>

text \<open>C30: \<open>bg\<close> with the job id of a stopped job sends SIGCONT to its process group, marks the
  job running in the background, prints its line and changes no other job; a running job gets no
  signal. The argument is the id in decimal as the shell prints it, and no signal arrives meanwhile.\<close>

theorem bg_resumes:
  assumes "jobs_ok s" "getjobjid n s = Some i" "n < 2147483648" "kill_err y = None" "\<And>pt. arrive y pt = []"
  shows "\<exists>t. do_bgfg y ts [''bg'', CHR ''%'' # dec n] s = Ret (t, ts) \<and> jobs_ok t \<and>
    job_of t = (job_of s)(pid (jobs s ! i) \<mapsto> (jobs s ! i)\<lparr>state := BG\<rparr>) \<and>
    sent t = (if state (jobs s ! i) = ST then [(- pid (jobs s ! i), SIGCONT)] else []) @ sent s \<and>
    out t = out s @ job_line (jobs s ! i)"
proof -
  note g = getjobjid_some [OF assms(1,2)]
  have n: "1 \<le> n" using assms(2) by (simp add: getjobjid_def split: if_splits)
  have "strtol (dec n) = (n, [])" using n assms(3) by (intro strtol_dec) simp_all
  moreover have "to_int n = n" using n assms(3) by (simp add: to_int_def signed_take_bit_int_eq_self)
  ultimately have b: "bgfg_job ''bg'' (CHR ''%'' # dec n) s = Inr i" using assms(2) by (simp add: bgfg_job_def)
  define u where "u = (if state (jobs s ! i) = ST then s\<lparr>sent := (- pid (jobs s ! i), SIGCONT) # sent s\<rparr> else s)"
  have u: "jobs u = jobs s" "nextjid u = nextjid s" "out u = out s" "job_of u = job_of s" "jobs_ok u"
    using assms(1) by (auto simp: u_def job_of_def fun_eq_iff jobs_ok_def)
  let ?t = "set_state i BG (print (job_line (jobs s ! i)) u)"
  have r: "do_bgfg y ts [''bg'', CHR ''%'' # dec n] s = Ret (?t, ts)"
    using b assms(4,5) u(1) by (simp add: do_bgfg_def bgfg_run_def Let_def kill_def u_def)
  have iu: "i < length (jobs u)" "1 \<le> pid (jobs u ! i)" using g(1,3) u(1) by simp_all
  have k: "jobs_ok (set_state i BG u)" "job_of (set_state i BG u) = (job_of s)(pid (jobs s ! i) \<mapsto> (jobs s ! i)\<lparr>state := BG\<rparr>)"
    using set_state_ok [OF u(5) iu, of BG] u(1,4) by simp_all
  have "sent ?t = sent u" "out ?t = out s @ job_line (jobs s ! i)" using u(3) by (simp_all add: set_state_def print_def)
  moreover have "jobs_ok ?t" "job_of ?t = job_of (set_state i BG u)" using k(1) by simp_all
  ultimately show ?thesis using r k(2) by (intro exI [of _ ?t]) (simp add: u_def)
qed

text \<open>A shell with one stopped job, of process 42.\<close>

definition shell1 :: shell where
  "shell1 = set_state 0 ST (snd (addjob 42 FG ''ls'' shell0))"

lemma shell1_ok: "jobs_ok shell1" "jobs shell1 ! 0 = \<lparr>pid = 42, jid = 1, state = ST, cmdline = ''ls''\<rparr>" "length (jobs shell1) = 16"
proof -
  have i: "index (\<lambda>j. pid j = 0) (jobs shell0) = Some 0" "nextjid shell0 = 1" "length (jobs shell0) = 16"
    by (simp_all add: shell0_def initjobs_def MAXJOBS_def numeral_eq_Suc)
  obtain t where t: "addjob 42 FG ''ls'' shell0 = (True, t)" "jobs_ok t"
      "jobs t = (jobs shell0)[0 := \<lparr>pid = 42, jid = 1, state = FG, cmdline = ''ls''\<rparr>]"
    using addjob_free [OF shell0_ok(1) i(1), of 42 FG "''ls''"] shell0_ok(2) i(2) by auto
  then have "0 < length (jobs t)" "jobs t ! 0 = \<lparr>pid = 42, jid = 1, state = FG, cmdline = ''ls''\<rparr>" using i(3) by simp_all
  then show "jobs_ok shell1" "jobs shell1 ! 0 = \<lparr>pid = 42, jid = 1, state = ST, cmdline = ''ls''\<rparr>" "length (jobs shell1) = 16"
    using t set_state_ok(1) [OF t(2), of 0 ST] i(3) by (simp_all add: shell1_def set_state_def)
qed

theorem bg_resumes_witness:
  "\<exists>t. do_bgfg sys0 [] [''bg'', ''%1''] shell1 = Ret (t, []) \<and> sent t = (-42, SIGCONT) # sent shell1"
proof -
  have g: "getjobjid 1 shell1 = Some 0" using shell1_ok(2,3) by (cases "jobs shell1") (auto simp: getjobjid_def)
  have "CHR ''%'' # dec 1 = ''%1''" by code_simp
  then show ?thesis using bg_resumes [OF shell1_ok(1) g, of sys0 "[]"] shell1_ok(2) by (auto simp: sys0_def)
qed

text \<open>C31: ctrl-c and ctrl-z are passed on to the process group of the foreground job and
  to nothing else, and leave the job list as it is.\<close>

theorem keyboard_signals:
  assumes "jobs_ok s"
  shows "jobs (sigint_handler err s) = jobs s \<and> jobs (sigtstp_handler err s) = jobs s \<and>
    (if no_fg s then sigint_handler err s = s \<and> sigtstp_handler err s = s
     else \<exists>j\<in>set (jobs s). state j = FG \<and> sent (sigint_handler err s) = (- pid j, SIGINT) # sent s \<and>
       sent (sigtstp_handler err s) = (- pid j, SIGTSTP) # sent s)"
proof (cases "index (\<lambda>j. state j = FG) (jobs s)")
  case None
  then have "no_fg s" by (auto simp: index_none no_fg_def)
  then show ?thesis using None by (simp add: sigint_handler_def sigtstp_handler_def fgpid_def)
next
  case (Some i)
  have i: "i < length (jobs s)" "state (jobs s ! i) = FG" using index_some [OF Some] by simp_all
  then have j: "jobs s ! i \<in> set (jobs s)" by simp
  then have n: "\<not> no_fg s" using i(2) unfolding no_fg_def by blast
  have "slot_ok (jobs s ! i)" using jobs_okD(1) [OF assms i(1)] .
  then have "pid (jobs s ! i) \<noteq> 0" using i(2) by (auto simp: slot_ok_def)
  then have "sent (sigint_handler err s) = (- pid (jobs s ! i), SIGINT) # sent s"
      "sent (sigtstp_handler err s) = (- pid (jobs s ! i), SIGTSTP) # sent s"
    using Some by (simp_all add: sigint_handler_def sigtstp_handler_def fgpid_def kill_def Let_def perror_def print_def split: option.split)
  then show ?thesis using n i(2) j by auto
qed

theorem keyboard_signals_witness:
  "sent (sigint_handler None (set_state 0 FG shell1)) = (-42, SIGINT) # sent shell1"
proof -
  have "jobs_ok (set_state 0 FG shell1)" using set_state_ok(1) [OF shell1_ok(1), of 0 FG] shell1_ok(2,3) by simp
  moreover have "\<not> no_fg (set_state 0 FG shell1)" "map pid (filter (\<lambda>j. state j = FG) (jobs (set_state 0 FG shell1))) = [42]"
    by code_simp+
  moreover have "pid j = 42" if "j \<in> set (jobs (set_state 0 FG shell1))" "state j = FG" for j
  proof -
    have "pid j \<in> set (map pid (filter (\<lambda>j. state j = FG) (jobs (set_state 0 FG shell1))))" using that by simp
    then show ?thesis by (simp only: calculation(3)) simp
  qed
  ultimately show ?thesis using keyboard_signals [of "set_state 0 FG shell1" None] by (auto simp: set_state_def)
qed

subsection \<open>Where the code goes wrong\<close>

lemma fg_exit:
  assumes "jobs_ok s" "getjobpid p s = Some i" "\<not> chld_blocked s"
  shows "\<exists>t. deliver (Chld [Child p (Exited n)]) s = Some t \<and> job_of t p = None \<and> jobs t ! i = clearjob"
proof -
  note g = getjobpid_some [OF assms(1,2)]
  have "maxjid (jobs s) \<noteq> 0" using maxjid_empty [OF assms(1)] g(4) by force
  moreover have "jobs (snd (deletejob p s)) ! i = clearjob"
    using g(1,3) assms(2) by (simp add: deletejob_def getjobpid_def Let_def split: if_splits)
  ultimately show ?thesis using deletejob_ok [OF assms(1), of p] assms(3) by simp
qed

text \<open>C34: \<open>waitfg\<close> returns when the foreground job exits while the shell sleeps in \<open>pause\<close>;
  but if the signal arrives between the test of the job's state and the \<open>pause\<close>, the job is gone from
  the list and the shell sleeps until some other signal comes. With SIGCHLD blocked, as it is after a
  failed \<open>fork\<close>, the handler does not run and the job stays in the list: the shell sleeps on.\<close>

theorem waitfg_wakeup:
  assumes "jobs_ok s" "getjobpid p s = Some i" "state (jobs s ! i) = FG"
  shows "if chld_blocked s then waitfg p [During (Chld [Child p (Exited n)])] s = Block s
    else (\<exists>t. waitfg p (During (Chld [Child p (Exited n)]) # ts) s = Ret (t, ts) \<and> job_of t p = None) \<and>
      (\<exists>t. waitfg p [Before (Chld [Child p (Exited n)])] s = Block t \<and> job_of t p = None)"
proof (cases "chld_blocked s")
  case True
  then show ?thesis using assms(2,3) getjobpid_some(2) [OF assms(1,2)] by (simp add: waitfg_def waitfg_loop.simps)
next
  case False
  note g = getjobpid_some [OF assms(1,2)]
  obtain t where t: "deliver (Chld [Child p (Exited n)]) s = Some t" "job_of t p = None" "jobs t ! i = clearjob"
    using fg_exit [OF assms(1,2) False] by blast
  have "waitfg_loop i p False ts t = Ret (t, ts)" "waitfg_loop i p True [] t = Block t" for ts
    using t(3) by (simp_all add: waitfg_loop.simps)
  then have "waitfg p (During (Chld [Child p (Exited n)]) # ts) s = Ret (t, ts)"
      "waitfg p [Before (Chld [Child p (Exited n)])] s = Block t"
    using assms(2,3) g(2) t(1) by (simp_all add: waitfg_def waitfg_loop.simps [of i p False] del: deliver.simps)
  with t(2) False show ?thesis by simp
qed

lemma shell2_ok:
  "jobs_ok (set_state 0 FG shell1)" "getjobpid 42 (set_state 0 FG shell1) = Some 0"
  "state (jobs (set_state 0 FG shell1) ! 0) = FG"
proof -
  show "jobs_ok (set_state 0 FG shell1)" using set_state_ok(1) [OF shell1_ok(1), of 0 FG] shell1_ok(2,3) by simp
  have "jobs (set_state 0 FG shell1) ! 0 = \<lparr>pid = 42, jid = 1, state = FG, cmdline = ''ls''\<rparr>"
    using shell1_ok(2,3) by (simp add: set_state_def)
  moreover have "length (jobs (set_state 0 FG shell1)) = 16" using shell1_ok(3) by (simp add: set_state_def)
  ultimately show "getjobpid 42 (set_state 0 FG shell1) = Some 0" "state (jobs (set_state 0 FG shell1) ! 0) = FG"
    by (cases "jobs (set_state 0 FG shell1)"; simp add: getjobpid_def)+
qed

theorem waitfg_wakeup_witness:
  "\<exists>t. waitfg 42 [Before (Chld [Child 42 (Exited 0)])] (set_state 0 FG shell1) = Block t \<and> job_of t 42 = None"
proof -
  have "\<not> chld_blocked (set_state 0 FG shell1)" by code_simp
  then show ?thesis using waitfg_wakeup [OF shell2_ok, of 0 "[]"] by (simp split: if_splits)
qed

text \<open>The race that the claim on the prompt leaves out: \<open>fg\<close> looks up a stopped job and continues
  it, and the job ends before its state is written. The handler clears its slot, \<open>do_bgfg\<close> marks the empty
  slot as the foreground job, and it stays so at the prompt: a slot in state \<open>FG\<close> with process 0.\<close>

lemma fg_race:
  assumes "jobs_ok s" "getjobjid n s = Some i" "n < 2147483648" "kill_err y = None" "\<not> chld_blocked s"
    and "\<And>pt. arrive y pt = (if pt = Resumed then [Chld [Child (pid (jobs s ! i)) (Exited k)]] else [])"
  shows "\<exists>t. do_bgfg y ts [''fg'', CHR ''%'' # dec n] s = Ret (t, ts) \<and>
    jobs t = (jobs s)[i := clearjob\<lparr>state := FG\<rparr>] \<and> \<not> no_fg t \<and> \<not> jobs_ok t"
proof -
  note g = getjobjid_some [OF assms(1,2)]
  have n: "1 \<le> n" using assms(2) by (simp add: getjobjid_def split: if_splits)
  have "strtol (dec n) = (n, [])" "to_int n = n"
    using n assms(3) by (auto intro: strtol_dec simp: to_int_def signed_take_bit_int_eq_self)
  then have b: "bgfg_job ''fg'' (CHR ''%'' # dec n) s = Inr i" using assms(2) by (simp add: bgfg_job_def)
  define u where "u = (if state (jobs s ! i) = ST then s\<lparr>sent := (- pid (jobs s ! i), SIGCONT) # sent s\<rparr> else s)"
  let ?p = "pid (jobs s ! i)"
  have u: "jobs u = jobs s" "jobs_ok u" "\<not> chld_blocked u" using assms(1,5) by (auto simp: u_def jobs_ok_def)
  have ix: "index (\<lambda>j. pid j = ?p) (jobs u) = Some i"
    using g(1,3) assms(1) u(1) by (intro index_pid) (auto simp: jobs_ok_def)
  have pu: "getjobpid ?p u = Some i" using ix g(3) by (simp add: getjobpid_def)
  obtain v where v: "deliver (Chld [Child ?p (Exited k)]) u = Some v" "job_of v ?p = None" "jobs v ! i = clearjob"
    using fg_exit [OF u(2) pu u(3)] by blast
  have jv: "jobs v = (jobs s)[i := clearjob]"
    using v(1) u(1,3) ix g(3) maxjid_empty [OF u(2)] getjobpid_some(4) [OF u(2) pu]
    by (auto simp: deletejob_def Let_def split: if_splits)
  let ?t = "set_state i FG v"
  have "getjobpid ?p ?t = None"
  proof -
    have "index (\<lambda>j. pid j = ?p) (jobs ?t) = None"
      using v(2) g(3) set_update_subset_insert [of "jobs v" i "clearjob\<lparr>state := FG\<rparr>"]
      by (auto simp: index_none job_of_def set_state_def v(3))
    then show ?thesis by (simp add: getjobpid_def)
  qed
  then have w: "waitfg ?p ts ?t = Ret (?t, ts)" by (simp add: waitfg_def)
  have r: "do_bgfg y ts [''fg'', CHR ''%'' # dec n] s = Ret (?t, ts)"
    using b assms(4,6) v(1) w
    by (cases "state (jobs s ! i) = ST") (simp_all add: do_bgfg_def bgfg_run_def Let_def kill_def u_def del: deliver.simps)
  have jt: "jobs ?t = (jobs s)[i := clearjob\<lparr>state := FG\<rparr>]" using jv g(1) by (simp add: set_state_def)
  then have m: "clearjob\<lparr>state := FG\<rparr> \<in> set (jobs ?t)" using g(1) by (simp add: set_update_memI)
  then have "\<not> no_fg ?t" "\<not> jobs_ok ?t" by (force simp: no_fg_def, force simp: jobs_ok_def slot_ok_def clearjob_def)
  then show ?thesis using r jt by blast
qed

text \<open>C35: \<open>eval\<close> compares \<open>argv[0]\<close> with the names of the built-in commands before it
  looks whether there is an argument, so a blank line, or a lone ampersand, makes it follow a null pointer. (A blank line of 1024 characters or
  more, which \<open>fgets\<close> does not return, overruns the buffer of \<open>parseline\<close> before.)\<close>

theorem blank_line_crashes:
  assumes "malloc_err y = None"
  shows "eval y ts (replicate k (CHR '' '') @ newline) s = Crash \<and> eval y ts (''&'' @ newline) s = Crash"
proof -
  have "skip (CHR '' '') (replicate k (CHR '' '') @ '' '') = []" by simp
  then have "parseline (replicate k (CHR '' '') @ newline) \<in> {None, Some ([], True)}"
    by (simp add: parseline_def newline_def butlast_append parse_args.simps [of "[]"] next_arg_def MAXARGS_def)
  moreover have "parseline (''&'' @ newline) = Some ([], True)" by code_simp
  ultimately show ?thesis using assms by (auto simp: eval_def builtin_cmd_def)
qed

theorem blank_line_crashes_witness: "eval sys0 [] newline shell0 = Crash"
  using blank_line_crashes [of sys0 "[]" 0 shell0] by (simp add: sys0_def)

text \<open>C36: with a full job list \<open>addjob\<close> fails and \<open>eval\<close> does not notice: a new
  background job makes it follow the null pointer \<open>getjobpid\<close> returns, and if the new child is
  killed by a signal, the SIGCHLD handler does.\<close>

theorem seventeenth_job_crashes:
  assumes "jobs_ok s" "length (live (jobs s)) = 16" "1 \<le> p" "job_of s p = None"
  shows "parent y ts True p line s = Crash \<and> sigchld_handler (Child p (Signaled n) # ws) s = None"
proof -
  have "index (\<lambda>j. pid j = 0) (jobs s) = None"
    using assms(2) live_less [of "jobs s"] jobs_okD(2) [OF assms(1)] by (simp add: index_none)
  then have "snd (addjob p BG line s) = print (''Tried to create too many jobs'' @ newline) s"
    using addjob_full [OF assms(1)] assms(3) by simp
  then have a: "parent y ts True p line s = Crash"
    using getjobpid_none [of p s] assms(4) by (simp add: parent_def Let_def)
  have "maxjid (jobs s) \<noteq> 0"
  proof
    assume "maxjid (jobs s) = 0"
    then have e: "job_of s = Map.empty" using maxjid_empty [OF assms(1)] by simp
    have "live (jobs s) \<noteq> []" using assms(2) by auto
    then obtain q where "q \<in> set (live (jobs s))" using list.set_intros(1) by (cases "live (jobs s)") auto
    then obtain j where j: "j \<in> set (jobs s)" "pid j = q" "q \<noteq> 0" by (auto simp: in_live)
    then have "slot_ok j" using assms(1) by (simp add: jobs_ok_def)
    then have "1 \<le> q" using j by (auto simp: slot_ok_def)
    then have "job_of s q = Some j" using job_of_iff [OF assms(1)] j by blast
    then show False using e by simp
  qed
  then show ?thesis using a sigchld_steps(2) [OF assms(1) _ assms(4)] by simp
qed

text \<open>Sixteen background jobs.\<close>

definition shell16 :: shell where
  "shell16 = fold (\<lambda>p s. snd (addjob p BG ''sleep'' s)) [101..116] shell0"

lemma shell16_ok: "jobs_ok shell16" "length (live (jobs shell16)) = 16" "job_of shell16 117 = None"
proof -
  have "length (jobs shell16) = 16 \<and> list_all (\<lambda>j. 1 \<le> pid j \<and> 1 \<le> jid j \<and> state j \<noteq> UNDEF) (jobs shell16) \<and>
      distinct (live (jobs shell16)) \<and> 1 \<le> nextjid shell16" by code_simp
  then show "jobs_ok shell16" by (auto simp: jobs_ok_def slot_ok_def list_all_iff MAXJOBS_def)
  show "length (live (jobs shell16)) = 16" by code_simp
  have "getjobpid 117 shell16 = None" by code_simp
  then show "job_of shell16 117 = None" by (simp add: getjobpid_none)
qed

theorem seventeenth_job_crashes_witness: "parent sys0 [] True 117 (''sleep'' @ newline) shell16 = Crash"
  using seventeenth_job_crashes [OF shell16_ok(1,2) _ shell16_ok(3), of sys0 "[]"] by simp

text \<open>When \<open>fork\<close> fails, \<open>eval\<close> prints the error and returns to the prompt with
  SIGCHLD still blocked: children that end from then on are not reaped.\<close>

lemma fork_failure_blocks:
  assumes "malloc_err y = None" "block_err y = None" "fork y = Inl e" "parseline line = Some (argv, bg)" "argv \<noteq> []"
    and "argv ! 0 \<notin> {''quit'', ''jobs'', ''bg'', ''fg''}"
  shows "\<exists>t. eval y ts line s = Ret (t, ts) \<and> chld_blocked t \<and> out t = out s @ ''fork: '' @ e @ newline \<and> jobs t = jobs s"
  using assms by (auto simp: eval_def builtin_cmd_def perror_def print_def)

lemma fork_failure_blocks_witness:
  "\<exists>t. eval (sys0\<lparr>fork := Inl ''EAGAIN''\<rparr>) [] (''ls'' @ newline) shell0 = Ret (t, []) \<and> chld_blocked t"
proof -
  have "parseline (''ls'' @ newline) = Some ([''ls''], False)" by code_simp
  then show ?thesis
    using fork_failure_blocks [of "sys0\<lparr>fork := Inl ''EAGAIN''\<rparr>" "''EAGAIN''" "''ls'' @ newline" "[''ls'']" False "[]" shell0]
    by (auto simp: sys0_def)
qed

subsection \<open>Job ids\<close>

text \<open>The jobs in the list have different ids, all below the next one.\<close>

definition jids_ok :: "shell \<Rightarrow> bool" where
  "jids_ok s \<longleftrightarrow> (\<forall>j\<in>set (jobs s). jid j < nextjid s) \<and> distinct (filter (\<lambda>n. n \<noteq> 0) (map jid (jobs s)))"

text \<open>Give out ids: a positive number adds the process, a negative one ends it.\<close>

fun churn :: "int list \<Rightarrow> shell \<Rightarrow> shell" where
  "churn [] s = s"
| "churn (p # ps) s = churn ps (snd (if 0 < p then addjob p BG ''sleep'' s else deletejob (- p) s))"

definition ids :: "job_t list \<Rightarrow> int list" where
  "ids js = filter (\<lambda>n. n \<noteq> 0) (map jid js)"

lemma ids_simps [simp]: "ids [] = []" "ids (j # js) = (if jid j = 0 then ids js else jid j # ids js)" "ids (xs @ ys) = ids xs @ ids ys"
  by (simp_all add: ids_def)

lemma in_ids: "n \<in> set (ids js) \<longleftrightarrow> n \<noteq> 0 \<and> (\<exists>j\<in>set js. jid j = n)"
  by (auto simp: ids_def)

lemma ids_update:
  assumes "i < length js" "distinct (ids js)" "jid j = 0 \<or> (\<forall>k\<in>set js. jid k \<noteq> jid j)"
  shows "distinct (ids (js[i := j]))"
proof -
  obtain us vs where js: "js = us @ (js ! i) # vs" "length us = i" using split_at [OF assms(1)] by blast
  have "(us @ (js ! i) # vs)[length us := j] = us @ j # vs" by (rule list_update_length)
  then have u: "js[i := j] = us @ j # vs" using js by metis
  have d: "distinct (ids (us @ (js ! i) # vs))" using assms(2) js(1) by metis
  have "\<forall>k\<in>set us \<union> set vs. k \<in> set js" using js(1) by (metis Un_iff list.set_intros(2) set_append)
  then show ?thesis using d assms(3) by (auto simp: u in_ids split: if_splits)
qed

text \<open>C32: as long as the counter has not passed 15, a new job gets an id that differs
  from all others in the list, and ending a job keeps the ids apart.\<close>

theorem job_ids_distinct:
  assumes "jobs_ok s" "jids_ok s" "nextjid s < 16" "1 \<le> p" "job_of s p = None" "st \<noteq> UNDEF"
  shows "jids_ok (snd (addjob p st cmd s)) \<and> jids_ok (snd (deletejob q s))"
proof
  have J: "distinct (ids (jobs s))" "\<forall>j\<in>set (jobs s). jid j < nextjid s" using assms(2) by (simp_all add: jids_ok_def ids_def)
  have n: "1 \<le> nextjid s" using assms(1) by (simp add: jobs_ok_def)
  show "jids_ok (snd (addjob p st cmd s))"
  proof (cases "index (\<lambda>j. pid j = 0) (jobs s)")
    case None
    then show ?thesis using assms(2,4) by (simp add: addjob_full [OF assms(1) None] jids_ok_def)
  next
    case (Some i)
    let ?j = "\<lparr>pid = p, jid = nextjid s, state = st, cmdline = cmd\<rparr>"
    obtain t where t: "addjob p st cmd s = (True, t)" "jobs t = (jobs s)[i := ?j]" "nextjid t = nextjid s + 1"
      using addjob_free [OF assms(1) Some assms(4-6), of cmd] assms(3) by auto
    have "distinct (ids (jobs t))"
      unfolding t(2) using J index_some [OF Some] by (intro ids_update) auto
    moreover have "\<forall>j\<in>set (jobs t). jid j < nextjid t"
      using J(2) set_update_subset_insert [of "jobs s" i ?j] by (fastforce simp: t(2,3))
    ultimately show ?thesis using t(1) by (simp add: jids_ok_def ids_def)
  qed
  show "jids_ok (snd (deletejob q s))"
  proof (cases "q < 1 \<or> index (\<lambda>j. pid j = q) (jobs s) = None")
    case True
    then show ?thesis using assms(2) by (auto simp: deletejob_def)
  next
    case False
    then obtain i where i: "index (\<lambda>j. pid j = q) (jobs s) = Some i" by auto
    let ?js = "(jobs s)[i := clearjob]"
    have "distinct (ids ?js)" using J index_some [OF i] by (intro ids_update) simp_all
    moreover have "\<forall>j\<in>set ?js. jid j < maxjid ?js + 1" using maxjid_ge(1) by fastforce
    ultimately show ?thesis using False i by (simp add: deletejob_def Let_def jids_ok_def ids_def)
  qed
qed

theorem job_ids_distinct_witness: "jids_ok (snd (addjob 42 FG ''ls'' shell0))"
proof -
  have "jids_ok shell0" "nextjid shell0 = 1"
    by (simp_all add: jids_ok_def shell0_def initjobs_def MAXJOBS_def numeral_eq_Suc)
  then show ?thesis using job_ids_distinct [OF shell0_ok(1), of 42 FG] shell0_ok(2) by simp
qed

lemma ids_inj: "distinct (ids js) \<Longrightarrow> j \<in> set js \<Longrightarrow> k \<in> set js \<Longrightarrow> jid j = jid k \<Longrightarrow> jid j \<noteq> 0 \<Longrightarrow> j = k"
proof (induction js)
  case (Cons a js)
  then show ?case using in_ids [of "jid a" js] by (auto split: if_splits)
qed simp

lemma live_update: "length (live (js[i := j])) \<le> Suc (length (live js))"
proof (cases "i < length js")
  case True
  obtain us vs where js: "js = us @ (js ! i) # vs" "length us = i" using split_at [OF True] by blast
  have "(us @ (js ! i) # vs)[length us := j] = us @ j # vs" by (rule list_update_length)
  then have u: "js[i := j] = us @ j # vs" using js by metis
  have "length (live (us @ (js ! i) # vs)) = length (live js)" using js(1) by metis
  then show ?thesis unfolding u by (auto split: if_splits)
qed (simp add: list_update_beyond)

text \<open>C33: the counter starts again at 1 although job 1 may still be there. On every
  well-formed list with a job 1, a counter past 15 and two free slots, the second of the next two jobs also
  gets the id 1: the old job stays, the ids are no longer apart, and a lookup by that id finds only one of the two.\<close>

theorem duplicate_job_ids:
  assumes "jobs_ok s" "getjobjid 1 s = Some i" "16 \<le> nextjid s" "length (live (jobs s)) < 15"
    and "1 \<le> p" "1 \<le> q" "p \<noteq> q" "job_of s p = None" "job_of s q = None" "st \<noteq> UNDEF"
    and "t = snd (addjob q st d (snd (addjob p st c s)))"
  shows "job_of t (pid (jobs s ! i)) = Some (jobs s ! i) \<and> jid (jobs s ! i) = 1 \<and>
    job_of t q = Some \<lparr>pid = q, jid = 1, state = st, cmdline = d\<rparr> \<and> pid (jobs s ! i) \<noteq> q \<and> \<not> jids_ok t"
proof -
  note g = getjobjid_some [OF assms(1,2)]
  have len: "length (jobs s) = 16" using jobs_okD(2) [OF assms(1)] .
  obtain a where a: "index (\<lambda>j. pid j = 0) (jobs s) = Some a"
    using assms(4) len live_less [of "jobs s"] index_none [of "\<lambda>j. pid j = 0" "jobs s"] by (cases "index (\<lambda>j. pid j = 0) (jobs s)") auto
  obtain u where u: "addjob p st c s = (True, u)" "jobs_ok u" "nextjid u = 1"
      "job_of u = (job_of s)(p \<mapsto> \<lparr>pid = p, jid = nextjid s, state = st, cmdline = c\<rparr>)"
      "jobs u = (jobs s)[a := \<lparr>pid = p, jid = nextjid s, state = st, cmdline = c\<rparr>]"
    using addjob_free [OF assms(1) a assms(5,8,10), of c] assms(3) by auto
  have "length (live (jobs u)) < 16" 
    using live_update [of "jobs s" a "\<lparr>pid = p, jid = nextjid s, state = st, cmdline = c\<rparr>"] assms(4) unfolding u(5) by linarith
  then obtain b where b: "index (\<lambda>j. pid j = 0) (jobs u) = Some b"
    using jobs_okD(2) [OF u(2)] live_less [of "jobs u"] index_none [of "\<lambda>j. pid j = 0" "jobs u"] by (cases "index (\<lambda>j. pid j = 0) (jobs u)") auto
  have "job_of u q = None" using u(4) assms(7,9) by simp
  then obtain v where v: "addjob q st d u = (True, v)" "jobs_ok v"
      "job_of v = (job_of u)(q \<mapsto> \<lparr>pid = q, jid = 1, state = st, cmdline = d\<rparr>)"
    using addjob_free [OF u(2) b assms(6) _ assms(10), of d] u(3) by auto
  have t: "t = v" using assms(11) u(1) v(1) by simp
  have np: "pid (jobs s ! i) \<noteq> p" "pid (jobs s ! i) \<noteq> q" using g(4) assms(8,9) by auto
  then have j: "job_of t (pid (jobs s ! i)) = Some (jobs s ! i)" "job_of t q = Some \<lparr>pid = q, jid = 1, state = st, cmdline = d\<rparr>"
    using g(4) u(4) v(3) t by simp_all
  have "\<not> distinct (ids (jobs t))"
  proof
    assume d: "distinct (ids (jobs t))"
    have m: "jobs s ! i \<in> set (jobs t)" "\<lparr>pid = q, jid = 1, state = st, cmdline = d\<rparr> \<in> set (jobs t)"
      using j job_of_iff [of t] v(2) t by blast+
    from ids_inj [OF d this] g(2) np(2) show False by auto
  qed
  then show ?thesis using j g(2) np by (simp add: jids_ok_def ids_def)
qed

text \<open>Fifteen jobs, all but the first and the last of them ended.\<close>

definition shell2 :: shell where
  "shell2 = churn ([101..115] @ map uminus [102..114]) shell0"

theorem duplicate_job_ids_witness:
  "map_option jid (job_of (snd (addjob 117 BG ''ls'' (snd (addjob 116 BG ''ls'' shell2)))) 101) = Some 1 \<and>
   map_option jid (job_of (snd (addjob 117 BG ''ls'' (snd (addjob 116 BG ''ls'' shell2)))) 117) = Some 1"
proof -
  have "length (jobs shell2) = 16 \<and> list_all (\<lambda>j. j = clearjob \<or> 1 \<le> pid j \<and> 1 \<le> jid j \<and> state j \<noteq> UNDEF) (jobs shell2) \<and>
      live (jobs shell2) = [101, 115] \<and> nextjid shell2 = 16" by code_simp
  then have ok: "jobs_ok shell2" "16 \<le> nextjid shell2" "length (live (jobs shell2)) < 15"
    by (auto simp: jobs_ok_def slot_ok_def list_all_iff MAXJOBS_def)
  have g: "getjobjid 1 shell2 = Some 0" "pid (jobs shell2 ! 0) = 101" "jid (jobs shell2 ! 0) = 1"
    "getjobpid 116 shell2 = None" "getjobpid 117 shell2 = None" by code_simp+
  then show ?thesis
    using duplicate_job_ids [OF ok(1) g(1) ok(2,3), of 116 117 BG _ "''ls''" "''ls''", OF _ _ _ _ _ _ refl]
    by (simp add: getjobpid_none)
qed

end
