(* ===== verification/Rio.thy ===== *)
theory Rio
  imports Main "HOL-Library.Monad_Syntax"
begin

text \<open>
  Descriptors and the robust I/O package of \<open>proxylab-handout/csapp.c\<close>. What a descriptor gives to
  \<open>read\<close> is a list of the answers of the system: some bytes that have arrived, an interruption by a
  signal (\<open>EINTR\<close>), or another error; its end is the end of the file. What it says to \<open>write\<close>
  is a list of answers too: how many bytes it takes (at least one), an interruption or an error; at
  the end of the list it takes everything. A call gives less than asked for when less has arrived.
\<close>

subsection \<open>read and write\<close>

datatype arrival = Data string | Intr | Fail

datatype got = Got string | Interrupted | Failed

fun read :: "nat \<Rightarrow> arrival list \<Rightarrow> got \<times> arrival list" where
  "read n [] = (Got [], [])"
| "read n (Intr # as) = (Interrupted, as)"
| "read n (Fail # as) = (Failed, as)"
| "read n (Data s # as) = (Got (take n s), if length s \<le> n then as else Data (drop n s) # as)"

datatype taking = Took nat | WIntr | WFail

datatype put' = Put nat | PInterrupted | PFailed

text \<open>\<open>Took k\<close> stands for a call that takes at most \<open>k + 1\<close> bytes.\<close>

fun write' :: "nat \<Rightarrow> taking list \<Rightarrow> put' \<times> taking list" where
  "write' n [] = (Put n, [])"
| "write' n (Took k # ws) = (Put (min (Suc k) n), ws)"
| "write' n (WIntr # ws) = (PInterrupted, ws)"
| "write' n (WFail # ws) = (PFailed, ws)"

subsection \<open>Unbuffered routines\<close>

text \<open>The loop of \<open>rio_readn\<close>: \<open>nleft\<close>, and the bytes already in the user's buffer. The result is
  these bytes, whose number the function returns, or \<open>None\<close> for -1.\<close>

function rio_readn_loop :: "nat \<Rightarrow> string \<Rightarrow> arrival list \<Rightarrow> string option \<times> arrival list" where
  "rio_readn_loop nleft buf as =
    (if nleft > 0
     then (case read nleft as of
         (Interrupted, as) \<Rightarrow> rio_readn_loop nleft buf as
       | (Failed, as) \<Rightarrow> (None, as)
       | (Got s, as) \<Rightarrow> if s = [] then (Some buf, as) else rio_readn_loop (nleft - length s) (buf @ s) as)
     else (Some buf, as))"
  by pat_completeness auto
termination
proof (relation "measure (\<lambda>(nleft, buf, as). nleft + length as)", goal_cases)
  case (3 nleft buf as r as')
  then have "length as' < length as" by (cases "(nleft, as)" rule: read.cases) (auto split: if_splits)
  then show ?case by simp
next
  case (2 nleft buf as r as' s)
  then have "length as' \<le> length as" by (cases "(nleft, as)" rule: read.cases) (auto split: if_splits)
  moreover have "nleft - length s < nleft" using 2 by simp
  ultimately have "nleft - length s + length as' < nleft + length as" by (rule add_less_le_mono [rotated])
  then show ?case by simp
qed simp

definition rio_readn :: "nat \<Rightarrow> arrival list \<Rightarrow> string option \<times> arrival list" where
  "rio_readn n as = rio_readn_loop n [] as"

text \<open>The loop of \<open>rio_writen\<close>: the rest of the user's buffer and what has been written.\<close>

function rio_writen_loop :: "string \<Rightarrow> string \<Rightarrow> taking list \<Rightarrow> bool \<times> string \<times> taking list" where
  "rio_writen_loop buf out ws =
    (if length buf > 0
     then (case write' (length buf) ws of
         (PInterrupted, ws) \<Rightarrow> rio_writen_loop buf out ws
       | (PFailed, ws) \<Rightarrow> (False, out, ws)
       | (Put k, ws) \<Rightarrow> rio_writen_loop (drop k buf) (out @ take k buf) ws)
     else (True, out, ws))"
  by pat_completeness auto
termination
proof (relation "measure (\<lambda>(buf, out, ws). length buf + length ws)", goal_cases)
  case (3 buf out ws r ws')
  then have "length ws' < length ws" by (cases "(length buf, ws)" rule: write'.cases) auto
  then show ?case by simp
next
  case (2 buf out ws r ws' k)
  then have "0 < k \<and> length ws' \<le> length ws" by (cases "(length buf, ws)" rule: write'.cases) auto
  moreover from this have "length buf - k < length buf" using 2(1) by simp
  ultimately have "length buf - k + length ws' < length buf + length ws" by linarith
  then show ?case by simp
qed simp

definition rio_writen :: "string \<Rightarrow> string \<Rightarrow> taking list \<Rightarrow> bool \<times> string \<times> taking list" where
  "rio_writen buf out ws = rio_writen_loop buf out ws"

declare rio_readn_loop.simps [simp del] rio_writen_loop.simps [simp del]

subsection \<open>Buffered routines\<close>

text \<open>A \<open>rio_t\<close>: the descriptor, \<open>rio_cnt\<close>, and the bytes from \<open>rio_bufptr\<close> on.\<close>

record rio_t =
  rio_fd :: "arrival list"
  rio_cnt :: int
  rio_buf :: string

definition RIO_BUFSIZE :: nat where
  "RIO_BUFSIZE = 8192"

definition rio_readinitb :: "arrival list \<Rightarrow> rio_t" where
  "rio_readinitb fd = \<lparr>rio_fd = fd, rio_cnt = 0, rio_buf = []\<rparr>"

text \<open>The loop of \<open>rio_read\<close> that refills the buffer; the result 1 is that it is not empty, 0 the end
  of the file and -1 an error.\<close>

function rio_refill :: "rio_t \<Rightarrow> int \<times> rio_t" where
  "rio_refill rp =
    (if rio_cnt rp \<le> 0
     then (case read RIO_BUFSIZE (rio_fd rp) of
         (Interrupted, as) \<Rightarrow> rio_refill (rp\<lparr>rio_fd := as, rio_cnt := - 1\<rparr>)
       | (Failed, as) \<Rightarrow> (- 1, rp\<lparr>rio_fd := as, rio_cnt := - 1\<rparr>)
       | (Got s, as) \<Rightarrow>
           if s = [] then (0, rp\<lparr>rio_fd := as, rio_cnt := 0\<rparr>)
           else (1, rp\<lparr>rio_fd := as, rio_cnt := int (length s), rio_buf := s\<rparr>))
     else (1, rp))"
  by pat_completeness auto
termination
proof (relation "measure (\<lambda>rp. length (rio_fd rp))", goal_cases)
  case (2 rp r as)
  then have "length as < length (rio_fd rp)" by (cases "(RIO_BUFSIZE, rio_fd rp)" rule: read.cases) (auto split: if_splits)
  then show ?case by simp
qed simp

declare rio_refill.simps [simp del]

definition rio_read :: "rio_t \<Rightarrow> nat \<Rightarrow> string option \<times> rio_t" where
  "rio_read rp n =
    (case rio_refill rp of
       (r, rp) \<Rightarrow>
         if r < 0 then (None, rp)
         else if r = 0 then (Some [], rp)
         else let cnt = (if rio_cnt rp < int n then nat (rio_cnt rp) else n)
              in (Some (take cnt (rio_buf rp)), rp\<lparr>rio_buf := drop cnt (rio_buf rp), rio_cnt := rio_cnt rp - int cnt\<rparr>))"

function rio_readnb_loop :: "nat \<Rightarrow> string \<Rightarrow> rio_t \<Rightarrow> string option \<times> rio_t" where
  "rio_readnb_loop nleft buf rp =
    (if nleft > 0
     then (case rio_read rp nleft of
         (None, rp) \<Rightarrow> (None, rp)
       | (Some s, rp) \<Rightarrow> if s = [] then (Some buf, rp) else rio_readnb_loop (nleft - length s) (buf @ s) rp)
     else (Some buf, rp))"
  by pat_completeness auto
termination
  by (relation "measure (\<lambda>(nleft, buf, rp). nleft)") auto

definition rio_readnb :: "rio_t \<Rightarrow> nat \<Rightarrow> string option \<times> rio_t" where
  "rio_readnb rp n = rio_readnb_loop n [] rp"

text \<open>The loop of \<open>rio_readlineb\<close>; the result is the number returned and the text in the user's
  buffer, which a NUL is written behind, or \<open>None\<close> for -1. \<open>n\<close> is an \<open>int\<close>: the outer \<open>None\<close> is its overflow.\<close>

function rio_readlineb_loop :: "nat \<Rightarrow> nat \<Rightarrow> string \<Rightarrow> rio_t \<Rightarrow> ((nat \<times> string) option \<times> rio_t) option" where
  "rio_readlineb_loop n maxlen buf rp =
    (if n < maxlen
     then (case rio_read rp 1 of
         (None, rp) \<Rightarrow> Some (None, rp)
       | (Some [], rp) \<Rightarrow> if n = 1 then Some (Some (0, buf), rp) else Some (Some (n, buf), rp)
       | (Some (c # _), rp) \<Rightarrow>
           if c = CHR 0x0A then Some (Some (n, buf @ [c]), rp)
           else if n + 1 < 2 ^ 31 then rio_readlineb_loop (n + 1) maxlen (buf @ [c]) rp else None)
     else Some (Some (n, buf), rp))"
  by pat_completeness auto
termination
  by (relation "measure (\<lambda>(n, maxlen, buf, rp). maxlen - n)") auto

definition rio_readlineb :: "rio_t \<Rightarrow> nat \<Rightarrow> ((nat \<times> string) option \<times> rio_t) option" where
  "rio_readlineb rp maxlen = rio_readlineb_loop 1 maxlen [] rp"

declare rio_readnb_loop.simps [simp del] rio_readlineb_loop.simps [simp del]

text \<open>The wrappers, which end the program when a routine fails; here that is \<open>None\<close>.\<close>

definition Rio_readn :: "nat \<Rightarrow> arrival list \<Rightarrow> (string \<times> arrival list) option" where
  "Rio_readn n as = (case rio_readn n as of (Some s, as) \<Rightarrow> Some (s, as) | (None, as) \<Rightarrow> None)"

definition Rio_writen :: "string \<Rightarrow> string \<Rightarrow> taking list \<Rightarrow> (string \<times> taking list) option" where
  "Rio_writen buf out ws = (case rio_writen buf out ws of (ok, out, ws) \<Rightarrow> if ok then Some (out, ws) else None)"

definition Rio_readinitb :: "arrival list \<Rightarrow> rio_t" where
  "Rio_readinitb fd = rio_readinitb fd"

definition Rio_readnb :: "rio_t \<Rightarrow> nat \<Rightarrow> (string \<times> rio_t) option" where
  "Rio_readnb rp n = (case rio_readnb rp n of (Some s, rp) \<Rightarrow> Some (s, rp) | (None, rp) \<Rightarrow> None)"

definition Rio_readlineb :: "rio_t \<Rightarrow> nat \<Rightarrow> ((nat \<times> string) \<times> rio_t) option" where
  "Rio_readlineb rp maxlen = (case rio_readlineb rp maxlen of Some (Some l, rp) \<Rightarrow> Some (l, rp) | _ \<Rightarrow> None)"

subsection \<open>What a descriptor still has to give\<close>

primrec arrived :: "arrival list \<Rightarrow> string" where
  "arrived [] = []"
| "arrived (a # as) = (case a of Data s \<Rightarrow> s @ arrived as | _ \<Rightarrow> arrived as)"

definition clean :: "arrival list \<Rightarrow> bool" where
  "clean as \<longleftrightarrow> Fail \<notin> set as \<and> Data [] \<notin> set as"

lemma read_clean:
  assumes "clean as" "0 < n"
  shows "case read n as of
      (Got s, as') \<Rightarrow> clean as' \<and> arrived as = s @ arrived as' \<and> length s \<le> n \<and> (s = [] \<longleftrightarrow> arrived as = [])
    | (Interrupted, as') \<Rightarrow> clean as' \<and> arrived as = arrived as' \<and> length as' < length as
    | (Failed, _) \<Rightarrow> False"
  using assms by (cases "(n, as)" rule: read.cases) (auto simp: clean_def)

text \<open>The contract of a reader: \<open>get n s\<close> gives the next \<open>n\<close> bytes, or what is left.\<close>

locale source =
  fixes get :: "nat \<Rightarrow> 's \<Rightarrow> string option \<times> 's"
    and pending :: "'s \<Rightarrow> string"
    and ok :: "'s \<Rightarrow> bool"
  assumes get: "ok s \<Longrightarrow> \<exists>s'. get n s = (Some (take n (pending s)), s') \<and> pending s' = drop n (pending s) \<and> ok s'"

text \<open>A sequence of calls with the sizes \<open>ns\<close>, and what each of them gave; \<open>pieces\<close> is what they
  should give of the bytes \<open>p\<close>.\<close>

primrec gets :: "(nat \<Rightarrow> 's \<Rightarrow> string option \<times> 's) \<Rightarrow> nat list \<Rightarrow> 's \<Rightarrow> string list option \<times> 's" where
  "gets get [] s = (Some [], s)"
| "gets get (n # ns) s =
    (case get n s of
       (None, s) \<Rightarrow> (None, s)
     | (Some x, s) \<Rightarrow> (case gets get ns s of (None, s) \<Rightarrow> (None, s) | (Some xs, s) \<Rightarrow> (Some (x # xs), s)))"

primrec pieces :: "nat list \<Rightarrow> string \<Rightarrow> string list" where
  "pieces [] p = []"
| "pieces (n # ns) p = take n p # pieces ns (drop n p)"

lemma concat_pieces: "concat (pieces ns p) = take (sum_list ns) p"
  by (induction ns arbitrary: p) (simp_all add: take_add)

context source
begin

lemma gets_pieces:
  "ok s \<Longrightarrow> \<exists>s'. gets get ns s = (Some (pieces ns (pending s)), s') \<and>
    pending s' = drop (sum_list ns) (pending s) \<and> ok s'"
proof (induction ns arbitrary: s)
  case (Cons n ns)
  obtain t where t: "get n s = (Some (take n (pending s)), t)" "pending t = drop n (pending s)" "ok t"
    using get [OF Cons.prems] by blast
  then show ?case using Cons.IH [OF t(3)] by (auto simp: add.commute)
qed simp

end

lemma readn_loop:
  "clean as \<Longrightarrow> \<exists>as'. rio_readn_loop n buf as = (Some (buf @ take n (arrived as)), as') \<and>
    arrived as' = drop n (arrived as) \<and> clean as'"
proof (induction n buf as rule: rio_readn_loop.induct)
  case (1 n buf as)
  show ?case
  proof (cases "0 < n")
    case False
    then show ?thesis using 1 by (subst rio_readn_loop.simps) simp
  next
    case True
    obtain g as' where r: "read n as = (g, as')" by fastforce
    note c = read_clean [OF 1(3) True, unfolded r case_prod_conv]
    show ?thesis
    proof (cases g)
      case (Got s)
      note c = c [unfolded Got got.case]
      show ?thesis
      proof (cases "s = []")
        case True
        then have "arrived as = []" "clean as'" using c by blast+
        moreover from this have "arrived as' = []" using c by (metis append_is_Nil_conv)
        moreover have "rio_readn_loop n buf as = (Some buf, as')"
          using \<open>0 < n\<close> r Got True by (subst rio_readn_loop.simps) simp
        ultimately show ?thesis by simp
      next
        case False
        obtain as'' where z: "rio_readn_loop (n - length s) (buf @ s) as' = (Some ((buf @ s) @ take (n - length s) (arrived as')), as'')"
            "arrived as'' = drop (n - length s) (arrived as')" "clean as''"
          using 1(1) [OF True r [symmetric] Got False] c by blast
        have "rio_readn_loop n buf as = rio_readn_loop (n - length s) (buf @ s) as'"
          using \<open>0 < n\<close> r Got False by (subst rio_readn_loop.simps) simp
        moreover have "take n (arrived as) = s @ take (n - length s) (arrived as')"
            "drop n (arrived as) = drop (n - length s) (arrived as')" using c by simp_all
        ultimately show ?thesis using z by simp
      qed
    next
      case Interrupted
      have "rio_readn_loop n buf as = rio_readn_loop n buf as'"
        using True r Interrupted by (subst rio_readn_loop.simps) simp
      moreover have "arrived as = arrived as'" "clean as'" using c Interrupted by simp_all
      ultimately show ?thesis using 1(2) [OF True r [symmetric] Interrupted] by simp
    next
      case Failed
      then show ?thesis using c by simp
    qed
  qed
qed

interpretation raw: source rio_readn arrived clean
  by unfold_locales (use readn_loop [where buf = "[]"] in \<open>simp add: rio_readn_def\<close>)

subsection \<open>The buffered reader\<close>

definition pending :: "rio_t \<Rightarrow> string" where
  "pending rp = (if 0 < rio_cnt rp then rio_buf rp else []) @ arrived (rio_fd rp)"

definition rio_ok :: "rio_t \<Rightarrow> bool" where
  "rio_ok rp \<longleftrightarrow> clean (rio_fd rp) \<and> (if 0 < rio_cnt rp then int (length (rio_buf rp)) = rio_cnt rp else True)"

lemma refill:
  "rio_ok rp \<Longrightarrow> \<exists>r rp'. rio_refill rp = (r, rp') \<and> rio_ok rp' \<and> pending rp' = pending rp \<and>
    (if pending rp = [] then r = 0 else r = 1 \<and> 0 < rio_cnt rp')"
proof (induction rp rule: rio_refill.induct)
  case (1 rp)
  show ?case
  proof (cases "rio_cnt rp \<le> 0")
    case False
    then have "rio_refill rp = (1, rp)" by (subst rio_refill.simps) simp
    moreover have "pending rp \<noteq> []" using 1(2) False by (auto simp: rio_ok_def pending_def)
    ultimately show ?thesis using 1(2) False by simp
  next
    case True
    have cl: "clean (rio_fd rp)" using 1(2) by (simp add: rio_ok_def)
    obtain g as where r: "read RIO_BUFSIZE (rio_fd rp) = (g, as)" by fastforce
    have "0 < RIO_BUFSIZE" by (simp add: RIO_BUFSIZE_def)
    note c = read_clean [OF cl this, unfolded r case_prod_conv]
    have p: "pending rp = arrived (rio_fd rp)" using True by (simp add: pending_def)
    show ?thesis
    proof (cases g)
      case (Got s)
      have c: "clean as" "arrived (rio_fd rp) = s @ arrived as" "s = [] \<longleftrightarrow> arrived (rio_fd rp) = []"
        using c [unfolded Got got.case] by blast+
      show ?thesis
      proof (cases "s = []")
        case e: True
        then have "rio_refill rp = (0, rp\<lparr>rio_fd := as, rio_cnt := 0\<rparr>)"
          using True r Got by (subst rio_refill.simps) simp
        moreover have "pending rp = []" using c(3) e p by simp
        moreover have "arrived as = []" using c(2,3) e by (metis append_is_Nil_conv)
        ultimately show ?thesis using c(1) by (simp add: rio_ok_def pending_def)
      next
        case e: False
        then have "rio_refill rp = (1, rp\<lparr>rio_fd := as, rio_cnt := int (length s), rio_buf := s\<rparr>)"
          using True r Got by (subst rio_refill.simps) simp
        then show ?thesis using c(1,2) e p by (simp add: rio_ok_def pending_def)
      qed
    next
      case Interrupted
      let ?rp = "rp\<lparr>rio_fd := as, rio_cnt := - 1\<rparr>"
      have c: "clean as" "arrived (rio_fd rp) = arrived as" using c [unfolded Interrupted got.case] by blast+
      have "rio_refill rp = rio_refill ?rp" using True r Interrupted by (subst rio_refill.simps) simp
      moreover have "pending ?rp = pending rp" "rio_ok ?rp" using c p by (simp_all add: pending_def rio_ok_def)
      ultimately show ?thesis using 1(1) [OF True r [symmetric] Interrupted] by simp
    next
      case Failed
      then show ?thesis using c by simp
    qed
  qed
qed

lemma rio_read_ok:
  assumes "rio_ok rp" "0 < n"
  obtains s rp' where "rio_read rp n = (Some s, rp')" "rio_ok rp'" "pending rp = s @ pending rp'" "length s \<le> n"
    "s = [] \<longleftrightarrow> pending rp = []"
proof -
  obtain r t where f: "rio_refill rp = (r, t)" "rio_ok t" "pending t = pending rp"
      "if pending rp = [] then r = 0 else r = 1 \<and> 0 < rio_cnt t"
    using refill [OF assms(1)] by blast
  show ?thesis
  proof (cases "pending rp = []")
    case True
    then show ?thesis using f by (intro that [of "[]" t]) (simp_all add: rio_read_def)
  next
    case False
    then have c: "r = 1" "0 < rio_cnt t" using f(4) by simp_all
    then have l: "int (length (rio_buf t)) = rio_cnt t" using f(2) by (simp add: rio_ok_def)
    define k where "k = (if rio_cnt t < int n then nat (rio_cnt t) else n)"
    let ?t = "t\<lparr>rio_buf := drop k (rio_buf t), rio_cnt := rio_cnt t - int k\<rparr>"
    have k: "0 < k" "k \<le> length (rio_buf t)" "k \<le> n" using c(2) l assms(2) by (auto simp: k_def)
    have "rio_read rp n = (Some (take k (rio_buf t)), ?t)" using f(1) c(1) by (simp add: rio_read_def k_def Let_def)
    moreover have "rio_ok ?t" using f(2) l k(2) by (auto simp: rio_ok_def)
    moreover have "pending t = take k (rio_buf t) @ pending ?t"
      using c(2) l k(2) by (auto simp: pending_def)
    moreover have "length (take k (rio_buf t)) \<le> n" "take k (rio_buf t) \<noteq> []" using k by auto
    ultimately show ?thesis using False that unfolding f(3) by blast
  qed
qed

lemma readnb_loop:
  "rio_ok rp \<Longrightarrow> \<exists>rp'. rio_readnb_loop n buf rp = (Some (buf @ take n (pending rp)), rp') \<and>
    pending rp' = drop n (pending rp) \<and> rio_ok rp'"
proof (induction n buf rp rule: rio_readnb_loop.induct)
  case (1 n buf rp)
  show ?case
  proof (cases "0 < n")
    case False
    then show ?thesis using 1 by (subst rio_readnb_loop.simps) simp
  next
    case True
    obtain s t where r: "rio_read rp n = (Some s, t)" "rio_ok t" "pending rp = s @ pending t" "length s \<le> n"
        "s = [] \<longleftrightarrow> pending rp = []"
      by (rule rio_read_ok [OF 1(2) True])
    show ?thesis
    proof (cases "s = []")
      case e: True
      then have "rio_readnb_loop n buf rp = (Some buf, t)" using True r(1) by (subst rio_readnb_loop.simps) simp
      moreover have "pending rp = []" "pending t = []" using r(3,5) e by simp_all
      ultimately show ?thesis using r(2) by simp
    next
      case e: False
      then have "rio_readnb_loop n buf rp = rio_readnb_loop (n - length s) (buf @ s) t"
        using True r(1) by (subst rio_readnb_loop.simps) simp
      moreover have "take n (pending rp) = s @ take (n - length s) (pending t)" "drop n (pending rp) = drop (n - length s) (pending t)"
        using r(3,4) by simp_all
      ultimately show ?thesis using 1(1) [OF True r(1) [symmetric] refl e r(2)] by simp
    qed
  qed
qed

interpretation buffered: source "\<lambda>n rp. rio_readnb rp n" pending rio_ok
  by unfold_locales (use readnb_loop [where buf = "[]"] in \<open>simp add: rio_readnb_def\<close>)

lemma readinitb_ok: "clean as \<Longrightarrow> rio_ok (rio_readinitb as) \<and> pending (rio_readinitb as) = arrived as"
  by (simp add: rio_ok_def pending_def rio_readinitb_def)

text \<open>C19: on a descriptor without errors, whatever portions its bytes arrive in and
  however often the calls are interrupted, every sequence of reads through the buffer gives read for
  read the same bytes as the same sequence of reads without the buffer: the next ones of what
  arrives, fewer than asked for only at the end of the file. Both leave the same bytes to be read.\<close>

theorem rio_reads_agree:
  assumes "clean as"
  shows "\<exists>rp as'. gets (\<lambda>n rp. rio_readnb rp n) ns (rio_readinitb as) = (Some (pieces ns (arrived as)), rp) \<and>
    gets rio_readn ns as = (Some (pieces ns (arrived as)), as') \<and>
    pending rp = arrived as' \<and> arrived as' = drop (sum_list ns) (arrived as) \<and>
    concat (pieces ns (arrived as)) = take (sum_list ns) (arrived as)"
proof -
  have i: "rio_ok (rio_readinitb as)" "pending (rio_readinitb as) = arrived as" using readinitb_ok [OF assms] by simp_all
  show ?thesis using buffered.gets_pieces [OF i(1), of ns] raw.gets_pieces [OF assms, of ns] concat_pieces
    unfolding i(2) by metis
qed

theorem rio_reads_agree_witness:
  "\<exists>rp as'. gets (\<lambda>n rp. rio_readnb rp n) [1, 3] (rio_readinitb [Data ''ab'', Intr, Data ''cde'']) = (Some [''a'', ''bcd''], rp) \<and>
    gets rio_readn [1, 3] [Data ''ab'', Intr, Data ''cde''] = (Some [''a'', ''bcd''], as') \<and> pending rp = ''e'' \<and> arrived as' = ''e''"
  using rio_reads_agree [of "[Data ''ab'', Intr, Data ''cde'']" "[1, 3]"] by (auto simp: clean_def)

subsection \<open>Lines\<close>

fun line_of :: "nat \<Rightarrow> string \<Rightarrow> string" where
  "line_of 0 p = []"
| "line_of (Suc m) [] = []"
| "line_of (Suc m) (c # p) = c # (if c = CHR 0x0A then [] else line_of m p)"

lemma readlineb_loop:
  "rio_ok rp \<Longrightarrow> 0 < n \<Longrightarrow> n + length (line_of (maxlen - n) (pending rp)) < 2 ^ 31 \<Longrightarrow>
    \<exists>rp'. rio_readlineb_loop n maxlen buf rp =
    Some (let l = line_of (maxlen - n) (pending rp)
     in Some (if n = 1 \<and> 1 < maxlen \<and> l = [] then 0
          else if l \<noteq> [] \<and> last l = CHR 0x0A then n + length l - 1 else n + length l, buf @ l), rp') \<and>
    pending rp' = drop (length (line_of (maxlen - n) (pending rp))) (pending rp) \<and> rio_ok rp'"
proof (induction n maxlen buf rp rule: rio_readlineb_loop.induct)
  case (1 n maxlen buf rp)
  show ?case
  proof (cases "n < maxlen")
    case False
    then show ?thesis using 1(2,3) by (subst rio_readlineb_loop.simps) (simp add: Let_def)
  next
    case True
    obtain m where m: "maxlen - n = Suc m" "maxlen - (n + 1) = m" using True by (metis Suc_diff_Suc Suc_eq_plus1)
    obtain s t where r: "rio_read rp 1 = (Some s, t)" "rio_ok t" "pending rp = s @ pending t" "length s \<le> 1"
        "s = [] \<longleftrightarrow> pending rp = []"
      by (rule rio_read_ok [OF 1(2), of 1]) simp_all
    show ?thesis
    proof (cases s)
      case Nil
      then have "pending rp = []" "pending t = []" using r(3,5) by (blast, metis append_is_Nil_conv)
      moreover have "rio_readlineb_loop n maxlen buf rp = Some (if n = 1 then (Some (0, buf), t) else (Some (n, buf), t))"
        using True r(1) Nil by (subst rio_readlineb_loop.simps) simp
      ultimately show ?thesis using True r(2) m by (simp add: Let_def)
    next
      case (Cons c cs)
      then have p: "pending rp = c # pending t" "s = [c]" using r(3,4) by simp_all
      show ?thesis
      proof (cases "c = CHR 0x0A")
        case nl: True
        have "rio_readlineb_loop n maxlen buf rp = Some (Some (n, buf @ [c]), t)"
          using True r(1) p nl by (subst rio_readlineb_loop.simps) simp
        then show ?thesis using r(2) p m nl by (simp add: Let_def)
      next
        case nl: False
        have l: "line_of (maxlen - n) (pending rp) = c # line_of m (pending t)" using p m nl by simp
        then have b: "n + 1 < 2 ^ 31" "n + 1 + length (line_of m (pending t)) < 2 ^ 31" using 1(4) by simp_all
        have "rio_readlineb_loop n maxlen buf rp = rio_readlineb_loop (n + 1) maxlen (buf @ [c]) t"
          using True r(1) p nl b(1) by (subst rio_readlineb_loop.simps) simp
        moreover note l
        moreover obtain rp' where "rio_readlineb_loop (n + 1) maxlen (buf @ [c]) t =
            Some (Some (if line_of m (pending t) \<noteq> [] \<and> last (line_of m (pending t)) = CHR 0x0A
              then n + length (line_of m (pending t)) else n + 1 + length (line_of m (pending t)),
              (buf @ [c]) @ line_of m (pending t)), rp')"
            "pending rp' = drop (length (line_of m (pending t))) (pending t)" "rio_ok rp'"
          using 1(1) [OF True r(1) [symmetric] refl _ nl b(1) r(2), of cs] Cons p(2) 1(3) b(2) unfolding m(2) by (auto simp: Let_def)
        ultimately show ?thesis using p nl 1(3) by (cases "line_of m (pending t) = []") (simp_all add: Let_def)
      qed
    qed
  qed
qed

text \<open>C38: on a descriptor without errors \<open>rio_readlineb\<close> reads the next line, up
  to its newline, the end of the file or the end of the buffer, and leaves the rest to be read. The
  number it returns is the length of the line if the line ends with a newline and 0 at the end of
  the file; a line that ends otherwise is counted with one byte too many. The line must not be so long
  that the count, an \<open>int\<close>, overflows.\<close>

theorem rio_readlineb_correct:
  assumes "rio_ok rp" "1 < maxlen" "length (line_of (maxlen - 1) (pending rp)) < 2 ^ 31 - 1"
  shows "\<exists>k l rp'. rio_readlineb rp maxlen = Some (Some (k, l), rp') \<and> l = line_of (maxlen - 1) (pending rp) \<and>
    pending rp = l @ pending rp' \<and> rio_ok rp' \<and>
    k = (if l = [] then 0 else if last l = CHR 0x0A then length l else length l + 1)"
proof -
  let ?l = "line_of (maxlen - 1) (pending rp)"
  obtain rp' where r: "rio_readlineb rp maxlen =
        Some (Some (if ?l = [] then 0 else if last ?l = CHR 0x0A then length ?l else length ?l + 1, ?l), rp')"
      "pending rp' = drop (length ?l) (pending rp)" "rio_ok rp'"
    using readlineb_loop [OF assms(1), of 1 maxlen "[]"] assms(2,3)
    unfolding rio_readlineb_def Let_def by (cases "?l = []") (auto split: if_splits)
  have "take (length (line_of m p)) p = line_of m p" for m p by (induction m p rule: line_of.induct) auto
  then have "pending rp = ?l @ pending rp'" unfolding r(2) by (metis append_take_drop_id)
  then show ?thesis using r(1,3) by blast
qed

theorem rio_readlineb_correct_witness:
  "(\<exists>rp'. rio_readlineb (rio_readinitb [Data ''ab'', Intr, Data ''c'']) 100 = Some (Some (4, ''abc''), rp') \<and> pending rp' = []) \<and>
    (\<exists>rp'. rio_readlineb (rio_readinitb [Data (CHR ''x'' # CHR 0x0A # ''yz'')]) 100 = Some (Some (2, [CHR ''x'', CHR 0x0A]), rp') \<and>
      pending rp' = ''yz'')"
proof -
  have 1: "rio_ok (rio_readinitb [Data ''ab'', Intr, Data ''c''])" "pending (rio_readinitb [Data ''ab'', Intr, Data ''c'']) = ''abc''"
    and 2: "rio_ok (rio_readinitb [Data (CHR ''x'' # CHR 0x0A # ''yz'')])"
      "pending (rio_readinitb [Data (CHR ''x'' # CHR 0x0A # ''yz'')]) = CHR ''x'' # CHR 0x0A # ''yz''"
    using readinitb_ok by (simp_all add: clean_def)
  have l: "line_of 99 ''abc'' = ''abc''" "line_of 99 (CHR ''x'' # CHR 0x0A # ''yz'') = [CHR ''x'', CHR 0x0A]"
    by (simp_all add: numeral_eq_Suc)
  show ?thesis
    using rio_readlineb_correct [OF 1(1), of 100] rio_readlineb_correct [OF 2(1), of 100] unfolding 1(2) 2(2) by (auto simp: l)
qed

subsection \<open>Writing\<close>

lemma rio_writen_correct: "WFail \<notin> set ws \<Longrightarrow> \<exists>ws'. rio_writen buf out ws = (True, out @ buf, ws')"
  unfolding rio_writen_def
proof (induction buf out ws rule: rio_writen_loop.induct)
  case (1 buf out ws)
  show ?case
  proof (cases "0 < length buf")
    case False
    then show ?thesis by (subst rio_writen_loop.simps) simp
  next
    case True
    obtain r ws' where r: "write' (length buf) ws = (r, ws')" by fastforce
    have w: "WFail \<notin> set ws'" "r \<noteq> PFailed" using r 1(3) by (cases "(length buf, ws)" rule: write'.cases; auto)+
    show ?thesis
    proof (cases r)
      case (Put k)
      have "rio_writen_loop buf out ws = rio_writen_loop (drop k buf) (out @ take k buf) ws'"
        using True r Put by (subst rio_writen_loop.simps) simp
      then show ?thesis using 1(1) [OF True r [symmetric] Put w(1)] by simp
    next
      case PInterrupted
      have "rio_writen_loop buf out ws = rio_writen_loop buf out ws'"
        using True r PInterrupted by (subst rio_writen_loop.simps) simp
      then show ?thesis using 1(2) [OF True r [symmetric] PInterrupted w(1)] by simp
    next
      case PFailed
      then show ?thesis using w(2) by simp
    qed
  qed
qed

end
