(* ===== verification/Proxy.thy ===== *)
theory Proxy
  imports Rio CLib
begin

text \<open>
  The web proxy of \<open>proxylab-handout/proxy.c\<close>: one thread (\<open>process\<close>) and the routines it calls. A
  connection has the arrivals of its other end, what has been sent there, and the answers to come
  for \<open>write\<close>. A buffer is the list of the characters of its array, so what a routine finds behind
  the text it has just read is what the array held before; \<open>None\<close> is an access that the program
  makes through a null pointer or beyond an array, or an \<open>int\<close> that overflows: the counters of bytes of
  \<open>relay_header\<close>, \<open>relay_content\<close> and \<open>process\<close> can, those of \<open>readline\<close> and \<open>writebuf\<close> are bounded by
  the buffer. The socket calls are the record \<open>net\<close>. A write to a connection that the other end has
  closed is taken to fail; that it also raises SIGPIPE, which nothing catches, is not modelled.
\<close>

subsection \<open>Connections\<close>

record conn =
  c_in :: "arrival list"
  c_out :: string
  c_ws :: "taking list"

definition MAXLINE :: nat where
  "MAXLINE = 8192"

definition INT_MAX :: int where
  "INT_MAX = 2147483647"

definition NUL :: char where "NUL = CHR 0x00"
definition LF :: char where "LF = CHR 0x0A"
definition CR :: char where "CR = CHR 0x0D"

text \<open>The bytes and answers still to come, which bound the loops that read.\<close>

definition left :: "arrival list \<Rightarrow> nat" where
  "left as = sum_list (map (\<lambda>a. case a of Data s \<Rightarrow> Suc (length s) | _ \<Rightarrow> 1) as)"

lemma left_read: "read (Suc n) as = (Got (c # s), as') \<Longrightarrow> left as' < left as"
  by (cases "(Suc n, as)" rule: read.cases) (auto simp: left_def split: if_splits)

lemma left_read_le: "read n as = (g, as') \<Longrightarrow> left as' \<le> left as"
  by (cases "(n, as)" rule: read.cases) (auto simp: left_def split: if_splits)

subsection \<open>readline and writebuf\<close>

text \<open>The result, the buffer and the rest of the arrivals.\<close>

function readline_loop :: "nat \<Rightarrow> nat \<Rightarrow> string \<Rightarrow> arrival list \<Rightarrow> int \<times> string \<times> arrival list" where
  "readline_loop i len buf as =
    (if i < len
     then (case read 1 as of
         (Got [], as) \<Rightarrow> (0, buf, as)
       | (Got (c # _), as) \<Rightarrow>
           let buf = buf[i := c]
           in if c = LF then (int (i + 1), buf, as) else readline_loop (i + 1) len buf as
       | (_, as) \<Rightarrow> (- 1, buf, as))
     else (int i, buf, as))"
  by pat_completeness auto
termination
  by (relation "measure (\<lambda>(i, len, buf, as). len - i)") auto

declare readline_loop.simps [simp del]

definition readline :: "conn \<Rightarrow> string \<Rightarrow> nat \<Rightarrow> int \<times> string \<times> conn" where
  "readline c buf len = (case readline_loop 0 len buf (c_in c) of (r, buf, as) \<Rightarrow> (r, buf, c\<lparr>c_in := as\<rparr>))"

function writebuf_loop :: "string \<Rightarrow> nat \<Rightarrow> conn \<Rightarrow> int \<times> conn" where
  "writebuf_loop buf i c =
    (if i < length buf
     then (case write' (length buf - i) (c_ws c) of
         (Put k, ws) \<Rightarrow> writebuf_loop buf (i + k) (c\<lparr>c_out := c_out c @ take k (drop i buf), c_ws := ws\<rparr>)
       | (_, ws) \<Rightarrow> (- 1, c\<lparr>c_ws := ws\<rparr>))
     else (int i, c))"
  by pat_completeness auto
termination
proof (relation "measure (\<lambda>(buf, i, c). length buf - i)", goal_cases)
  case (2 buf i c r ws k)
  then have "0 < k" by (cases "(length buf - i, c_ws c)" rule: write'.cases) auto
  then show ?case using 2(1) by simp
qed simp

declare writebuf_loop.simps [simp del]

definition writebuf :: "conn \<Rightarrow> string \<Rightarrow> int \<times> conn" where
  "writebuf c buf = writebuf_loop buf 0 c"

subsection \<open>Strings in arrays\<close>

text \<open>\<open>strncasecmp(s, t, n) == 0\<close> for a literal \<open>t\<close> of \<open>n\<close> characters, \<open>strchr\<close> in an array, where the
  character has to come before a NUL, and \<open>atoi\<close>, which must not run past the end of the array.\<close>

definition lower :: "char \<Rightarrow> char" where
  "lower c = (if 65 \<le> (of_char c :: nat) \<and> (of_char c :: nat) \<le> 90 then char_of ((of_char c :: nat) + 32) else c)"

definition same_case :: "string \<Rightarrow> string \<Rightarrow> bool" where
  "same_case s t \<longleftrightarrow> map lower (take (length t) s) = map lower t"

definition strchr :: "char \<Rightarrow> string \<Rightarrow> (string \<times> string) option" where
  "strchr c s = (case cut c s of None \<Rightarrow> None | Some (w, r) \<Rightarrow> if NUL \<in> set w then None else Some (w, r))"

definition atoi :: "string \<Rightarrow> int option" where
  "atoi s =
    (let t = dropWhile is_space s;
         u = (if t \<noteq> [] \<and> (hd t = CHR ''-'' \<or> hd t = CHR ''+'') then tl t else t)
     in if u = [] \<or> snd (digits 0 u) = [] then None else Some (to_int (fst (strtol s))))"

subsection \<open>The header and the content\<close>

definition content_length :: string where
  "content_length = ''Content-Length''"

text \<open>The result, \<open>*content\<close>, the buffer and the two connections. The loop ends since every line it
  goes on after has taken a byte.\<close>

lemma readline_loop_left: "readline_loop i len buf as = (r, buf', as') \<Longrightarrow> left as' \<le> left as \<and> (0 < r \<and> i = 0 \<longrightarrow> left as' < left as)"
proof (induction i len buf as rule: readline_loop.induct)
  case (1 i len buf as)
  show ?case
  proof (cases "i < len")
    case False
    then show ?thesis using 1(2) by (subst (asm) readline_loop.simps) auto
  next
    case True
    obtain g as'' where g: "read 1 as = (g, as'')" by fastforce
    show ?thesis
    proof (cases "\<exists>c s. g = Got (c # s)")
      case False
      then have "as' = as'' \<and> r \<le> 0"
        using 1(2) True g by (subst (asm) readline_loop.simps) (auto split: got.splits list.splits)
      then show ?thesis using left_read_le [OF g] by auto
    next
      case gc: True
      then obtain c s where c: "g = Got (c # s)" by blast
      have l: "left as'' < left as" using left_read [of 0 as c s as''] g c by simp
      show ?thesis
      proof (cases "c = LF")
        case e: True
        then show ?thesis using 1(2) True g c l by (subst (asm) readline_loop.simps) auto
      next
        case e: False
        then have "readline_loop (i + 1) len (buf[i := c]) as'' = (r, buf', as')"
          using 1(2) True g c by (subst (asm) readline_loop.simps) simp
        then show ?thesis using 1(1) [OF True g [symmetric] c refl refl e] l by auto
      qed
    qed
  qed
qed

function relay_header_loop :: "int \<Rightarrow> int \<Rightarrow> string \<Rightarrow> conn \<Rightarrow> conn \<Rightarrow> (int \<times> int \<times> string \<times> conn \<times> conn) option" where
  "relay_header_loop n content buf fr to =
    (case readline fr buf MAXLINE of (len, buf, fr) \<Rightarrow>
       if len < 0 then Some (- 1, content, buf, fr, to)
       else do {
         content \<leftarrow> (if same_case buf content_length
            then do { (_, v) \<leftarrow> strchr CHR '' '' buf; atoi v } else Some content);
         let (w, to) = (if 0 < len then writebuf to (take (nat len) buf) else (0, to));
         if w < 0 then Some (- 1, content, buf, fr, to)
         else if INT_MAX < n + len then None
         else do {
           let n = n + len;
           if len = 0 \<or> take 2 buf = [CR, LF] then Some (n, content, buf, fr, to)
           else relay_header_loop n content buf fr to } })"
  by pat_completeness auto
termination
proof (relation "measure (\<lambda>(n, content, buf, fr, to). left (c_in fr))", goal_cases)
  case (2 n content buf fr to len y buf' fr' content' r w to' n')
  then have "readline fr buf MAXLINE = (len, buf', fr')" "0 < len" by simp_all
  then have "left (c_in fr') < left (c_in fr)"
    using readline_loop_left [of 0 MAXLINE buf "c_in fr"] by (auto simp: readline_def split: prod.splits)
  then show ?case by simp
qed simp

declare relay_header_loop.simps [simp del]

definition relay_header :: "conn \<Rightarrow> conn \<Rightarrow> string \<Rightarrow> (int \<times> int \<times> string \<times> conn \<times> conn) option" where
  "relay_header fr to buf = relay_header_loop 0 0 buf fr to"

text \<open>\<open>relay_content\<close> writes the buffer out whenever it is full.\<close>

function relay_content_loop :: "nat \<Rightarrow> nat \<Rightarrow> int \<Rightarrow> string \<Rightarrow> nat \<Rightarrow> conn \<Rightarrow> conn \<Rightarrow> (int \<times> string \<times> conn \<times> conn) option" where
  "relay_content_loop i j content buf len fr to =
    (if content \<noteq> 0 \<and> int i = content then Some (int i, buf, fr, snd (writebuf to (take j buf)))
     else (case (if j = len then writebuf to (take j buf) else (0, to)) of (w, to) \<Rightarrow>
       if w < 0 then Some (- 1, buf, fr, to)
       else let j = (if j = len then 0 else j)
         in (case read 1 (c_in fr) of
             (Got [], as) \<Rightarrow> Some (int i, buf, fr\<lparr>c_in := as\<rparr>, snd (writebuf to (take j buf)))
           | (Got (c # _), as) \<Rightarrow>
               if INT_MAX < int (i + 1) then None
               else relay_content_loop (i + 1) (j + 1) content (buf[j := c]) len (fr\<lparr>c_in := as\<rparr>) to
           | (_, as) \<Rightarrow> Some (- 1, buf, fr\<lparr>c_in := as\<rparr>, to))))"
  by pat_completeness auto
termination
proof (relation "measure (\<lambda>(i, j, content, buf, len, fr, to). left (c_in fr))", goal_cases)
  case (2 i j content buf len fr to w to' j' g as s c s')
  then have "read (Suc 0) (c_in fr) = (Got (c # s'), as)" by simp
  then show ?case using left_read by simp
qed simp

declare relay_content_loop.simps [simp del]

definition relay_content :: "conn \<Rightarrow> conn \<Rightarrow> int \<Rightarrow> string \<Rightarrow> nat \<Rightarrow> (int \<times> string \<times> conn \<times> conn) option" where
  "relay_content fr to content buf len = relay_content_loop 0 0 content buf len fr to"

subsection \<open>The parsers of the first lines\<close>

text \<open>The arrays \<open>method\<close>, \<open>uri\<close> and \<open>hostname\<close> hold what they held behind the characters copied;
  \<open>over w xs\<close> is the array after \<open>w\<close> has been copied to its start. \<open>strncpy\<close> puts no NUL behind
  \<open>method\<close>. The two others are used as strings, so they are strings here.\<close>

definition over :: "string \<Rightarrow> string \<Rightarrow> string" where
  "over w xs = w @ drop (length w) xs"

definition http :: string where
  "http = ''http://''"

definition host_end :: "char \<Rightarrow> bool" where
  "host_end c \<longleftrightarrow> c \<in> {CHR '' '', CHR '':'', CHR ''/'', CR, LF}"

text \<open>\<open>strpbrk\<close>: the text before the first of the delimiters and the text from it on.\<close>

fun strpbrk :: "string \<Rightarrow> (string \<times> string) option" where
  "strpbrk [] = None"
| "strpbrk (c # s) =
    (if c = NUL then None else if host_end c then Some ([], c # s)
     else map_option (\<lambda>(w, r). (c # w, r)) (strpbrk s))"

record request =
  q_method :: string
  q_uri :: string
  q_hostname :: string
  q_port :: int

definition parse_request :: "string \<Rightarrow> request \<Rightarrow> (int \<times> request) option" where
  "parse_request buf q = do {
     (m, tok) \<leftarrow> strchr CHR '' '' buf;
     let q = q\<lparr>q_method := over m (q_method q)\<rparr>;
     if \<not> same_case tok http then Some (- 1, q\<lparr>q_hostname := []\<rparr>)
     else do {
       (host, hostend) \<leftarrow> strpbrk (drop 7 tok);
       port \<leftarrow> (if hd hostend = CHR '':'' then atoi (tl hostend) else Some 80);
       (uri, _) \<leftarrow> strchr CHR '' '' tok;
       Some (0, q\<lparr>q_hostname := host, q_port := port, q_uri := uri\<rparr>) } }"

definition parse_response :: "string \<Rightarrow> int option" where
  "parse_response buf = do { (_, code) \<leftarrow> strchr CHR '' '' buf; atoi code }"

subsection \<open>Sockets\<close>

text \<open>What the system answers: whether the mutex could be locked, whether the name is known, the
  descriptor of a new socket, and the connection to a host and port if it could be made. The open
  descriptors of the program are a set. A port number has 16 bits; \<open>htons\<close> drops the others.\<close>

definition port16 :: "int \<Rightarrow> int" where
  "port16 port = port mod 65536"

record net =
  n_lock :: bool
  n_host :: "string \<Rightarrow> bool"
  n_socket :: "nat option"
  n_connect :: "string \<Rightarrow> int \<Rightarrow> conn option"

definition open_serverfd :: "net \<Rightarrow> string \<Rightarrow> int \<Rightarrow> nat set \<Rightarrow> (nat \<times> conn) option \<times> nat set" where
  "open_serverfd n hostname port fds =
    (if \<not> n_lock n then (None, fds)
     else if \<not> n_host n hostname then (None, fds)
     else case n_socket n of
       None \<Rightarrow> (None, fds)
     | Some fd \<Rightarrow>
         let fds = insert fd fds
         in case n_connect n hostname (port16 port) of
              None \<Rightarrow> (None, fds - {fd})
            | Some c \<Rightarrow> (Some (fd, c), fds))"

subsection \<open>The log\<close>

definition format_log_entry :: "string \<Rightarrow> nat \<Rightarrow> string \<Rightarrow> int \<Rightarrow> string" where
  "format_log_entry time_str host uri size' =
    (let a = host div 16777216 mod 256; b = host div 65536 mod 256; c = host div 256 mod 256; d = host mod 256
     in time_str @ '': '' @ dec_nat a @ ''.'' @ dec_nat b @ ''.'' @ dec_nat c @ ''.'' @ dec_nat d @ '' '' @
        uri @ '' '' @ dec size')"

subsection \<open>The thread\<close>

text \<open>The log entry is written into \<open>buf\<close>, which must have room for it and its NUL.
  The state at the end of a thread: the connection to the client, the one to the server if one was
  opened, the line written to the log, and the descriptors open then.\<close>

record thread =
  t_client :: conn
  t_server :: "conn option"
  t_log :: "string option"
  t_fds :: "nat set"

text \<open>The second half of \<open>process\<close>, from the first line of the response on.\<close>

definition relay_response :: "string \<Rightarrow> conn \<Rightarrow> conn \<Rightarrow> string \<Rightarrow> (int \<times> conn \<times> conn) option" where
  "relay_response method client server buf =
    (case readline server buf MAXLINE of (len, buf, server) \<Rightarrow>
       if 0 < len
       then do {
         msg \<leftarrow> parse_response buf;
         let client = snd (writebuf client (take (nat len) buf));
         (_, content, buf, server, client) \<leftarrow> relay_header server client buf;
         if \<not> same_case method ''head'' \<and> 2 \<le> msg div 100 \<and> msg \<noteq> 204 \<and> msg \<noteq> 304
         then do {
           (r, _, server, client) \<leftarrow> relay_content server client content buf MAXLINE;
           let sum' = (if 0 < r then len + r else len);
           if INT_MAX < sum' then None else Some (sum', client, server) }
         else Some (len, client, server) }
       else Some (0, client, server))"

definition process :: "bool \<Rightarrow> net \<Rightarrow> string \<Rightarrow> nat \<Rightarrow> request \<Rightarrow> string \<Rightarrow> nat \<Rightarrow> nat set \<Rightarrow> conn \<Rightarrow> thread option" where
  "process detached net time_str host q buf sockfd fds client =
    (let give_up = (\<lambda>client fds. Some \<lparr>t_client = client, t_server = None, t_log = None, t_fds = fds - {sockfd}\<rparr>)
     in if \<not> detached then give_up client fds
     else (case readline client buf MAXLINE of (len, buf, client) \<Rightarrow>
       if \<not> 0 < len then give_up client fds
       else do {
         (r, q) \<leftarrow> parse_request buf q;
         if r \<noteq> 0 then give_up client fds
         else (case open_serverfd net (q_hostname q) (q_port q) fds of
             (None, fds) \<Rightarrow> give_up client fds
           | (Some (newfd, server), fds) \<Rightarrow> do {
               let server = snd (writebuf server (take (nat len) buf));
               (_, content, buf, client, server) \<leftarrow> relay_header client server buf;
               (buf, client, server) \<leftarrow>
                 (if same_case (q_method q) ''post'' \<and> content \<noteq> 0
                  then map_option snd (relay_content client server content buf MAXLINE)
                  else Some (buf, client, server));
               (sum', client, server) \<leftarrow> relay_response (q_method q) client server buf;
               let entry = format_log_entry time_str host (q_uri q) sum';
               if sum' \<noteq> 0 \<and> MAXLINE \<le> length entry then None
               else Some \<lparr>t_client = client, t_server = Some server,
                 t_log = (if sum' \<noteq> 0 then Some entry else None),
                 t_fds = fds - {newfd} - {sockfd}\<rparr> }) }))"

subsection \<open>The program\<close>

text \<open>The answers to the calls that set up the listening socket.\<close>

record listener =
  l_socket :: "nat option"
  l_setsockopt :: bool
  l_bind :: bool
  l_listen :: bool

definition open_proxyfd :: "listener \<Rightarrow> nat set \<Rightarrow> nat option \<times> nat set" where
  "open_proxyfd l fds =
    (case l_socket l of
       None \<Rightarrow> (None, fds)
     | Some fd \<Rightarrow>
         let fds = insert fd fds
         in if \<not> l_setsockopt l then (None, fds - {fd})
            else if \<not> l_bind l then (None, fds - {fd})
            else if \<not> l_listen l then (None, fds - {fd})
            else (Some fd, fds))"

text \<open>What happens to \<open>main\<close>: \<open>accept\<close> fails, or gives a descriptor for which a thread is or is not
  created; and a thread ends, with the descriptors \<open>process\<close> has closed.\<close>

datatype event = Accept_error | Accepted nat bool | Ended nat

fun serve :: "event list \<Rightarrow> nat set \<Rightarrow> nat list \<Rightarrow> nat set \<times> nat list" where
  "serve [] fds running = (fds, running)"
| "serve (Accept_error # es) fds running = serve es fds running"
| "serve (Accepted fd created # es) fds running =
    (let fds = insert fd fds
     in if created then serve es fds (fd # running) else serve es fds running)"
| "serve (Ended fd # es) fds running = serve es (fds - {fd}) (removeAll fd running)"

text \<open>\<open>main\<close> up to its loop: \<open>None\<close> when it exits.\<close>

definition proxy_main :: "nat \<Rightarrow> bool \<Rightarrow> listener \<Rightarrow> nat option \<Rightarrow> event list \<Rightarrow> nat set \<Rightarrow> (nat set \<times> nat list) option" where
  "proxy_main argc mutexes l log es fds =
    (if argc \<noteq> 2 then None
     else if \<not> mutexes then None
     else case open_proxyfd l fds of
       (None, fds) \<Rightarrow> None
     | (Some sockfd, fds) \<Rightarrow>
         (case log of
            None \<Rightarrow> None
          | Some logfd \<Rightarrow> Some (serve es (insert logfd fds) [])))"

subsection \<open>The socket routines of csapp.c\<close>

text \<open>\<open>open_clientfd\<close> and \<open>open_listenfd\<close> as \<open>csapp.c\<close> has them: the result is a descriptor, or -1 or -2.
  The wrappers end the program on an error (\<open>None\<close>).\<close>

definition open_clientfd :: "nat option \<Rightarrow> bool \<Rightarrow> bool \<Rightarrow> nat set \<Rightarrow> int \<times> nat set" where
  "open_clientfd socket known connected fds =
    (case socket of
       None \<Rightarrow> (- 1, fds)
     | Some fd \<Rightarrow>
         let fds = insert fd fds
         in if \<not> known then (- 2, fds)
            else if \<not> connected then (- 1, fds)
            else (int fd, fds))"

definition open_listenfd :: "listener \<Rightarrow> nat set \<Rightarrow> int \<times> nat set" where
  "open_listenfd l fds =
    (case l_socket l of
       None \<Rightarrow> (- 1, fds)
     | Some fd \<Rightarrow>
         let fds = insert fd fds
         in if \<not> l_setsockopt l then (- 1, fds)
            else if \<not> l_bind l then (- 1, fds)
            else if \<not> l_listen l then (- 1, fds)
            else (int fd, fds))"

definition Open_clientfd :: "nat option \<Rightarrow> bool \<Rightarrow> bool \<Rightarrow> nat set \<Rightarrow> (int \<times> nat set) option" where
  "Open_clientfd socket known connected fds =
    (case open_clientfd socket known connected fds of (rc, fds) \<Rightarrow> if rc < 0 then None else Some (rc, fds))"

definition Open_listenfd :: "listener \<Rightarrow> nat set \<Rightarrow> (int \<times> nat set) option" where
  "Open_listenfd l fds = (case open_listenfd l fds of (rc, fds) \<Rightarrow> if rc < 0 then None else Some (rc, fds))"

end
