(* ===== verification/Threads.thy ===== *)
theory Threads
  imports Proxy
begin

text \<open>
  The threads of \<open>proxylab-handout/proxy.c\<close> side by side. \<open>main\<close> starts a thread for every connection
  it accepts; the threads share the table of descriptors, the two files the log goes to, two mutexes,
  and the static data libc's \<open>gethostbyname\<close> and \<open>localtime\<close> return pointers to. A step is a piece of
  \<open>process\<close> between two points at which other threads can be seen; which thread takes the next one is
  not determined. The reads and writes on a connection touch nothing the threads share and are taken
  to return: a peer that stays silent for ever, or SIGPIPE, is not modelled.
\<close>

subsection \<open>What a thread does alone\<close>

text \<open>\<open>process\<close> up to the connection to the server: the thread gives up (\<open>Inl\<close>), or goes on with a request.\<close>

definition request_part :: "bool \<Rightarrow> request \<Rightarrow> string \<Rightarrow> conn \<Rightarrow> (conn + request \<times> nat \<times> string \<times> conn) option" where
  "request_part detached q buf client =
    (if \<not> detached then Some (Inl client)
     else (case readline client buf MAXLINE of (len, buf, client) \<Rightarrow>
       if \<not> 0 < len then Some (Inl client)
       else do {
         (r, q) \<leftarrow> parse_request buf q;
         Some (if r \<noteq> 0 then Inl client else Inr (q, nat len, buf, client)) }))"

text \<open>\<open>process\<close> from there to the log: the number of bytes, and the two connections.\<close>

definition relay_part :: "request \<Rightarrow> nat \<Rightarrow> string \<Rightarrow> conn \<Rightarrow> conn \<Rightarrow> (int \<times> conn \<times> conn) option" where
  "relay_part q len buf client server = do {
     let server = snd (writebuf server (take len buf));
     (_, content, buf, client, server) \<leftarrow> relay_header client server buf;
     (buf, client, server) \<leftarrow>
       (if same_case (q_method q) ''post'' \<and> content \<noteq> 0
        then map_option snd (relay_content client server content buf MAXLINE)
        else Some (buf, client, server));
     relay_response (q_method q) client server buf }"

subsection \<open>State\<close>

text \<open>Where a thread is: each name says what comes next.\<close>

datatype pc = Arriving | Reading | Locking | Resolving | Copying | Releasing | Opening | Connecting | Dropping | Relaying
  | Log_locking | Stamping | Formatting | Printing | Writing | Log_releasing | Closing_server | Closing | Ended

record locals =
  l_sock :: nat
  l_host :: nat
  l_detached :: bool
  l_req :: request
  l_buf :: string
  l_len :: nat
  l_client :: conn
  l_found :: bool
  l_addr :: nat
  l_fd :: nat
  l_server :: "conn option"
  l_sum :: int
  l_now :: string
  l_entry :: "string option"

text \<open>\<open>out\<close> is what has been printed to the standard output. The log is a stream with a buffer: the
  bytes that are in the file, and those that \<open>fprintf\<close> has put into the buffer and the library has not
  handed to the system yet. Nothing flushes it, and \<open>main\<close> never leaves its loop.\<close>

record shared =
  m_syscall :: "nat option"
  m_logfile :: "nat option"
  hostent :: nat
  static_tm :: string
  open_fds :: "nat set"
  out :: string
  log_file :: string
  log_buf :: string
  fault :: bool

text \<open>What the network is: the names it knows, and the connection thread \<open>i\<close> gets to an address and
  a port; and whether thread \<open>i\<close>'s call that locks the log succeeds, whose result \<open>process\<close> does not look at.
  What the system and the library answer to one step: a descriptor, the time, whether the mutex of
  \<open>open_serverfd\<close> can be locked, and how many bytes the stream of the log hands on (none as long as its
  buffer has room, else whole blocks).\<close>

record env =
  dns :: "string \<Rightarrow> nat option"
  reach :: "nat \<Rightarrow> nat \<Rightarrow> int \<Rightarrow> conn option"
  locks_log :: "nat \<Rightarrow> bool"

record answer =
  a_fd :: "nat option"
  a_time :: string
  a_lock :: bool
  a_flush :: nat

subsection \<open>Steps\<close>

text \<open>\<open>main\<close>, up to the thread; the descriptor of \<open>accept\<close> is a new one.\<close>

definition arrive :: "answer \<Rightarrow> locals \<Rightarrow> shared \<Rightarrow> ((pc \<times> locals) \<times> shared) option" where
  "arrive a l sh = (case a_fd a of
     None \<Rightarrow> None
   | Some fd \<Rightarrow> if fd \<in> open_fds sh then None
       else Some ((Reading, l\<lparr>l_sock := fd\<rparr>), sh\<lparr>open_fds := insert fd (open_fds sh)\<rparr>))"

text \<open>\<open>open_serverfd\<close> after the mutex is released: a new socket, and its connection.\<close>

definition socket_step :: "answer \<Rightarrow> locals \<Rightarrow> shared \<Rightarrow> ((pc \<times> locals) \<times> shared) option" where
  "socket_step a l sh = (case a_fd a of
     None \<Rightarrow> Some ((Closing, l), sh)
   | Some fd \<Rightarrow> if fd \<in> open_fds sh then None
       else Some ((Connecting, l\<lparr>l_fd := fd\<rparr>), sh\<lparr>open_fds := insert fd (open_fds sh)\<rparr>))"

definition connect_step :: "env \<Rightarrow> nat \<Rightarrow> locals \<Rightarrow> shared \<Rightarrow> ((pc \<times> locals) \<times> shared) option" where
  "connect_step E i l sh = (case reach E i (l_addr l) (port16 (q_port (l_req l))) of
     None \<Rightarrow> Some ((Dropping, l), sh)
   | Some c \<Rightarrow> Some ((Relaying, l\<lparr>l_server := Some c\<rparr>), sh))"

text \<open>\<open>fprintf\<close>: the line goes into the buffer of the stream, of which the first \<open>k\<close> bytes go on to the file.\<close>

definition log_put :: "nat \<Rightarrow> string \<Rightarrow> shared \<Rightarrow> shared" where
  "log_put k line sh = (let b = log_buf sh @ line in sh\<lparr>log_file := log_file sh @ take k b, log_buf := drop k b\<rparr>)"

text \<open>One step of thread \<open>i\<close>: \<open>None\<close> if it has to wait. An access that \<open>process\<close> makes through a bad
  pointer ends the program.\<close>

fun act :: "env \<Rightarrow> nat \<Rightarrow> answer \<Rightarrow> pc \<times> locals \<Rightarrow> shared \<Rightarrow> ((pc \<times> locals) \<times> shared) option" where
  "act E i a (Arriving, l) sh = arrive a l sh"
| "act E i a (Reading, l) sh =
    (case request_part (l_detached l) (l_req l) (l_buf l) (l_client l) of
       None \<Rightarrow> Some ((Ended, l), sh\<lparr>fault := True\<rparr>)
     | Some (Inl c) \<Rightarrow> Some ((Closing, l\<lparr>l_client := c\<rparr>), sh)
     | Some (Inr (q, n, b, c)) \<Rightarrow> Some ((Locking, l\<lparr>l_req := q, l_len := n, l_buf := b, l_client := c\<rparr>), sh))"
| "act E i a (Locking, l) sh =
    (if \<not> a_lock a then Some ((Closing, l), sh)
     else if m_syscall sh = None then Some ((Resolving, l), sh\<lparr>m_syscall := Some i\<rparr>)
     else None)"
| "act E i a (Resolving, l) sh =
    (case dns E (q_hostname (l_req l)) of
       None \<Rightarrow> Some ((Releasing, l\<lparr>l_found := False\<rparr>), sh)
     | Some h \<Rightarrow> Some ((Copying, l\<lparr>l_found := True\<rparr>), sh\<lparr>hostent := h\<rparr>))"
| "act E i a (Copying, l) sh = Some ((Releasing, l\<lparr>l_addr := hostent sh\<rparr>), sh)"
| "act E i a (Releasing, l) sh = Some ((if l_found l then Opening else Closing, l), sh\<lparr>m_syscall := None\<rparr>)"
| "act E i a (Opening, l) sh = socket_step a l sh"
| "act E i a (Connecting, l) sh = connect_step E i l sh"
| "act E i a (Dropping, l) sh = Some ((Closing, l), sh\<lparr>open_fds := open_fds sh - {l_fd l}\<rparr>)"
| "act E i a (Relaying, l) sh =
    (case relay_part (l_req l) (l_len l) (l_buf l) (l_client l) (the (l_server l)) of
       None \<Rightarrow> Some ((Ended, l), sh\<lparr>fault := True\<rparr>)
     | Some (n, c, s) \<Rightarrow>
         Some ((if n \<noteq> 0 then Log_locking else Closing_server, l\<lparr>l_sum := n, l_client := c, l_server := Some s\<rparr>), sh))"
| "act E i a (Log_locking, l) sh =
    (if \<not> locks_log E i then Some ((Stamping, l), sh)
     else if m_logfile sh = None then Some ((Stamping, l), sh\<lparr>m_logfile := Some i\<rparr>)
     else None)"
| "act E i a (Stamping, l) sh = Some ((Formatting, l\<lparr>l_now := a_time a\<rparr>), sh\<lparr>static_tm := a_time a\<rparr>)"
| "act E i a (Formatting, l) sh =
    (let entry = format_log_entry (static_tm sh) (l_host l) (q_uri (l_req l)) (l_sum l)
     in if MAXLINE \<le> length entry then Some ((Ended, l), sh\<lparr>fault := True\<rparr>)
        else Some ((Printing, l\<lparr>l_entry := Some entry\<rparr>), sh))"
| "act E i a (Printing, l) sh = Some ((Writing, l), sh\<lparr>out := out sh @ the (l_entry l) @ [LF]\<rparr>)"
| "act E i a (Writing, l) sh = Some ((Log_releasing, l), log_put (a_flush a) (the (l_entry l) @ [LF]) sh)"
| "act E i a (Log_releasing, l) sh = Some ((Closing_server, l), sh\<lparr>m_logfile := None\<rparr>)"
| "act E i a (Closing_server, l) sh = Some ((Closing, l), sh\<lparr>open_fds := open_fds sh - {l_fd l}\<rparr>)"
| "act E i a (Closing, l) sh = Some ((Ended, l), sh\<lparr>open_fds := open_fds sh - {l_sock l}\<rparr>)"
| "act E i a (Ended, l) sh = None"

record sys =
  threads :: "(pc \<times> locals) list"
  shared :: shared

text \<open>A list of the answers to come and of the threads that take the steps, for runs to be evaluated.\<close>

definition move :: "env \<Rightarrow> nat \<Rightarrow> answer \<Rightarrow> sys \<Rightarrow> sys option" where
  "move E i a s =
    (if fault (shared s) \<or> length (threads s) \<le> i then None
     else map_option (\<lambda>(t, sh). \<lparr>threads = (threads s)[i := t], shared = sh\<rparr>) (act E i a (threads s ! i) (shared s)))"

fun moves :: "env \<Rightarrow> (nat \<times> answer) list \<Rightarrow> sys \<Rightarrow> sys option" where
  "moves E [] s = Some s"
| "moves E ((i, a) # xs) s = (case move E i a s of None \<Rightarrow> None | Some s \<Rightarrow> moves E xs s)"

inductive step :: "env \<Rightarrow> sys \<Rightarrow> sys \<Rightarrow> bool" for E where
  step: "move E i a s = Some s' \<Longrightarrow> step E s s'"

inductive_cases stepE [elim]: "step E s s'"

text \<open>\<open>main\<close> has opened the listening socket and the log file; the connections to come bring their
  threads' data.\<close>

definition start :: "locals list \<Rightarrow> nat set \<Rightarrow> sys" where
  "start ls base = \<lparr>threads = map (\<lambda>l. (Arriving, l)) ls,
     shared = \<lparr>m_syscall = None, m_logfile = None, hostent = 0, static_tm = [], open_fds = base, out = [], log_file = [],
       log_buf = [], fault = False\<rparr>\<rparr>"

inductive reached :: "env \<Rightarrow> locals list \<Rightarrow> nat set \<Rightarrow> sys \<Rightarrow> bool" for E ls base where
  init: "reached E ls base (start ls base)"
| more: "reached E ls base s \<Longrightarrow> step E s s' \<Longrightarrow> reached E ls base s'"

end
