(* ===== verification/ProxyProps.thy ===== *)
theory ProxyProps
  imports Proxy
begin

text \<open>
  The proxy of \<open>proxylab-handout/proxy.c\<close> between a client and a server that make no errors:
  whatever portions the bytes arrive in and are taken in, the server gets the request and the client
  the response byte for byte.
\<close>

subsection \<open>Connections without errors\<close>

definition quiet :: "arrival list \<Rightarrow> bool" where
  "quiet as \<longleftrightarrow> (\<forall>a\<in>set as. case a of Data s \<Rightarrow> s \<noteq> [] | _ \<Rightarrow> False)"

definition willing :: "taking list \<Rightarrow> bool" where
  "willing ws \<longleftrightarrow> (\<forall>w\<in>set ws. case w of Took k \<Rightarrow> True | _ \<Rightarrow> False)"

text \<open>A connection from which \<open>s\<close> will arrive.\<close>

definition gives :: "conn \<Rightarrow> string \<Rightarrow> bool" where
  "gives c s \<longleftrightarrow> quiet (c_in c) \<and> arrived (c_in c) = s \<and> willing (c_ws c)"

lemma read_byte:
  assumes "quiet as" "arrived as = c # s"
  obtains as' where "read (Suc 0) as = (Got [c], as')" "quiet as'" "arrived as' = s"
proof -
  obtain d as0 where as: "as = Data d # as0" "d \<noteq> []" "quiet as0"
    using assms by (cases as) (auto simp: quiet_def split: arrival.splits)
  then obtain d' where d: "d = c # d'" "s = d' @ arrived as0" using assms(2) by (cases d) auto
  show ?thesis
  proof (cases "d' = []")
    case True
    then show ?thesis using as d by (intro that [of as0]) simp_all
  next
    case False
    then show ?thesis using as d by (intro that [of "Data d' # as0"]) (simp_all add: quiet_def Suc_le_eq)
  qed
qed

lemma read_end: "quiet as \<Longrightarrow> arrived as = [] \<Longrightarrow> as = []"
  by (cases as) (auto simp: quiet_def split: arrival.splits)

lemma readline_run:
  assumes "quiet as" "arrived as = xs @ LF # rest" "LF \<notin> set xs" "i + length xs < len" "len \<le> length buf"
  shows "\<exists>as'. readline_loop i len buf as =
      (int (i + length xs + 1), take i buf @ xs @ LF # drop (i + length xs + 1) buf, as') \<and>
    quiet as' \<and> arrived as' = rest"
  using assms
proof (induction xs arbitrary: i buf as)
  case Nil
  obtain as' where r: "read (Suc 0) as = (Got [LF], as')" "quiet as'" "arrived as' = rest"
    using read_byte Nil.prems(1,2) by (metis append_Nil)
  have "buf[i := LF] = take i buf @ LF # drop (i + 1) buf" using Nil.prems(4,5) by (simp add: upd_conv_take_nth_drop)
  then have "readline_loop i len buf as = (int (i + 1), take i buf @ LF # drop (i + 1) buf, as')"
    using Nil.prems(4) r(1) by (subst readline_loop.simps) simp
  then show ?case using r(2,3) by simp
next
  case (Cons x xs)
  obtain as' where r: "read (Suc 0) as = (Got [x], as')" "quiet as'" "arrived as' = xs @ LF # rest"
    using read_byte Cons.prems(1,2) by (metis append_Cons)
  have i: "i < len" "i < length buf" using Cons.prems(4,5) by simp_all
  have "readline_loop i len buf as = readline_loop (i + 1) len (buf[i := x]) as'"
    using i(1) r(1) Cons.prems(3) by (subst readline_loop.simps) auto
  moreover have "take (i + 1) (buf[i := x]) = take i buf @ [x]" using i(2) by (simp add: take_Suc_conv_app_nth)
  moreover obtain as'' where "readline_loop (i + 1) len (buf[i := x]) as' =
      (int (i + 1 + length xs + 1), take (i + 1) (buf[i := x]) @ xs @ LF # drop (i + 1 + length xs + 1) (buf[i := x]), as'')"
      "quiet as''" "arrived as'' = rest"
    using Cons.IH [OF r(2,3), of "i + 1" "buf[i := x]"] Cons.prems(3-5) by auto
  ultimately show ?case by simp
qed

text \<open>A line, its newline included.\<close>

definition is_line :: "string \<Rightarrow> bool" where
  "is_line l \<longleftrightarrow> l \<noteq> [] \<and> last l = LF \<and> LF \<notin> set (butlast l) \<and> length l \<le> MAXLINE"

lemma readline_ok:
  assumes "gives c (l @ rest)" "is_line l" "length buf = MAXLINE"
  obtains c' where "readline c buf MAXLINE = (int (length l), over l buf, c')" "gives c' rest" "c_out c' = c_out c"
    "length (over l buf) = MAXLINE" "take (length l) (over l buf) = l"
proof -
  obtain xs where xs: "l = xs @ [LF]" "LF \<notin> set xs"
    using assms(2) by (metis is_line_def append_butlast_last_id)
  have g: "quiet (c_in c)" "arrived (c_in c) = xs @ LF # rest" "willing (c_ws c)" using assms(1) xs by (simp_all add: gives_def)
  have n: "length xs < MAXLINE" using assms(2) xs by (simp add: is_line_def)
  obtain as' where "readline_loop 0 MAXLINE buf (c_in c) = (int (length xs + 1), xs @ LF # drop (length xs + 1) buf, as')"
      "quiet as'" "arrived as' = rest"
    using readline_run [OF g(1,2) xs(2), of 0 MAXLINE buf] n assms(3) by auto
  then show ?thesis using xs g(3) n assms(3) by (intro that [of "c\<lparr>c_in := as'\<rparr>"]) (simp_all add: readline_def over_def gives_def)
qed

lemma writebuf_run:
  "willing (c_ws c) \<Longrightarrow> i \<le> length buf \<Longrightarrow>
    \<exists>ws. writebuf_loop buf i c = (int (length buf), c\<lparr>c_out := c_out c @ drop i buf, c_ws := ws\<rparr>) \<and> willing ws"
proof (induction buf i c rule: writebuf_loop.induct)
  case (1 buf i c)
  show ?case
  proof (cases "i < length buf")
    case False
    then have "writebuf_loop buf i c = (int (length buf), c)" using 1(3) by (subst writebuf_loop.simps) simp
    then show ?thesis using False 1(2) by (intro exI [of _ "c_ws c"]) simp
  next
    case True
    obtain k ws where w: "write' (length buf - i) (c_ws c) = (Put k, ws)" "willing ws" "k \<le> length buf - i"
      using 1(2) by (cases "(length buf - i, c_ws c)" rule: write'.cases) (auto simp: willing_def)
    let ?c = "c\<lparr>c_out := c_out c @ take k (drop i buf), c_ws := ws\<rparr>"
    have "writebuf_loop buf i c = writebuf_loop buf (i + k) ?c" using True w(1) by (subst writebuf_loop.simps) simp
    moreover have "take k (drop i buf) @ drop (i + k) buf = drop i buf"
      by (metis append_take_drop_id drop_drop add.commute)
    ultimately show ?thesis using 1(1) [OF True w(1) [symmetric] refl] w(2,3) True by auto
  qed
qed

lemma writebuf_ok:
  assumes "gives c s"
  obtains c' where "writebuf c buf = (int (length buf), c')" "gives c' s" "c_out c' = c_out c @ buf"
proof -
  obtain ws where "writebuf_loop buf 0 c = (int (length buf), c\<lparr>c_out := c_out c @ drop 0 buf, c_ws := ws\<rparr>)" "willing ws"
    using writebuf_run [of c 0 buf] assms by (auto simp: gives_def)
  then show ?thesis using assms by (intro that [of "c\<lparr>c_out := c_out c @ buf, c_ws := ws\<rparr>"]) (simp_all add: writebuf_def gives_def)
qed

subsection \<open>Numbers and prefixes in an array\<close>

lemma atoi_number:
  assumes "\<not> is_digit d" "n < 2147483648"
  shows "atoi (dec_nat n @ d # r) = Some (int n)"
proof -
  obtain c cs where c: "dec_nat n = c # cs" "is_digit c"
    using dec_nat_digits [of n] dec_nat_ne [of n] by (cases "dec_nat n") auto
  have n: "\<not> is_space c" "c \<noteq> CHR ''-''" "c \<noteq> CHR ''+''" using c(2) by (auto simp: is_digit_def is_space_def)
  have d: "digits 0 (c # cs @ d # r) = (n, d # r)"
    using digits_append [OF dec_nat_digits, of 0 n "d # r"] digits_dec [of n] assms(1) c(1) by simp
  have w: "dropWhile is_space (c # cs @ d # r) = c # cs @ d # r" using n(1) by simp
  have "to_int (clamp (int n)) = int n" using assms(2) by (simp add: to_int_def clamp_def signed_take_bit_int_eq_self)
  then show ?thesis
    using c n d w by (simp add: atoi_def strtol_def Let_def del: digits.simps dropWhile.simps)
qed

lemma strchr_append: "c \<notin> set w \<Longrightarrow> NUL \<notin> set w \<Longrightarrow> strchr c (w @ c # r) = Some (w, r)"
  by (simp add: strchr_def)

lemma map_lower_eq_length: "map lower xs = map lower ys \<Longrightarrow> length xs = length ys"
  by (rule map_eq_imp_length_eq)

text \<open>A line that ends in a newline decides the comparison with a text without newline.\<close>

lemma lower_LF: "lower c = lower LF \<Longrightarrow> c = LF"
proof -
  assume a: "lower c = lower LF"
  have l: "lower LF = LF" by (simp add: lower_def LF_def)
  show "c = LF"
  proof (cases "65 \<le> (of_char c :: nat) \<and> (of_char c :: nat) \<le> 90")
    case True
    then have "lower c = char_of ((of_char c :: nat) + 32)" by (simp add: lower_def)
    then have "(of_char (lower c) :: nat) = of_char c + 32" using True by (simp add: of_char_of)
    then have "(of_char LF :: nat) = of_char c + 32" using a l by simp
    then show ?thesis using True by (simp add: LF_def)
  qed (use a l in \<open>auto simp: lower_def split: if_splits\<close>)
qed

lemma same_case_append:
  assumes "LF \<in> set l" "LF \<notin> set t"
  shows "same_case (l @ r) t \<longleftrightarrow> same_case l t"
proof (cases "length t \<le> length l")
  case False
  have "\<not> map lower (take (length t) (l @ r)) = map lower t"
  proof
    assume e: "map lower (take (length t) (l @ r)) = map lower t"
    obtain i where i: "i < length l" "l ! i = LF" using assms(1) by (metis in_set_conv_nth)
    then have "i < length t" "i < length (take (length t) (l @ r))" using False by simp_all
    then have "lower (t ! i) = lower LF" using e i by (metis nth_append nth_map nth_take)
    then show False using lower_LF assms(2) \<open>i < length t\<close> by (metis nth_mem)
  qed
  moreover have "\<not> same_case l t"
    using False map_lower_eq_length [of "take (length t) l" t] by (auto simp: same_case_def)
  ultimately show ?thesis by (simp add: same_case_def)
qed (simp add: same_case_def)

lemma content_length_chars: "LF \<notin> set content_length" "length content_length = 14"
  by (simp_all add: content_length_def LF_def)

subsection \<open>Headers\<close>

text \<open>A header line is one that does not start with the name looked for, or states the length.\<close>

datatype field = Other string | Length string nat

fun text_of :: "field \<Rightarrow> string" where
  "text_of (Other l) = l"
| "text_of (Length c n) = c @ CHR '' '' # dec_nat n @ [CR, LF]"

fun field_ok :: "field \<Rightarrow> bool" where
  "field_ok (Other l) \<longleftrightarrow> is_line l \<and> l \<noteq> [CR, LF] \<and> \<not> same_case l content_length"
| "field_ok (Length c n) \<longleftrightarrow> is_line (text_of (Length c n)) \<and> same_case c content_length \<and>
     CHR '' '' \<notin> set c \<and> NUL \<notin> set c \<and> n < 2147483648"

fun stated :: "int \<Rightarrow> field list \<Rightarrow> int" where
  "stated v [] = v"
| "stated v (Other l # fs) = stated v fs"
| "stated v (Length c n # fs) = stated (int n) fs"

definition header :: "field list \<Rightarrow> string" where
  "header fs = concat (map text_of fs) @ [CR, LF]"

lemma field_line: "field_ok f \<Longrightarrow> is_line (text_of f)"
  by (cases f) simp_all

lemma end_line: "is_line [CR, LF]" "\<not> same_case ([CR, LF] @ r) content_length"
proof -
  show "is_line [CR, LF]" by (simp add: is_line_def CR_def LF_def MAXLINE_def)
  have "\<not> same_case [CR, LF] content_length"
    using map_lower_eq_length [of "[CR, LF]" content_length] by (auto simp: same_case_def content_length_def)
  then show "\<not> same_case ([CR, LF] @ r) content_length"
    using same_case_append [of "[CR, LF]" content_length r] content_length_chars by simp
qed

lemma take_two:
  assumes "is_line l" "l \<noteq> [CR, LF]"
  shows "take 2 (l @ r) \<noteq> [CR, LF]"
proof
  assume e: "take 2 (l @ r) = [CR, LF]"
  have l: "l \<noteq> []" "last l = LF" "LF \<notin> set (butlast l)" using assms(1) by (simp_all add: is_line_def)
  then obtain a x where a: "l = a # x" by (cases l) auto
  have "a = CR" using e a by simp
  then have "x \<noteq> []" using l(2) a by (auto simp: CR_def LF_def)
  then obtain b y where "x = b # y" by (cases x) auto
  then have "l = CR # LF # y" using e a by simp
  then show False using l assms(2) by (cases y) auto
qed

lemma length_field:
  assumes "field_ok (Length c n)"
  shows "map lower (take 14 c) = map lower content_length" "14 \<le> length c"
    "CHR '' '' \<notin> set c" "NUL \<notin> set c" "n < 2147483648"
proof -
  show c: "map lower (take 14 c) = map lower content_length"
    and "CHR '' '' \<notin> set c" "NUL \<notin> set c" "n < 2147483648"
    using assms by (simp_all add: same_case_def content_length_chars(2))
  have "length (take 14 c) = 14" using map_lower_eq_length [OF c] content_length_chars(2) by simp
  then show "14 \<le> length c" by simp
qed

lemma field_ne: "field_ok f \<Longrightarrow> text_of f \<noteq> [CR, LF]"
proof (cases f)
  case (Length c n)
  assume "field_ok f"
  then have "14 \<le> length c" using length_field(2) Length by blast
  then have "14 \<le> length (text_of f)" using Length by simp
  then show ?thesis by auto
qed simp

text \<open>The value the loop takes from a line.\<close>

lemma field_value:
  assumes "field_ok f"
  shows "(if same_case (text_of f @ r) content_length
      then do { (_, v) \<leftarrow> strchr CHR '' '' (text_of f @ r); atoi v } else Some v0) = Some (stated v0 [f])"
proof -
  have LF: "LF \<in> set (text_of f)" using field_line [OF assms] by (metis is_line_def last_in_set)
  note s = same_case_append [OF LF content_length_chars(1), of r]
  show ?thesis
  proof (cases f)
    case (Other l)
    then show ?thesis using assms s by simp
  next
    case (Length c n)
    note c = length_field [OF assms [unfolded Length]]
    have "take 14 (text_of f) = take 14 c" using c(2) Length by simp
    then have "same_case (text_of f) content_length"
      using c(1) by (simp add: same_case_def content_length_chars(2))
    then have 1: "same_case (text_of f @ r) content_length = True" using s by blast
    have "text_of f @ r = c @ CHR '' '' # (dec_nat n @ CR # LF # r)" using Length by simp
    then have 2: "strchr CHR '' '' (text_of f @ r) = Some (c, dec_nat n @ CR # LF # r)"
      using strchr_append [OF c(3,4)] by presburger
    have 3: "atoi (dec_nat n @ CR # LF # r) = Some (int n)"
      by (rule atoi_number [OF _ c(5)]) (simp add: is_digit_def CR_def)
    show ?thesis unfolding 1 2 if_True Option.bind.bind_lunit prod.case 3 unfolding Length stated.simps ..
  qed
qed

lemma relay_header_run:
  "gives fr (header fs @ rest) \<Longrightarrow> gives to s \<Longrightarrow> \<forall>f\<in>set fs. field_ok f \<Longrightarrow> length buf = MAXLINE \<Longrightarrow>
    0 \<le> m \<Longrightarrow> m + int (length (header fs)) \<le> INT_MAX \<Longrightarrow>
    \<exists>buf' fr' to'. relay_header_loop m v buf fr to = Some (m + int (length (header fs)), stated v fs, buf', fr', to') \<and>
      length buf' = MAXLINE \<and> gives fr' rest \<and> c_out fr' = c_out fr \<and> gives to' s \<and> c_out to' = c_out to @ header fs"
proof (induction fs arbitrary: m v buf fr to)
  case Nil
  have "gives fr ([CR, LF] @ rest)" using Nil(1) by (simp add: header_def)
  then obtain fr' where r: "readline fr buf MAXLINE = (int (length [CR, LF]), over [CR, LF] buf, fr')" "gives fr' rest"
      "c_out fr' = c_out fr" "length (over [CR, LF] buf) = MAXLINE" "take (length [CR, LF]) (over [CR, LF] buf) = [CR, LF]"
    by (rule readline_ok [OF _ end_line(1) Nil(4)])
  have t: "take 2 (over [CR, LF] buf) = [CR, LF]" by (simp add: over_def)
  obtain to' where w: "writebuf to [CR, LF] = (int (length [CR, LF]), to')" "gives to' s" "c_out to' = c_out to @ [CR, LF]"
    by (rule writebuf_ok [OF Nil(2)])
  have "\<not> same_case (over [CR, LF] buf) content_length" unfolding over_def by (rule end_line(2))
  then have "relay_header_loop m v buf fr to = Some (m + 2, v, over [CR, LF] buf, fr', to')"
    using r(1) w(1) t Nil(6) by (subst relay_header_loop.simps) (simp add: Let_def header_def)
  then show ?case using r w by (simp add: header_def)
next
  case (Cons f fs)
  let ?l = "text_of f" and ?b = "over (text_of f) buf"
  have f: "field_ok f" "is_line ?l" "?l \<noteq> []" using Cons.prems(3) field_line [of f] by (auto simp: is_line_def)
  have ne: "?l \<noteq> [CR, LF]" by (rule field_ne [OF f(1)])
  have "gives fr (?l @ header fs @ rest)" using Cons.prems(1) by (simp add: header_def)
  then obtain fr' where r: "readline fr buf MAXLINE = (int (length ?l), ?b, fr')" "gives fr' (header fs @ rest)"
      "c_out fr' = c_out fr" "length ?b = MAXLINE" "take (length ?l) ?b = ?l"
    by (rule readline_ok [OF _ f(2) Cons.prems(4)])
  obtain to' where w: "writebuf to ?l = (int (length ?l), to')" "gives to' s" "c_out to' = c_out to @ ?l"
    by (rule writebuf_ok [OF Cons.prems(2)])
  have m: "m + int (length ?l) \<le> INT_MAX" using Cons.prems(6) by (simp add: header_def)
  have v: "(if same_case ?b content_length then do { (_, v) \<leftarrow> strchr CHR '' '' ?b; atoi v } else Some v) = Some (stated v [f])"
    using field_value [OF f(1)] unfolding over_def .
  have "take 2 ?b \<noteq> [CR, LF]" unfolding over_def by (rule take_two [OF f(2) ne])
  then have step: "relay_header_loop m v buf fr to = relay_header_loop (m + int (length ?l)) (stated v [f]) ?b fr' to'"
    using r(1,5) w(1) v f(3) m by (subst relay_header_loop.simps) (simp add: Let_def)
  have st: "stated (stated v [f]) fs = stated v (f # fs)" by (cases f) simp_all
  have m': "0 \<le> m + int (length ?l)" "m + int (length ?l) + int (length (header fs)) \<le> INT_MAX"
    using Cons.prems(5,6) by (simp_all add: header_def)
  have fs: "\<forall>f\<in>set fs. field_ok f" using Cons.prems(3) by simp
  show ?case
    using Cons.IH [OF r(2) w(2) fs r(4) m', of "stated v [f]"] r(3) w(3)
    unfolding step st by (force simp: header_def)
qed


subsection \<open>The content\<close>

text \<open>How much of what arrives belongs to the content: all of it when no length is stated.\<close>

definition share :: "int \<Rightarrow> string \<Rightarrow> string" where
  "share n s = (if n = 0 then s else take (nat n) s)"

text \<open>One byte of the content: the counter goes on, unless it overflows.\<close>

lemma relay_content_step:
  assumes "gives fr (x # body)" "gives to s" "length buf = MAXLINE" "j \<le> MAXLINE" "\<not> (n \<noteq> 0 \<and> int i = n)"
  obtains fr' j' to0 where "gives fr' body" "c_out fr' = c_out fr" "gives to0 s" "j' < MAXLINE"
    "c_out to0 @ take (j' + 1) (buf[j' := x]) = c_out to @ take j buf @ [x]"
    "relay_content_loop i j n buf MAXLINE fr to =
      (if INT_MAX < int (i + 1) then None else relay_content_loop (i + 1) (j' + 1) n (buf[j' := x]) MAXLINE fr' to0)"
proof -
  obtain to' where w: "writebuf to (take j buf) = (int (length (take j buf)), to')" "gives to' s" "c_out to' = c_out to @ take j buf"
    by (rule writebuf_ok [OF assms(2)])
  obtain as where r: "read (Suc 0) (c_in fr) = (Got [x], as)" "quiet as" "arrived as = body"
    using read_byte assms(1) unfolding gives_def by metis
  let ?fr = "fr\<lparr>c_in := as\<rparr>"
  have fr: "gives ?fr body" using r assms(1) by (simp add: gives_def)
  show thesis
  proof (cases "j = MAXLINE")
    case True
    then have l: "relay_content_loop i j n buf MAXLINE fr to =
        (if INT_MAX < int (i + 1) then None else relay_content_loop (i + 1) (0 + 1) n (buf[0 := x]) MAXLINE ?fr to')"
      using assms(5) w(1) r(1) by (subst relay_content_loop.simps) (auto simp: Let_def)
    have "take (0 + 1) (buf[0 := x]) = [x]" using assms(3) by (cases buf) (simp_all add: MAXLINE_def)
    then show ?thesis by (intro that [OF fr _ w(2) _ _ l]) (use True assms(3) w(3) in \<open>simp_all add: MAXLINE_def\<close>)
  next
    case False
    then have l: "relay_content_loop i j n buf MAXLINE fr to =
        (if INT_MAX < int (i + 1) then None else relay_content_loop (i + 1) (j + 1) n (buf[j := x]) MAXLINE ?fr to)"
      using assms(5) r(1) by (subst relay_content_loop.simps) (auto simp: Let_def)
    have "take (j + 1) (buf[j := x]) = take j buf @ [x]" using False assms(3,4) by (simp add: take_Suc_conv_app_nth)
    then show ?thesis by (intro that [OF fr _ assms(2) _ _ l]) (use False assms(4) in simp_all)
  qed
qed

lemma relay_content_run:
  "gives fr body \<Longrightarrow> gives to s \<Longrightarrow> length buf = MAXLINE \<Longrightarrow> j \<le> MAXLINE \<Longrightarrow> n = 0 \<or> int i \<le> n \<Longrightarrow>
    k = (if n = 0 then length body else min (nat n - i) (length body)) \<Longrightarrow> int (i + k) \<le> INT_MAX \<Longrightarrow>
    \<exists>buf' fr' to'. relay_content_loop i j n buf MAXLINE fr to = Some (int (i + k), buf', fr', to') \<and>
      length buf' = MAXLINE \<and> gives fr' (drop k body) \<and> c_out fr' = c_out fr \<and>
      gives to' s \<and> c_out to' = c_out to @ take j buf @ take k body"
proof (induction body arbitrary: i j buf fr to k)
  case Nil
  obtain to' where w: "writebuf to (take j buf) = (int (length (take j buf)), to')" "gives to' s" "c_out to' = c_out to @ take j buf"
    by (rule writebuf_ok [OF Nil(2)])
  have k: "k = 0" using Nil(6) by simp
  have c: "c_in fr = []" using Nil(1) read_end by (simp add: gives_def)
  show ?case
  proof (cases "n \<noteq> 0 \<and> int i = n")
    case True
    then have "relay_content_loop i j n buf MAXLINE fr to = Some (int i, buf, fr, to')"
      using w(1) by (subst relay_content_loop.simps) simp
    then show ?thesis using Nil w k by simp
  next
    case False
    show ?thesis
    proof (cases "j = MAXLINE")
      case True
      obtain to'' where w': "writebuf to' [] = (int (length ([] :: string)), to'')" "gives to'' s" "c_out to'' = c_out to' @ []"
        by (rule writebuf_ok [OF w(2)])
      have "relay_content_loop i j n buf MAXLINE fr to = Some (int i, buf, fr, to'')"
        using False w(1) w'(1) True c by (subst relay_content_loop.simps) (auto simp: Let_def)
      then show ?thesis using Nil w w' k by simp
    next
      case j: False
      have "relay_content_loop i j n buf MAXLINE fr to = Some (int i, buf, fr, to')"
        using False w(1) j c by (subst relay_content_loop.simps) (auto simp: Let_def)
      then show ?thesis using Nil w k by simp
    qed
  qed
next
  case (Cons x body)
  obtain to' where w: "writebuf to (take j buf) = (int (length (take j buf)), to')" "gives to' s" "c_out to' = c_out to @ take j buf"
    by (rule writebuf_ok [OF Cons.prems(2)])
  show ?case
  proof (cases "n \<noteq> 0 \<and> int i = n")
    case True
    then have "relay_content_loop i j n buf MAXLINE fr to = Some (int i, buf, fr, to')"
      using w(1) by (subst relay_content_loop.simps) simp
    moreover have "nat n = i" using True by linarith
    then have "k = 0" using True Cons.prems(6) by simp
    ultimately show ?thesis using Cons.prems w by simp
  next
    case False
    have i: "n = 0 \<or> int (i + 1) \<le> n" using False Cons.prems(5) by auto
    let ?k = "if n = 0 then length body else min (nat n - (i + 1)) (length body)"
    have k: "k = Suc ?k" using i Cons.prems(6) by auto
    have big: "\<not> INT_MAX < int (i + 1)" using k Cons.prems(7) by simp
    obtain fr0 j' to0 where t: "gives fr0 body" "c_out fr0 = c_out fr" "gives to0 s" "j' < MAXLINE"
      "c_out to0 @ take (j' + 1) (buf[j' := x]) = c_out to @ take j buf @ [x]"
      "relay_content_loop i j n buf MAXLINE fr to =
        (if INT_MAX < int (i + 1) then None else relay_content_loop (i + 1) (j' + 1) n (buf[j' := x]) MAXLINE fr0 to0)"
      by (rule relay_content_step [OF Cons.prems(1-4) False])
    have IH: "\<exists>buf' fr' to'. relay_content_loop (i + 1) (j' + 1) n (buf[j' := x]) MAXLINE fr0 to0 = Some (int (i + 1 + ?k), buf', fr', to') \<and>
      length buf' = MAXLINE \<and> gives fr' (drop ?k body) \<and> c_out fr' = c_out fr0 \<and>
      gives to' s \<and> c_out to' = c_out to0 @ take (j' + 1) (buf[j' := x]) @ take ?k body"
      by (rule Cons.IH [OF t(1,3) _ _ i refl]) (use Cons.prems(3,7) t(4) k in simp_all)
    have E: "int (i + 1 + ?k) = int (i + k)" "drop ?k body = drop k (x # body)"
      "c_out to0 @ take (j' + 1) (buf[j' := x]) @ take ?k body = c_out to @ take j buf @ take k (x # body)"
      using k t(5) by (simp_all only: append_assoc [symmetric]) simp_all
    show ?thesis using IH big unfolding t(2,6) E by simp
  qed
qed

text \<open>Without a stated length a content of 2 to the 31 bytes makes the counter overflow.\<close>

lemma long_content_run:
  "gives fr body \<Longrightarrow> gives to s \<Longrightarrow> length buf = MAXLINE \<Longrightarrow> j \<le> MAXLINE \<Longrightarrow> int i \<le> INT_MAX \<Longrightarrow>
    INT_MAX < int (i + length body) \<Longrightarrow> relay_content_loop i j 0 buf MAXLINE fr to = None"
proof (induction body arbitrary: i j buf fr to)
  case (Cons x body)
  obtain fr0 j' to0 where t: "gives fr0 body" "gives to0 s" "j' < MAXLINE"
    "relay_content_loop i j 0 buf MAXLINE fr to =
      (if INT_MAX < int (i + 1) then None else relay_content_loop (i + 1) (j' + 1) 0 (buf[j' := x]) MAXLINE fr0 to0)"
    by (rule relay_content_step [OF Cons.prems(1-4)]) auto
  show ?case
  proof (cases "INT_MAX < int (i + 1)")
    case False
    have "relay_content_loop (i + 1) (j' + 1) 0 (buf[j' := x]) MAXLINE fr0 to0 = None"
      by (rule Cons.IH [OF t(1,2)]) (use Cons.prems(3,6) t(3) False in simp_all)
    then show ?thesis unfolding t(4) by simp
  qed (simp add: t(4))
qed simp

lemma long_content:
  "gives fr body \<Longrightarrow> gives to s \<Longrightarrow> length buf = MAXLINE \<Longrightarrow> INT_MAX < int (length body) \<Longrightarrow>
    relay_content fr to 0 buf MAXLINE = None"
  unfolding relay_content_def by (rule long_content_run) (simp_all add: INT_MAX_def)

lemma relay_content_ok:
  assumes "gives fr body" "gives to s" "length buf = MAXLINE" "0 \<le> n" "int (length (share n body)) \<le> INT_MAX"
  obtains buf' fr' to' where "relay_content fr to n buf MAXLINE = Some (int (length (share n body)), buf', fr', to')"
    "length buf' = MAXLINE" "c_out fr' = c_out fr" "gives to' s" "c_out to' = c_out to @ share n body"
    "gives fr' (drop (length (share n body)) body)"
proof -
  let ?k = "if n = 0 then length body else min (nat n - 0) (length body)"
  have k: "?k = length (share n body)" "take (length (share n body)) body = share n body"
    by (auto simp: share_def min_def)
  have n: "n = 0 \<or> int 0 \<le> n" "int (0 + ?k) \<le> INT_MAX" using assms(4,5) k(1) by simp_all
  from relay_content_run [OF assms(1-3) le0 n(1) refl n(2)]
  obtain buf' fr' to' where "relay_content fr to n buf MAXLINE = Some (int (length (share n body)), buf', fr', to')"
    "length buf' = MAXLINE" "gives fr' (drop (length (share n body)) body)" "c_out fr' = c_out fr"
    "gives to' s" "c_out to' = c_out to @ share n body"
    unfolding k relay_content_def by auto
  then show thesis by (intro that)
qed

lemma relay_header_ok:
  assumes "gives fr (header fs @ rest)" "gives to s" "\<forall>f\<in>set fs. field_ok f" "length buf = MAXLINE"
    "int (length (header fs)) \<le> INT_MAX"
  obtains buf' fr' to' where "relay_header fr to buf = Some (int (length (header fs)), stated 0 fs, buf', fr', to')"
    "length buf' = MAXLINE" "gives fr' rest" "c_out fr' = c_out fr" "gives to' s" "c_out to' = c_out to @ header fs"
  using relay_header_run [OF assms(1-4), of 0 0] assms(5) that unfolding relay_header_def by auto

lemma stated_nonneg: "0 \<le> v \<Longrightarrow> 0 \<le> stated v fs"
  by (induction v fs rule: stated.induct) simp_all


subsection \<open>The first lines\<close>

fun port_text :: "nat option \<Rightarrow> string" where
  "port_text None = []"
| "port_text (Some p) = CHR '':'' # dec_nat p"

fun port_no :: "nat option \<Rightarrow> int" where
  "port_no None = 80"
| "port_no (Some p) = int p"

definition url :: "string \<Rightarrow> nat option \<Rightarrow> string \<Rightarrow> string" where
  "url h p path = http @ h @ port_text p @ path"

definition url_ok :: "string \<Rightarrow> nat option \<Rightarrow> string \<Rightarrow> bool" where
  "url_ok h p path \<longleftrightarrow> (\<forall>c\<in>set h. \<not> host_end c \<and> c \<noteq> NUL) \<and> CHR '' '' \<notin> set path \<and> NUL \<notin> set path \<and>
     (path = [] \<or> hd path = CHR ''/'') \<and> (case p of None \<Rightarrow> True | Some n \<Rightarrow> n < 2147483648)"

lemma strpbrk_append: "\<forall>c\<in>set h. \<not> host_end c \<and> c \<noteq> NUL \<Longrightarrow> host_end d \<Longrightarrow> strpbrk (h @ d # r) = Some (h, d # r)"
  by (induction h) (auto simp: host_end_def NUL_def CR_def LF_def)

lemma dec_nat_chars:
  shows "CHR '' '' \<notin> set (dec_nat n)" "NUL \<notin> set (dec_nat n)"
  using dec_nat_digits [of n] by (auto simp: is_digit_def NUL_def)

lemma url_chars:
  assumes "url_ok h p path"
  shows "CHR '' '' \<notin> set (url h p path)" "NUL \<notin> set (url h p path)"
proof -
  have "CHR '' '' \<notin> set h" "NUL \<notin> set h" using assms by (auto simp: url_ok_def host_end_def)
  moreover have "CHR '' '' \<notin> set (port_text p)" "NUL \<notin> set (port_text p)"
    using dec_nat_chars by (cases p; simp add: NUL_def)+
  ultimately show "CHR '' '' \<notin> set (url h p path)" "NUL \<notin> set (url h p path)"
    using assms by (auto simp: url_def url_ok_def http_def NUL_def)
qed

lemma parse_request_url:
  assumes "CHR '' '' \<notin> set m" "NUL \<notin> set m" "url_ok h p path"
  shows "parse_request (m @ CHR '' '' # url h p path @ CHR '' '' # r) q =
    Some (0, q\<lparr>q_method := over m (q_method q), q_hostname := h, q_port := port_no p, q_uri := url h p path\<rparr>)"
proof -
  let ?tok = "url h p path @ CHR '' '' # r"
  let ?rest = "port_text p @ path @ CHR '' '' # r"
  have 1: "strchr CHR '' '' (m @ CHR '' '' # ?tok) = Some (m, ?tok)" by (rule strchr_append [OF assms(1,2)])
  have 2: "strchr CHR '' '' ?tok = Some (url h p path, r)" by (rule strchr_append [OF url_chars [OF assms(3)]])
  have 3: "same_case ?tok http" "drop 7 ?tok = h @ ?rest" by (simp_all add: same_case_def url_def http_def)
  have h: "\<forall>c\<in>set h. \<not> host_end c \<and> c \<noteq> NUL" and path: "path = [] \<or> hd path = CHR ''/''"
    using assms(3) by (simp_all add: url_ok_def)
  obtain d t where d: "path @ CHR '' '' # r = d # t" "d = CHR '' '' \<or> d = CHR ''/''" using path by (cases path) auto
  have 4: "strpbrk (h @ ?rest) = Some (h, ?rest)"
    using strpbrk_append [OF h] d by (cases p) (auto simp: host_end_def)
  have 5: "(if hd ?rest = CHR '':'' then atoi (tl ?rest) else Some 80) = Some (port_no p)"
  proof (cases p)
    case None
    then show ?thesis using d by auto
  next
    case (Some n)
    have "atoi (dec_nat n @ d # t) = Some (int n)"
      by (rule atoi_number) (use d(2) Some assms(3) in \<open>auto simp: is_digit_def url_ok_def\<close>)
    then show ?thesis using Some d(1) by simp
  qed
  show ?thesis unfolding parse_request_def 1 using 2 3 4 5 by (simp add: Let_def)
qed

lemma parse_response_code:
  assumes "CHR '' '' \<notin> set w" "NUL \<notin> set w" "code < 2147483648"
  shows "parse_response (w @ CHR '' '' # dec_nat code @ CHR '' '' # r) = Some (int code)"
  using strchr_append [OF assms(1,2)] atoi_number [OF _ assms(3), of "CHR '' ''" r]
  by (simp add: parse_response_def is_digit_def)

definition request_line :: "string \<Rightarrow> string \<Rightarrow> nat option \<Rightarrow> string \<Rightarrow> string \<Rightarrow> string" where
  "request_line m h p path v = m @ CHR '' '' # url h p path @ CHR '' '' # v @ [CR, LF]"

definition status_line :: "string \<Rightarrow> nat \<Rightarrow> string \<Rightarrow> string" where
  "status_line w code reason = w @ CHR '' '' # dec_nat code @ CHR '' '' # reason @ [CR, LF]"

lemma lower_letters:
  "lower CHR ''G'' = CHR ''g''" "lower CHR ''E'' = CHR ''e''" "lower CHR ''T'' = CHR ''t''"
  "lower CHR ''H'' = CHR ''h''" "lower CHR ''A'' = CHR ''a''" "lower CHR ''D'' = CHR ''d''"
  "lower CHR ''P'' = CHR ''p''" "lower CHR ''O'' = CHR ''o''" "lower CHR ''S'' = CHR ''s''"
  "lower CHR ''p'' = CHR ''p''" "lower CHR ''o'' = CHR ''o''" "lower CHR ''s'' = CHR ''s''" "lower CHR ''t'' = CHR ''t''"
  "lower CHR ''h'' = CHR ''h''" "lower CHR ''e'' = CHR ''e''" "lower CHR ''a'' = CHR ''a''" "lower CHR ''d'' = CHR ''d''"
  by code_simp+

lemma same_method:
  assumes "m \<in> {''GET'', ''HEAD'', ''POST''}"
  shows "same_case (over m xs) ''post'' \<longleftrightarrow> m = ''POST''" "same_case (over m xs) ''head'' \<longleftrightarrow> m = ''HEAD''"
    "CHR '' '' \<notin> set m" "NUL \<notin> set m"
  using assms by (auto simp: same_case_def over_def lower_letters NUL_def)


subsection \<open>A request and its response\<close>

text \<open>What goes to the server behind the header, and what comes back.\<close>

definition sent_body :: "string \<Rightarrow> field list \<Rightarrow> string \<Rightarrow> string" where
  "sent_body m qs body = (if m = ''POST'' \<and> stated 0 qs \<noteq> 0 then share (stated 0 qs) body else [])"

definition returned :: "string \<Rightarrow> nat \<Rightarrow> field list \<Rightarrow> string \<Rightarrow> string" where
  "returned m code rs content =
    (if m \<noteq> ''HEAD'' \<and> 200 \<le> code \<and> code \<noteq> 204 \<and> code \<noteq> 304 then share (stated 0 rs) content else [])"

lemma relay_response_ok:
  assumes m: "m \<in> {''GET'', ''HEAD'', ''POST''}"
    and st: "is_line (status_line w code reason)" "CHR '' '' \<notin> set w" "NUL \<notin> set w" "code < 2147483648"
    and rs: "\<forall>f\<in>set rs. field_ok f"
    and g: "gives client x" "gives server (status_line w code reason @ header rs @ content)" "length buf = MAXLINE"
    and b: "int (length (header rs)) \<le> INT_MAX"
      "int (length (status_line w code reason) + length (returned m code rs content)) \<le> INT_MAX"
  obtains client' server' where
    "relay_response (over m xs) client server buf =
      Some (int (length (status_line w code reason) + length (returned m code rs content)), client', server')"
    "c_out client' = c_out client @ status_line w code reason @ header rs @ returned m code rs content"
    "c_out server' = c_out server"
proof -
  let ?l = "status_line w code reason" and ?n = "stated 0 rs"
  obtain server1 where 1: "readline server buf MAXLINE = (int (length ?l), over ?l buf, server1)"
      "gives server1 (header rs @ content)" "c_out server1 = c_out server" "length (over ?l buf) = MAXLINE"
      "take (length ?l) (over ?l buf) = ?l"
    by (rule readline_ok [OF g(2) st(1) g(3)])
  have l: "?l \<noteq> []" by (simp add: status_line_def)
  have "over ?l buf = w @ CHR '' '' # dec_nat code @ CHR '' '' # (reason @ [CR, LF] @ drop (length ?l) buf)"
    by (simp add: over_def status_line_def)
  then have 2: "parse_response (over ?l buf) = Some (int code)" using parse_response_code [OF st(2-4)] by presburger
  obtain client1 where 3: "writebuf client ?l = (int (length ?l), client1)" "gives client1 x" "c_out client1 = c_out client @ ?l"
    by (rule writebuf_ok [OF g(1)])
  obtain buf4 server4 client4 where 4: "relay_header server1 client1 (over ?l buf) =
        Some (int (length (header rs)), ?n, buf4, server4, client4)"
      "length buf4 = MAXLINE" "gives server4 content" "c_out server4 = c_out server1"
      "gives client4 x" "c_out client4 = c_out client1 @ header rs"
    by (rule relay_header_ok [OF 1(2) 3(2) rs 1(4) b(1)])
  have c: "2 \<le> int code div 100 \<longleftrightarrow> 200 \<le> code" by linarith
  note r = 1(1,5) 2 3(1) 4(1) l c same_method(2) [OF m]
  show thesis
  proof (cases "m \<noteq> ''HEAD'' \<and> 200 \<le> code \<and> code \<noteq> 204 \<and> code \<noteq> 304")
    case True
    then have r': "returned m code rs content = share ?n content" by (simp add: returned_def)
    then have b': "int (length (share ?n content)) \<le> INT_MAX" "\<not> INT_MAX < int (length ?l) + int (length (share ?n content))"
      using b(2) by simp_all
    obtain buf5 server5 client5 where 5: "relay_content server4 client4 ?n buf4 MAXLINE =
          Some (int (length (share ?n content)), buf5, server5, client5)"
        "c_out server5 = c_out server4" "c_out client5 = c_out client4 @ share ?n content"
      by (rule relay_content_ok [OF 4(3,5,2) stated_nonneg [of 0 rs, simplified] b'(1)])
    have "relay_response (over m xs) client server buf = Some (int (length ?l + length (share ?n content)), client5, server5)"
      using True b'(2) by (simp add: relay_response_def r 5(1) Let_def)
    then show ?thesis by (rule that [unfolded r']) (simp_all add: 5 4 3 1)
  next
    case False
    then have r': "returned m code rs content = []" by (auto simp: returned_def)
    have "relay_response (over m xs) client server buf = Some (int (length ?l + length ([] :: string)), client4, server4)"
      using False by (auto simp: relay_response_def r)
    then show ?thesis by (rule that [unfolded r']) (simp_all add: 4 3 1)
  qed
qed

lemma process_run:
  assumes m: "m \<in> {''GET'', ''HEAD'', ''POST''}" and url: "url_ok h p path" and rq: "is_line (request_line m h p path v)"
    and st: "is_line (status_line w code reason)" "CHR '' '' \<notin> set w" "NUL \<notin> set w" "code < 2147483648"
    and fs: "\<forall>f\<in>set qs. field_ok f" "\<forall>f\<in>set rs. field_ok f"
    and client: "gives client (request_line m h p path v @ header qs @ body)"
    and net: "n_lock net" "n_host net h" "n_socket net = Some fd" "n_connect net h (port16 (port_no p)) = Some server"
    and server: "gives server (status_line w code reason @ header rs @ content)"
    and buf: "length buf = MAXLINE"
    and b: "int (length (header qs)) \<le> INT_MAX" "int (length (sent_body m qs body)) \<le> INT_MAX" "int (length (header rs)) \<le> INT_MAX"
      "int (length (status_line w code reason) + length (returned m code rs content)) \<le> INT_MAX"
    and e: "entry = format_log_entry time_str host (url h p path) (int (length (status_line w code reason) + length (returned m code rs content)))"
  obtains t srv where
    "process True net time_str host q buf sockfd fds client = (if length entry < MAXLINE then Some t else None)"
    "t_server t = Some srv" "c_out srv = c_out server @ request_line m h p path v @ header qs @ sent_body m qs body"
    "c_out (t_client t) = c_out client @ status_line w code reason @ header rs @ returned m code rs content"
    "t_log t = Some entry"
proof -
  let ?l = "request_line m h p path v" and ?n = "stated 0 qs"
  let ?q = "q\<lparr>q_method := over m (q_method q), q_hostname := h, q_port := port_no p, q_uri := url h p path\<rparr>"
  obtain client1 where 1: "readline client buf MAXLINE = (int (length ?l), over ?l buf, client1)"
      "gives client1 (header qs @ body)" "c_out client1 = c_out client" "length (over ?l buf) = MAXLINE"
      "take (length ?l) (over ?l buf) = ?l"
    by (rule readline_ok [OF client rq buf])
  have l: "?l \<noteq> []" by (simp add: request_line_def)
  have "over ?l buf = m @ CHR '' '' # url h p path @ CHR '' '' # (v @ [CR, LF] @ drop (length ?l) buf)"
    by (simp add: over_def request_line_def)
  then have 2: "parse_request (over ?l buf) q = Some (0, ?q)"
    using parse_request_url [OF same_method(3,4) [OF m] url] by presburger
  have 3: "open_serverfd net h (port_no p) fds = (Some (fd, server), insert fd fds)" using net by (simp add: open_serverfd_def)
  obtain server1 where 4: "writebuf server ?l = (int (length ?l), server1)"
      "gives server1 (status_line w code reason @ header rs @ content)" "c_out server1 = c_out server @ ?l"
    by (rule writebuf_ok [OF server])
  obtain buf5 client5 server5 where 5: "relay_header client1 server1 (over ?l buf) =
        Some (int (length (header qs)), ?n, buf5, client5, server5)"
      "length buf5 = MAXLINE" "gives client5 body" "c_out client5 = c_out client1"
      "gives server5 (status_line w code reason @ header rs @ content)" "c_out server5 = c_out server1 @ header qs"
    by (rule relay_header_ok [OF 1(2) 4(2) fs(1) 1(4) b(1)])
  define X where "X = (if m = ''POST'' \<and> ?n \<noteq> 0 then map_option snd (relay_content client5 server5 ?n buf5 MAXLINE)
    else Some (buf5, client5, server5))"
  have "\<exists>buf7 client7 server7. X = Some (buf7, client7, server7) \<and> length buf7 = MAXLINE \<and> c_out client7 = c_out client \<and>
      c_out server7 = c_out server @ ?l @ header qs @ sent_body m qs body \<and>
      gives server7 (status_line w code reason @ header rs @ content) \<and> (\<exists>x. gives client7 x)"
  proof (cases "m = ''POST'' \<and> ?n \<noteq> 0")
    case True
    then have s: "sent_body m qs body = share ?n body" by (simp add: sent_body_def)
    obtain buf6 client6 server6 where 6: "relay_content client5 server5 ?n buf5 MAXLINE =
          Some (int (length (share ?n body)), buf6, client6, server6)"
        "length buf6 = MAXLINE" "c_out client6 = c_out client5"
        "gives server6 (status_line w code reason @ header rs @ content)" "c_out server6 = c_out server5 @ share ?n body"
        "gives client6 (drop (length (share ?n body)) body)"
      by (rule relay_content_ok [OF 5(3,5,2) stated_nonneg [of 0 qs, simplified] b(2) [unfolded s]])
    then show ?thesis using True 1(3) 4(3) 5(4,6) s by (auto simp: X_def)
  next
    case False
    then show ?thesis using 1(3) 4(3) 5 by (auto simp: X_def sent_body_def)
  qed
  then obtain buf7 client7 server7 where X: "X = Some (buf7, client7, server7)" and 7: "length buf7 = MAXLINE"
    "c_out client7 = c_out client" "c_out server7 = c_out server @ ?l @ header qs @ sent_body m qs body"
    "gives server7 (status_line w code reason @ header rs @ content)" "\<exists>x. gives client7 x"
    by blast
  from 7(5) obtain x where x: "gives client7 x" by blast
  obtain client8 server8 where 8: "relay_response (over m (q_method q)) client7 server7 buf7 =
        Some (int (length (status_line w code reason) + length (returned m code rs content)), client8, server8)"
      "c_out client8 = c_out client7 @ status_line w code reason @ header rs @ returned m code rs content"
      "c_out server8 = c_out server7"
    by (rule relay_response_ok [OF m st fs(2) x 7(4) 7(1) b(3,4)])
  have s: "int (length (status_line w code reason) + length (returned m code rs content)) \<noteq> 0"
    by (simp add: status_line_def)
  have E: "(if same_case (over m (q_method q)) ''post'' \<and> ?n \<noteq> 0
      then map_option snd (relay_content client5 server5 ?n buf5 MAXLINE)
      else Some (buf5, client5, server5)) = Some (buf7, client7, server7)"
    unfolding X [symmetric] X_def same_method(1) [OF m] by simp
  let ?t = "\<lparr>t_client = client8, t_server = Some server8, t_log = Some entry, t_fds = insert fd fds - {fd} - {sockfd}\<rparr>"
  have "process True net time_str host q buf sockfd fds client = (if length entry < MAXLINE then Some ?t else None)"
    using 8(1) s by (simp add: process_def 1(1,5) 2 3 4(1) 5(1) l E e not_less)
  then show ?thesis using 7(2,3) 8(2,3) by (intro that [of ?t server8]) simp_all
qed


text \<open>\<open>process\<close> writes the log entry into the buffer of a line. A URL that leaves no room for the time, the
  address and the size, which the request line has room for, makes it write behind the buffer.\<close>

lemma dec_nat_pos: "1 \<le> length (dec_nat n)"
  using dec_nat_ne [of n] by (cases "dec_nat n") auto

lemma log_entry_length: "length time_str + length uri + 12 \<le> length (format_log_entry time_str host uri (int k))"
  using dec_nat_pos [of "host div 16777216 mod 256"] dec_nat_pos [of "host div 65536 mod 256"]
    dec_nat_pos [of "host div 256 mod 256"] dec_nat_pos [of "host mod 256"] dec_nat_pos [of k]
  by (simp add: format_log_entry_def dec_def Let_def)

lemma log_overflow:
  assumes m: "m \<in> {''GET'', ''HEAD'', ''POST''}" and url: "url_ok h p path" and rq: "is_line (request_line m h p path v)"
    and st: "is_line (status_line w code reason)" "CHR '' '' \<notin> set w" "NUL \<notin> set w" "code < 2147483648"
    and fs: "\<forall>f\<in>set qs. field_ok f" "\<forall>f\<in>set rs. field_ok f"
    and client: "gives client (request_line m h p path v @ header qs @ body)"
    and net: "n_lock net" "n_host net h" "n_socket net = Some fd" "n_connect net h (port16 (port_no p)) = Some server"
    and server: "gives server (status_line w code reason @ header rs @ content)"
    and buf: "length buf = MAXLINE"
    and size: "int (length (header qs)) \<le> INT_MAX" "int (length (sent_body m qs body)) \<le> INT_MAX" "int (length (header rs)) \<le> INT_MAX"
      "int (length (status_line w code reason) + length (returned m code rs content)) \<le> INT_MAX"
    and long: "MAXLINE \<le> length time_str + length (url h p path) + 12"
  shows "process True net time_str host q buf sockfd fds client = None"
proof -
  let ?e = "format_log_entry time_str host (url h p path) (int (length (status_line w code reason) + length (returned m code rs content)))"
  have "length time_str + length (url h p path) + 12 \<le> length ?e" by (rule log_entry_length)
  then have "\<not> length ?e < MAXLINE" using long by linarith
  then show ?thesis using process_run [OF assms(1-20) refl] by metis
qed

definition ex_client :: conn where
  "ex_client = \<lparr>c_in = [Data ''POST http://h:8'', Data (''1/a HTTP/1.0'' @ [CR]), Data (LF # ''Content-Length: 2'' @ [CR, LF]),
     Data [CR, LF, CHR ''x''], Data ''yz''], c_out = [], c_ws = [Took 3, Took 0]\<rparr>"

definition ex_server :: conn where
  "ex_server = \<lparr>c_in = [Data (''HTTP/1.0 200 OK'' @ [CR, LF] @ ''A: b''), Data [CR, LF, CR, LF], Data ''hi''],
     c_out = [], c_ws = [Took 7]\<rparr>"

definition ex_net :: net where
  "ex_net = \<lparr>n_lock = True, n_host = (\<lambda>h. h = ''h''), n_socket = Some 5,
     n_connect = (\<lambda>h p. if h = ''h'' \<and> p = 81 then Some ex_server else None)\<rparr>"

lemma ex_dec: "dec_nat 2 = ''2''" "dec_nat 81 = ''81''" "dec_nat 200 = ''200''"
  by (simp_all add: dec_nat.simps digit_table)

lemma ex_letters:
  "lower CHR ''C'' = CHR ''c''" "lower CHR ''n'' = CHR ''n''" "lower CHR ''L'' = CHR ''l''" "lower CHR ''g'' = CHR ''g''"
  "lower CHR ''-'' = CHR ''-''" "lower CHR '':'' = CHR '':''" "lower CHR '' '' = CHR '' ''" "lower CHR ''b'' = CHR ''b''"
  by code_simp+

definition ex_request :: request where
  "ex_request = \<lparr>q_method = replicate 16 NUL, q_uri = [], q_hostname = [], q_port = 0\<rparr>"

abbreviation "ex_qs \<equiv> [Length ''Content-Length:'' 2]"
abbreviation "ex_rs \<equiv> [Other (''A: b'' @ [CR, LF])]"
abbreviation "ex_entry \<equiv> format_log_entry ''now'' 2130706433 (url ''h'' (Some 81) ''/a'')
  (int (length (status_line ''HTTP/1.0'' 200 ''OK'') + length (returned ''POST'' 200 ex_rs ''hi'')))"

text \<open>What the transparency of the proxy asks of this exchange.\<close>

lemma ex_facts:
  shows "url_ok ''h'' (Some 81) ''/a''" "is_line (request_line ''POST'' ''h'' (Some 81) ''/a'' ''HTTP/1.0'')"
    "is_line (status_line ''HTTP/1.0'' 200 ''OK'')" "\<forall>f\<in>set ex_qs. field_ok f" "\<forall>f\<in>set ex_rs. field_ok f"
    "gives ex_client (request_line ''POST'' ''h'' (Some 81) ''/a'' ''HTTP/1.0'' @ header ex_qs @ ''xyz'')"
    "gives ex_server (status_line ''HTTP/1.0'' 200 ''OK'' @ header ex_rs @ ''hi'')"
    "length ex_entry < MAXLINE" "int (length (header ex_qs)) \<le> INT_MAX"
    "int (length (sent_body ''POST'' ex_qs ''xyz'')) \<le> INT_MAX" "int (length (header ex_rs)) \<le> INT_MAX"
    "int (length (status_line ''HTTP/1.0'' 200 ''OK'') + length (returned ''POST'' 200 ex_rs ''hi'')) \<le> INT_MAX"
proof -
  note d = ex_dec ex_letters lower_letters is_line_def MAXLINE_def CR_def LF_def NUL_def request_line_def status_line_def url_def
    http_def header_def
  show "url_ok ''h'' (Some 81) ''/a''" by (auto simp: url_ok_def host_end_def d)
  show "is_line (request_line ''POST'' ''h'' (Some 81) ''/a'' ''HTTP/1.0'')" by (simp add: d)
  show "is_line (status_line ''HTTP/1.0'' 200 ''OK'')" by (simp add: d)
  show "\<forall>f\<in>set ex_qs. field_ok f" by (simp add: same_case_def content_length_def d)
  show "\<forall>f\<in>set ex_rs. field_ok f" by (simp add: same_case_def content_length_def d)
  show "gives ex_client (request_line ''POST'' ''h'' (Some 81) ''/a'' ''HTTP/1.0'' @ header ex_qs @ ''xyz'')"
    by (simp add: gives_def ex_client_def quiet_def willing_def d)
  show "gives ex_server (status_line ''HTTP/1.0'' 200 ''OK'' @ header ex_rs @ ''hi'')"
    by (simp add: gives_def ex_server_def quiet_def willing_def d)
  show "length ex_entry < MAXLINE"
    by (simp add: format_log_entry_def dec_def dec_nat.simps digit_table returned_def share_def d)
  show "int (length (header ex_qs)) \<le> INT_MAX" "int (length (sent_body ''POST'' ex_qs ''xyz'')) \<le> INT_MAX"
    "int (length (header ex_rs)) \<le> INT_MAX"
    "int (length (status_line ''HTTP/1.0'' 200 ''OK'') + length (returned ''POST'' 200 ex_rs ''hi'')) \<le> INT_MAX"
    by (simp_all add: INT_MAX_def sent_body_def returned_def share_def d)
qed


subsection \<open>Descriptors\<close>

text \<open>\<open>open_proxyfd\<close> leaves nothing open when it fails. The routines of \<open>csapp.c\<close> do, and so does \<open>main\<close>
  when it cannot create a thread.\<close>

lemma open_proxyfd_fds:
  "open_proxyfd l fds = (r, fds') \<Longrightarrow> l_socket l \<notin> Some ` fds \<Longrightarrow>
    fds' = (case r of None \<Rightarrow> fds | Some fd \<Rightarrow> insert fd fds)"
  by (auto simp: open_proxyfd_def Let_def split: option.splits if_splits)

lemma descriptors_leak:
  "open_clientfd (Some 5) True False {3, 4} = (- 1, {3, 4, 5})"
  "open_listenfd \<lparr>l_socket = Some 5, l_setsockopt = True, l_bind = False, l_listen = True\<rparr> {3, 4} = (- 1, {3, 4, 5})"
  "serve [Accepted 5 False] {3, 4} [] = ({3, 4, 5}, [])"
  by (auto simp: open_clientfd_def open_listenfd_def)

text \<open>While every thread can be created, the open descriptors of \<open>main\<close> are those it had and those of
  the threads that run.\<close>

lemma serve_fds:
  "\<forall>fd\<in>base. (\<forall>b. Accepted fd b \<notin> set es) \<and> Ended fd \<notin> set es \<Longrightarrow> \<forall>fd. Accepted fd False \<notin> set es \<Longrightarrow> base \<inter> set running = {} \<Longrightarrow>
    fst (serve es (base \<union> set running) running) = base \<union> set (snd (serve es (base \<union> set running) running))"
proof (induction es arbitrary: running)
  case (Cons e es)
  have p: "\<forall>fd\<in>base. (\<forall>b. Accepted fd b \<notin> set es) \<and> Ended fd \<notin> set es" "\<forall>fd. Accepted fd False \<notin> set es"
    using Cons.prems by auto
  show ?case
  proof (cases e)
    case Accept_error
    then show ?thesis using Cons.IH [OF p Cons.prems(3)] by simp
  next
    case (Accepted fd b)
    then have b: "b" "base \<inter> set (fd # running) = {}" using Cons.prems by auto
    show ?thesis using Cons.IH [OF p b(2)] Accepted b(1) by (simp add: Let_def)
  next
    case (Ended fd)
    then have r: "base \<inter> set (removeAll fd running) = {}" "base \<union> set running - {fd} = base \<union> set (removeAll fd running)"
      using Cons.prems by auto
    show ?thesis using Cons.IH [OF p r(1)] Ended r(2) by simp
  qed
qed simp

text \<open>C16: a thread closes the descriptors it is given or opens, on every path: when the request cannot be
  read or parsed, the server is not known or not reached, reading or writing fails in the middle, or all
  goes well, what is open at the end is what was open before without the client's connection.\<close>

theorem process_closes:
  assumes "process detached net time_str host q buf sockfd fds client = Some t" "n_socket net \<notin> Some ` fds"
  shows "t_fds t = fds - {sockfd}"
proof -
  have o: "(case r of None \<Rightarrow> fds' = fds | Some (fd, c) \<Rightarrow> fds' - {fd} = fds)"
    if "open_serverfd net h p fds = (r, fds')" for h p r fds'
    using that assms(2) by (auto simp: open_serverfd_def Let_def split: option.splits if_splits)
  show ?thesis
    using assms(1) by (auto simp: process_def Let_def split: if_splits prod.splits bind_splits option.splits dest!: o)
qed

theorem process_closes_witness:
  "\<exists>t. process True ex_net ''now'' 0 \<lparr>q_method = replicate 16 NUL, q_uri = [], q_hostname = [], q_port = 0\<rparr>
      (replicate MAXLINE NUL) 4 {3, 4} \<lparr>c_in = [Data ''GET x'', Data [CR, LF]], c_out = [], c_ws = []\<rparr> = Some t \<and> t_fds t = {3}"
proof -
  let ?q = "\<lparr>q_method = replicate 16 NUL, q_uri = [], q_hostname = [], q_port = 0\<rparr>"
  let ?c = "\<lparr>c_in = [Data ''GET x'', Data [CR, LF]], c_out = [], c_ws = []\<rparr>"
  let ?l = "''GET x'' @ [CR, LF]" and ?b = "replicate MAXLINE NUL"
  have g: "gives ?c (?l @ [])" by (simp add: gives_def quiet_def willing_def)
  have l: "is_line ?l" by (simp add: is_line_def CR_def LF_def MAXLINE_def)
  obtain c' where r: "readline ?c ?b MAXLINE = (int (length ?l), over ?l ?b, c')"
    by (rule readline_ok [OF g l length_replicate])
  define z where "z = CHR ''x'' # CR # LF # drop (length ?l) ?b"
  have b: "over ?l ?b = ''GET'' @ CHR '' '' # z" by (simp add: over_def z_def)
  have s: "strchr CHR '' '' (''GET'' @ CHR '' '' # z) = Some (''GET'', z)" by (rule strchr_append) (simp_all add: NUL_def)
  have "lower CHR ''x'' \<noteq> lower CHR ''h''" by code_simp
  then have h: "\<not> same_case z http" by (simp add: same_case_def http_def z_def)
  obtain q' where q': "parse_request (over ?l ?b) ?q = Some (- 1, q')" unfolding b parse_request_def s using h by (simp add: Let_def)
  obtain t where t: "process True ex_net ''now'' 0 ?q ?b 4 {3, 4} ?c = Some t" using r q' by (simp add: process_def Let_def)
  have "t_fds t = {3, 4} - {4}" by (rule process_closes [OF t]) (auto simp: ex_net_def)
  moreover have "{3, 4} - {4} = {3 :: nat}" by auto
  ultimately have "t_fds t = {3}" by (rule trans)
  with t show ?thesis by (intro exI [of _ t] conjI)
qed

end
