(* ===== verification/ThreadsProps.thy ===== *)
theory ThreadsProps
  imports Threads ProxyProps
begin

text \<open>
  The threads of the proxy do not disturb each other: whatever the order of their steps, each ends as
  \<open>process\<close> alone ends, the screen and the stream of the log get the same whole lines, and the threads do
  not block each other.
\<close>

subsection \<open>process in parts\<close>

lemma process_parts:
  "process detached net time_str host q buf sockfd fds client = do {
     r \<leftarrow> request_part detached q buf client;
     (case r of
        Inl c \<Rightarrow> Some \<lparr>t_client = c, t_server = None, t_log = None, t_fds = fds - {sockfd}\<rparr>
      | Inr (q, n, buf, c) \<Rightarrow>
          (case open_serverfd net (q_hostname q) (q_port q) fds of
             (None, fds) \<Rightarrow> Some \<lparr>t_client = c, t_server = None, t_log = None, t_fds = fds - {sockfd}\<rparr>
           | (Some (newfd, server), fds) \<Rightarrow> do {
               (k, c, s) \<leftarrow> relay_part q n buf c server;
               let entry = format_log_entry time_str host (q_uri q) k;
               if k \<noteq> 0 \<and> MAXLINE \<le> length entry then None
               else Some \<lparr>t_client = c, t_server = Some s, t_log = (if k \<noteq> 0 then Some entry else None),
                 t_fds = fds - {newfd} - {sockfd}\<rparr> })) }"
proof (cases "readline client buf MAXLINE")
  case (fields len b c)
  show ?thesis
  proof (cases "detached \<and> 0 < len \<and> parse_request b q \<noteq> None")
    case False
    then show ?thesis by (cases "parse_request b q") (auto simp: process_def request_part_def fields Let_def)
  next
    case True
    then obtain r q' where p: "detached" "0 < len" "parse_request b q = Some (r, q')" by auto
    obtain w fds' where o: "open_serverfd net (q_hostname q') (q_port q') fds = (w, fds')" by fastforce
    show ?thesis
    proof (cases "r = 0 \<and> w \<noteq> None")
      case False
      then show ?thesis by (cases w) (auto simp: process_def request_part_def fields p o Let_def)
    next
      case True
      then obtain newfd server where t: "r = 0" "w = Some (newfd, server)" by auto
      then show ?thesis
        by (simp add: process_def request_part_def relay_part_def fields p o Let_def bind_assoc case_prod_unfold cong: if_cong)
    qed
  qed
qed

subsection \<open>The stages of a thread\<close>

text \<open>The network as \<open>process\<close> alone sees it.\<close>

definition net_of :: "env \<Rightarrow> nat \<Rightarrow> bool \<Rightarrow> nat option \<Rightarrow> net" where
  "net_of E i lk fd = \<lparr>n_lock = lk, n_host = (\<lambda>h. dns E h \<noteq> None), n_socket = fd,
     n_connect = (\<lambda>h p. case dns E h of None \<Rightarrow> None | Some a \<Rightarrow> reach E i a p)\<rparr>"

text \<open>What \<open>fprintf\<close> does to the stream of the log, and that it does nothing else.\<close>

definition logged :: "shared \<Rightarrow> string" where
  "logged sh = log_file sh @ log_buf sh"

lemma log_put_simps [simp]:
  "logged (log_put k line sh) = logged sh @ line" "out (log_put k line sh) = out sh"
  "m_syscall (log_put k line sh) = m_syscall sh" "m_logfile (log_put k line sh) = m_logfile sh"
  "hostent (log_put k line sh) = hostent sh" "static_tm (log_put k line sh) = static_tm sh"
  "open_fds (log_put k line sh) = open_fds sh" "fault (log_put k line sh) = fault sh"
  by (simp_all add: log_put_def logged_def Let_def del: take_append drop_append)

lemma logged_simps [simp]:
  "logged (sh\<lparr>fault := b\<rparr>) = logged sh" "logged (sh\<lparr>open_fds := F\<rparr>) = logged sh" "logged (sh\<lparr>m_syscall := m\<rparr>) = logged sh"
  "logged (sh\<lparr>m_logfile := m\<rparr>) = logged sh" "logged (sh\<lparr>hostent := h\<rparr>) = logged sh" "logged (sh\<lparr>static_tm := x\<rparr>) = logged sh"
  "logged (sh\<lparr>out := u\<rparr>) = logged sh"
  by (simp_all add: logged_def)

text \<open>A thread that started with \<open>l0\<close> holds what \<open>process\<close> alone ends with.\<close>

definition alone :: "env \<Rightarrow> nat \<Rightarrow> locals \<Rightarrow> locals \<Rightarrow> bool" where
  "alone E i l0 l \<longleftrightarrow>
    (\<exists>lk fd t. process (l_detached l0) (net_of E i lk fd) (l_now l) (l_host l0) (l_req l0) (l_buf l0) (l_sock l) {} (l_client l0) = Some t \<and>
       t_client t = l_client l \<and> t_server t = l_server l \<and> t_log t = l_entry l)"

definition asked :: "locals \<Rightarrow> locals \<Rightarrow> conn \<Rightarrow> bool" where
  "asked l0 l c \<longleftrightarrow> l_host l = l_host l0 \<and>
     request_part (l_detached l0) (l_req l0) (l_buf l0) (l_client l0) = Some (Inr (l_req l, l_len l, l_buf l, c))"

definition waiting :: "locals \<Rightarrow> locals \<Rightarrow> bool" where
  "waiting l0 l \<longleftrightarrow> asked l0 l (l_client l) \<and> l_server l = None \<and> l_entry l = None"

definition known :: "env \<Rightarrow> locals \<Rightarrow> bool" where
  "known E l \<longleftrightarrow> dns E (q_hostname (l_req l)) = Some (l_addr l)"

definition connected :: "env \<Rightarrow> nat \<Rightarrow> locals \<Rightarrow> locals \<Rightarrow> conn \<Rightarrow> conn \<Rightarrow> bool" where
  "connected E i l0 l c s \<longleftrightarrow> asked l0 l c \<and> known E l \<and> reach E i (l_addr l) (port16 (q_port (l_req l))) = Some s"

definition relayed :: "env \<Rightarrow> nat \<Rightarrow> locals \<Rightarrow> locals \<Rightarrow> bool" where
  "relayed E i l0 l \<longleftrightarrow> (\<exists>c s srv. connected E i l0 l c s \<and>
     relay_part (l_req l) (l_len l) (l_buf l) c s = Some (l_sum l, l_client l, srv) \<and> l_server l = Some srv)"

definition noted :: "locals \<Rightarrow> bool" where
  "noted l \<longleftrightarrow> l_sum l \<noteq> 0 \<and> (\<exists>e. l_entry l = Some e \<and> length e < MAXLINE \<and>
     e = format_log_entry (l_now l) (l_host l) (q_uri (l_req l)) (l_sum l))"

text \<open>What holds of thread \<open>i\<close>, which started with \<open>l0\<close>, at each point.\<close>

fun stage :: "env \<Rightarrow> shared \<Rightarrow> nat \<Rightarrow> locals \<Rightarrow> pc \<times> locals \<Rightarrow> bool" where
  "stage E sh i l0 (p, l) = (case p of
     Arriving \<Rightarrow> l = l0
   | Reading \<Rightarrow> \<exists>k. l = l0\<lparr>l_sock := k\<rparr>
   | Locking \<Rightarrow> waiting l0 l
   | Resolving \<Rightarrow> waiting l0 l
   | Copying \<Rightarrow> waiting l0 l \<and> l_found l \<and> dns E (q_hostname (l_req l)) = Some (hostent sh)
   | Releasing \<Rightarrow> waiting l0 l \<and> (if l_found l then known E l else dns E (q_hostname (l_req l)) = None)
   | Opening \<Rightarrow> waiting l0 l \<and> known E l
   | Connecting \<Rightarrow> waiting l0 l \<and> known E l
   | Dropping \<Rightarrow> alone E i l0 l \<and> l_entry l = None
   | Relaying \<Rightarrow> \<exists>s. connected E i l0 l (l_client l) s \<and> l_server l = Some s \<and> l_entry l = None
   | Log_locking \<Rightarrow> relayed E i l0 l \<and> l_sum l \<noteq> 0 \<and> l_entry l = None
   | Stamping \<Rightarrow> relayed E i l0 l \<and> l_sum l \<noteq> 0 \<and> l_entry l = None
   | Formatting \<Rightarrow> relayed E i l0 l \<and> l_sum l \<noteq> 0 \<and> l_entry l = None \<and> static_tm sh = l_now l
   | Printing \<Rightarrow> relayed E i l0 l \<and> noted l
   | Writing \<Rightarrow> relayed E i l0 l \<and> noted l
   | Log_releasing \<Rightarrow> relayed E i l0 l \<and> noted l
   | Closing_server \<Rightarrow> alone E i l0 l
   | Closing \<Rightarrow> alone E i l0 l
   | Ended \<Rightarrow> alone E i l0 l)"

text \<open>The ways to the end.\<close>

lemma alone_gives_up:
  assumes "request_part (l_detached l0) (l_req l0) (l_buf l0) (l_client l0) = Some (Inl (l_client l))"
    and "l_server l = None" "l_entry l = None"
  shows "alone E i l0 l"
  unfolding alone_def process_parts by (rule exI [of _ True], rule exI [of _ None]) (simp add: assms)

lemma alone_not_opened:
  assumes "waiting l0 l" "fst (open_serverfd (net_of E i lk fd) (q_hostname (l_req l)) (q_port (l_req l)) {}) = None"
  shows "alone E i l0 l"
proof -
  obtain fds where "open_serverfd (net_of E i lk fd) (q_hostname (l_req l)) (q_port (l_req l)) {} = (None, fds)"
    using assms(2) by (metis prod.collapse)
  then show ?thesis using assms(1) unfolding alone_def process_parts waiting_def asked_def
    by (intro exI [of _ lk] exI [of _ fd]) simp
qed

lemma alone_relayed:
  assumes "relayed E i l0 l" "if l_sum l = 0 then l_entry l = None else noted l"
  shows "alone E i l0 l"
proof -
  obtain c s srv where r: "connected E i l0 l c s" "relay_part (l_req l) (l_len l) (l_buf l) c s = Some (l_sum l, l_client l, srv)"
      "l_server l = Some srv"
    using assms(1) unfolding relayed_def by blast
  have "open_serverfd (net_of E i True (Some 0)) (q_hostname (l_req l)) (q_port (l_req l)) {} = (Some (0, s), {0})"
    using r(1) by (simp add: open_serverfd_def net_of_def connected_def known_def)
  then show ?thesis using r assms(2) unfolding alone_def process_parts connected_def asked_def noted_def
    by (intro exI [of _ True] exI [of _ "Some 0"]) (auto split: if_splits)
qed

text \<open>Changes of a thread's own data that leave what is known of it.\<close>

lemma stage_data [simp]:
  "waiting l0 (l\<lparr>l_found := b\<rparr>) = waiting l0 l" "waiting l0 (l\<lparr>l_fd := fd\<rparr>) = waiting l0 l" "known E (l\<lparr>l_fd := fd\<rparr>) = known E l"
  "waiting l0 (l\<lparr>l_addr := h\<rparr>) = waiting l0 l"
  "relayed E i l0 (l\<lparr>l_now := ts\<rparr>) = relayed E i l0 l" "relayed E i l0 (l\<lparr>l_entry := e\<rparr>) = relayed E i l0 l"
  by (simp_all add: waiting_def asked_def relayed_def connected_def known_def)

subsection \<open>Who holds which mutex\<close>

definition in_syscall :: "pc \<Rightarrow> bool" where
  "in_syscall p \<longleftrightarrow> p \<in> {Resolving, Copying, Releasing}"

definition in_log :: "pc \<Rightarrow> bool" where
  "in_log p \<longleftrightarrow> p \<in> {Stamping, Formatting, Printing, Writing, Log_releasing}"

text \<open>Everything about one step of a thread is a case distinction on its program point.\<close>

lemma act_mutexes:
  assumes "act E i a (p, l) sh = Some ((p', l'), sh')" "\<not> fault sh'" "locks_log E i"
    and "in_syscall p = (m_syscall sh = Some i)" "in_log p = (m_logfile sh = Some i)"
  shows "in_syscall p' = (m_syscall sh' = Some i)" "in_log p' = (m_logfile sh' = Some i)"
    "j \<noteq> i \<Longrightarrow> (m_syscall sh' = Some j) = (m_syscall sh = Some j)" "j \<noteq> i \<Longrightarrow> (m_logfile sh' = Some j) = (m_logfile sh = Some j)"
  using assms by (cases p; auto simp: in_syscall_def in_log_def arrive_def socket_step_def connect_step_def Let_def
      split: option.splits if_splits sum.splits)+

text \<open>The static data change only under their mutex.\<close>

lemma act_static:
  assumes "act E i a (p, l) sh = Some (t, sh')"
  shows "hostent sh' = hostent sh \<or> in_syscall p" "static_tm sh' = static_tm sh \<or> in_log p"
  using assms by (cases p; auto simp: in_syscall_def in_log_def arrive_def socket_step_def connect_step_def Let_def
      split: option.splits if_splits sum.splits)+

lemma stage_static:
  assumes "stage E sh i l0 (p, l)" "in_syscall p \<Longrightarrow> hostent sh' = hostent sh" "in_log p \<Longrightarrow> static_tm sh' = static_tm sh"
  shows "stage E sh' i l0 (p, l)"
  using assms by (cases p) (simp_all add: in_syscall_def in_log_def)

lemma act_stage:
  assumes "stage E sh i l0 (p, l)" "act E i a (p, l) sh = Some ((p', l'), sh')" "\<not> fault sh'"
    and "l_server l0 = None" "l_entry l0 = None"
  shows "stage E sh' i l0 (p', l')"
proof (cases p)
  case Arriving
  then show ?thesis using assms by (auto simp: arrive_def split: option.splits if_splits)
next
  case Reading
  then obtain k where k: "l = l0\<lparr>l_sock := k\<rparr>" using assms(1) by auto
  show ?thesis
  proof (cases "request_part (l_detached l) (l_req l) (l_buf l) (l_client l)")
    case None
    then show ?thesis using assms(2,3) Reading by auto
  next
    case (Some r)
    show ?thesis
    proof (cases r)
      case (Inl c)
      then have "p' = Closing" "l' = l\<lparr>l_client := c\<rparr>" using Some assms(2) Reading by auto
      then show ?thesis using Some Inl k assms(4,5) by (simp add: alone_gives_up)
    next
      case (Inr x)
      then show ?thesis using Some assms(2,4,5) Reading k by (cases x) (auto simp: waiting_def asked_def)
    qed
  qed
next
  case Locking
  have "alone E i l0 l" if "waiting l0 l"
    by (rule alone_not_opened [OF that, where lk = False and fd = None]) (simp add: open_serverfd_def net_of_def)
  then show ?thesis using assms(1,2) Locking by (auto split: if_splits)
next
  case Releasing
  have "alone E i l0 l" if "waiting l0 l" "dns E (q_hostname (l_req l)) = None"
    by (rule alone_not_opened [OF that(1), where lk = True and fd = None]) (simp add: open_serverfd_def net_of_def that(2))
  then show ?thesis using assms(1,2) Releasing by (auto split: if_splits)
next
  case Opening
  then have w: "waiting l0 l" "known E l" using assms(1) by auto
  have "alone E i l0 l"
    by (rule alone_not_opened [OF w(1), where lk = True and fd = None]) (use w(2) in \<open>simp add: open_serverfd_def net_of_def\<close>)
  then show ?thesis using assms(2) Opening w by (auto simp: socket_step_def split: option.splits if_splits)
next
  case Connecting
  then have w: "waiting l0 l" "known E l" using assms(1) by auto
  show ?thesis
  proof (cases "reach E i (l_addr l) (port16 (q_port (l_req l)))")
    case None
    have "alone E i l0 l"
      by (rule alone_not_opened [OF w(1), where lk = True and fd = "Some (l_fd l)"])
        (use w(2) None in \<open>simp add: open_serverfd_def net_of_def known_def\<close>)
    moreover have "l_entry l = None" using w(1) by (simp add: waiting_def)
    ultimately show ?thesis using None assms(2) Connecting by (auto simp: connect_step_def)
  next
    case (Some c)
    then show ?thesis using assms(2) Connecting w
      by (auto simp: connect_step_def waiting_def connected_def asked_def known_def)
  qed
next
  case Relaying
  then obtain s where c: "connected E i l0 l (l_client l) s" "l_server l = Some s" "l_entry l = None" using assms(1) by auto
  show ?thesis
  proof (cases "relay_part (l_req l) (l_len l) (l_buf l) (l_client l) s")
    case None
    then show ?thesis using assms(2,3) Relaying c by auto
  next
    case (Some r)
    obtain n c' s' where r: "r = (n, c', s')" by (cases r)
    then have l': "l' = l\<lparr>l_sum := n, l_client := c', l_server := Some s'\<rparr>"
        "p' = (if n \<noteq> 0 then Log_locking else Closing_server)" using Some assms(2) Relaying c by auto
    have "relayed E i l0 l'" using c Some r unfolding relayed_def l'(1)
      by (intro exI [of _ "l_client l"] exI [of _ s] exI [of _ s']) (simp add: connected_def asked_def known_def)
    moreover have "l_entry l' = None" "l_sum l' = n" using c l'(1) by simp_all
    ultimately show ?thesis using l'(2) alone_relayed [of E i l0 l'] by simp
  qed
next
  case Formatting
  then show ?thesis using assms by (auto simp: noted_def Let_def split: if_splits)
next
  case Log_releasing
  then have "relayed E i l0 l" "noted l" using assms(1) by auto
  then have "alone E i l0 l" by (intro alone_relayed) (auto simp: noted_def)
  then show ?thesis using assms(2) Log_releasing by auto
qed (use assms in \<open>auto simp: known_def split: option.splits if_splits\<close>)

subsection \<open>The invariant of the system\<close>

lemma moveE:
  assumes "move E i a s = Some s'"
  obtains p l p' l' sh' where "i < length (threads s)" "\<not> fault (shared s)" "threads s ! i = (p, l)"
    "act E i a (p, l) (shared s) = Some ((p', l'), sh')" "s' = \<lparr>threads = (threads s)[i := (p', l')], shared = sh'\<rparr>"
  using assms by (cases "threads s ! i") (auto simp: move_def split: if_splits)

definition mutexes_ok :: "sys \<Rightarrow> bool" where
  "mutexes_ok s \<longleftrightarrow>
    (\<forall>i < length (threads s). in_syscall (fst (threads s ! i)) = (m_syscall (shared s) = Some i) \<and>
       in_log (fst (threads s ! i)) = (m_logfile (shared s) = Some i)) \<and>
    (\<forall>i. m_syscall (shared s) = Some i \<or> m_logfile (shared s) = Some i \<longrightarrow> i < length (threads s))"

definition stages_ok :: "env \<Rightarrow> locals list \<Rightarrow> sys \<Rightarrow> bool" where
  "stages_ok E ls s \<longleftrightarrow> length (threads s) = length ls \<and> (\<forall>i < length ls. stage E (shared s) i (ls ! i) (threads s ! i))"

text \<open>Data of connections that have not arrived.\<close>

definition blank :: "locals list \<Rightarrow> bool" where
  "blank ls \<longleftrightarrow> (\<forall>l\<in>set ls. l_server l = None \<and> l_entry l = None)"

lemma move_mutexes:
  assumes "move E i a s = Some s'" "mutexes_ok s" "\<not> fault (shared s')" "locks_log E i"
  shows "mutexes_ok s'"
proof -
  obtain p l p' l' sh' where m: "i < length (threads s)" "threads s ! i = (p, l)"
      "act E i a (p, l) (shared s) = Some ((p', l'), sh')" "s' = \<lparr>threads = (threads s)[i := (p', l')], shared = sh'\<rparr>"
    using assms(1) by (rule moveE)
  have h: "in_syscall p = (m_syscall (shared s) = Some i)" "in_log p = (m_logfile (shared s) = Some i)"
    using assms(2) m(1,2) unfolding mutexes_ok_def by force+
  note A = act_mutexes [OF m(3) _ assms(4) h]
  have f: "\<not> fault sh'" using assms(3) m(4) by simp
  show ?thesis
    using assms(2) m(1) A(1,2) [OF f] A(3,4) [OF f] unfolding mutexes_ok_def m(4)
    by (auto simp: nth_list_update split: if_splits) metis+
qed

lemma move_stages:
  assumes "move E i a s = Some s'" "mutexes_ok s" "stages_ok E ls s" "\<not> fault (shared s')" "blank ls"
  shows "stages_ok E ls s'"
proof -
  obtain p l p' l' sh' where m: "i < length (threads s)" "threads s ! i = (p, l)"
      "act E i a (p, l) (shared s) = Some ((p', l'), sh')" "s' = \<lparr>threads = (threads s)[i := (p', l')], shared = sh'\<rparr>"
    using assms(1) by (rule moveE)
  have n: "length (threads s) = length ls" and st: "\<And>j. j < length ls \<Longrightarrow> stage E (shared s) j (ls ! j) (threads s ! j)"
    using assms(3) by (simp_all add: stages_ok_def)
  have ex: "\<not> (in_syscall p \<and> in_syscall (fst (threads s ! j)))" "\<not> (in_log p \<and> in_log (fst (threads s ! j)))"
    if "j < length ls" "j \<noteq> i" for j
    using assms(2) m(1,2) that n unfolding mutexes_ok_def by (metis fst_conv option.inject)+
  have "stage E sh' j (ls ! j) ((threads s)[i := (p', l')] ! j)" if j: "j < length ls" for j
  proof (cases "j = i")
    case True
    have "ls ! i \<in> set ls" using m(1) n by simp
    then have "l_server (ls ! i) = None" "l_entry (ls ! i) = None" using assms(5) by (simp_all add: blank_def)
    then show ?thesis using act_stage [OF _ m(3)] st [OF j] assms(4) m True by simp
  next
    case False
    obtain q k where q: "threads s ! j = (q, k)" by fastforce
    have "stage E sh' j (ls ! j) (q, k)"
      by (rule stage_static [OF st [OF j, unfolded q]]) (use act_static [OF m(3)] ex [OF j False] q in auto)
    then show ?thesis using False q by simp
  qed
  then show ?thesis using n by (simp add: stages_ok_def m(4))
qed

lemma reached_ok:
  "reached E ls base s \<Longrightarrow> blank ls \<Longrightarrow> \<not> fault (shared s) \<Longrightarrow> \<forall>i. locks_log E i \<Longrightarrow> mutexes_ok s \<and> stages_ok E ls s"
proof (induction rule: reached.induct)
  case init
  show ?case by (simp add: start_def mutexes_ok_def stages_ok_def in_syscall_def in_log_def)
next
  case (more s s')
  from more.hyps(2) obtain i a where m: "move E i a s = Some s'" by blast
  then have "\<not> fault (shared s)" by (rule moveE)
  then show ?case using move_mutexes [OF m] move_stages [OF m] more.IH more.prems by blast
qed

text \<open>C11: a thread that has ended, in whatever order the threads took their steps, has exchanged
  with its client and with its server what \<open>process\<close> alone exchanges, has got the connection to the
  address of its own host, and has noted the line \<open>process\<close> alone notes: the mutexes keep the static
  data of \<open>gethostbyname\<close> and \<open>localtime\<close> from being overwritten by another thread in between. Locking the
  log, whose failure \<open>process\<close> would not notice, is assumed to succeed.\<close>

theorem threads_alone:
  assumes "reached E ls base s" "blank ls" "\<not> fault (shared s)" "\<forall>i. locks_log E i" "i < length ls" "threads s ! i = (Ended, l)"
  shows "\<exists>lk fd t. process (l_detached (ls ! i)) (net_of E i lk fd) (l_now l) (l_host (ls ! i)) (l_req (ls ! i)) (l_buf (ls ! i))
      (l_sock l) {} (l_client (ls ! i)) = Some t \<and>
    t_client t = l_client l \<and> t_server t = l_server l \<and> t_log t = l_entry l"
proof -
  have "stage E (shared s) i (ls ! i) (Ended, l)"
    using reached_ok [OF assms(1-4)] assms(5,6) unfolding stages_ok_def by metis
  then show ?thesis by (simp add: alone_def)
qed

subsection \<open>The log\<close>

definition written :: "pc \<times> locals \<Rightarrow> bool" where
  "written = (\<lambda>(p, l). l_entry l \<noteq> None \<and> p \<in> {Log_releasing, Closing_server, Closing, Ended})"

abbreviation entry :: "sys \<Rightarrow> nat \<Rightarrow> string" where
  "entry s i \<equiv> the (l_entry (snd (threads s ! i)))"

text \<open>The line that is on the screen but not in the stream of the log yet.\<close>

definition pending :: "sys \<Rightarrow> string" where
  "pending s = (case m_logfile (shared s) of None \<Rightarrow> []
     | Some i \<Rightarrow> if fst (threads s ! i) = Writing then entry s i @ [LF] else [])"

definition lines_ok :: "sys \<Rightarrow> nat list \<Rightarrow> bool" where
  "lines_ok s ord \<longleftrightarrow> distinct ord \<and> set ord = {i. i < length (threads s) \<and> written (threads s ! i)} \<and>
     logged (shared s) = concat (map (\<lambda>i. entry s i @ [LF]) ord) \<and> out (shared s) = logged (shared s) @ pending s"

lemma act_prints:
  assumes "act E i a (p, l) sh = Some (t, sh')"
  shows "logged sh' = logged sh @ (if p = Writing then the (l_entry l) @ [LF] else []) \<and>
    out sh' = out sh @ (if p = Printing then the (l_entry l) @ [LF] else [])"
  using assms by (cases p) (auto simp: arrive_def socket_step_def connect_step_def Let_def
      split: option.splits if_splits sum.splits)

lemma act_written:
  assumes "stage E sh i l0 (p, l)" "act E i a (p, l) sh = Some ((p', l'), sh')" "\<not> fault sh'" "l_entry l0 = None"
  shows "written (p', l') = (written (p, l) \<or> p = Writing)" "written (p, l) \<Longrightarrow> l_entry l' = l_entry l \<and> p \<noteq> Writing"
    "p = Writing \<Longrightarrow> l_entry l' = l_entry l"
    "(p' = Writing) = (p = Printing)" "p = Printing \<Longrightarrow> l' = l"
  using assms by (cases p; auto simp: written_def waiting_def noted_def arrive_def socket_step_def connect_step_def Let_def
      split: option.splits if_splits sum.splits)+

lemma pending_move:
  assumes "i < length (threads s)" "threads s ! i = (p, l)" "s' = \<lparr>threads = (threads s)[i := (p', l')], shared = sh'\<rparr>"
    and h: "in_log p = (m_logfile (shared s) = Some i)" "in_log p' = (m_logfile sh' = Some i)"
    and A: "\<And>j. j \<noteq> i \<Longrightarrow> (m_logfile sh' = Some j) = (m_logfile (shared s) = Some j)"
    and W: "(p' = Writing) = (p = Printing)" "p = Printing \<Longrightarrow> l' = l"
  shows "pending s' = (if p = Printing then the (l_entry l) @ [LF] else if p = Writing then [] else pending s)"
proof (cases "in_log p")
  case True
  then have "m_logfile (shared s) = Some i" using h(1) by simp
  then have ps: "pending s = (if p = Writing then the (l_entry l) @ [LF] else [])" using assms(2) by (simp add: pending_def)
  have "m_logfile sh' = Some i \<or> m_logfile sh' = None" using A \<open>m_logfile (shared s) = Some i\<close> by (metis not_Some_eq)
  then show ?thesis using ps assms(1,3) W h(2) by (auto simp: pending_def in_log_def)
next
  case False
  then have q: "p \<noteq> Printing" "p \<noteq> Writing" "m_logfile (shared s) \<noteq> Some i" using h(1) by (auto simp: in_log_def)
  show ?thesis
  proof (cases "m_logfile sh' = Some i")
    case True
    then have "m_logfile (shared s) = None" using A q(3) by (metis not_Some_eq)
    then show ?thesis using True q W(1) assms(1,3) by (simp add: pending_def)
  next
    case False
    then have "m_logfile sh' = m_logfile (shared s)" using A q(3) by (metis not_Some_eq)
    then show ?thesis using q assms(1,3) by (auto simp: pending_def nth_list_update split: option.split)
  qed
qed

lemma move_lines:
  assumes "move E i a s = Some s'" "mutexes_ok s" "stages_ok E ls s" "\<not> fault (shared s')" "blank ls" "lines_ok s ord" "locks_log E i"
  shows "\<exists>ord'. lines_ok s' ord'"
proof -
  obtain p l p' l' sh' where m: "i < length (threads s)" "threads s ! i = (p, l)"
      "act E i a (p, l) (shared s) = Some ((p', l'), sh')" "s' = \<lparr>threads = (threads s)[i := (p', l')], shared = sh'\<rparr>"
    using assms(1) by (rule moveE)
  have n: "length (threads s) = length ls" "stage E (shared s) i (ls ! i) (p, l)"
    using assms(3) m(1,2) unfolding stages_ok_def by (simp, metis)
  have "ls ! i \<in> set ls" using m(1) n(1) by simp
  then have e: "l_entry (ls ! i) = None" using assms(5) by (simp add: blank_def)
  have f: "\<not> fault sh'" using assms(4) m(4) by simp
  note W = act_written [OF n(2) m(3) f e] and P = act_prints [OF m(3)]
  note L = assms(6) [unfolded lines_ok_def]
  have h: "in_syscall p = (m_syscall (shared s) = Some i)" "in_log p = (m_logfile (shared s) = Some i)"
    using assms(2) m(1,2) unfolding mutexes_ok_def by force+
  note A = act_mutexes [OF m(3) f assms(7) h]
  have pend: "pending s' = (if p = Printing then the (l_entry l) @ [LF] else if p = Writing then [] else pending s)"
    by (rule pending_move [OF m(1,2,4) h(2) A(2,4) W(4,5)])
  let ?ord = "if p = Writing then ord @ [i] else ord"
  have "i \<notin> set ord" if "p = Writing" using that L m(2) by (auto simp: written_def)
  then have d: "distinct ?ord" using L by simp
  have t: "set ?ord = {j. j < length (threads s') \<and> written (threads s' ! j)}"
  proof (intro set_eqI)
    fix j
    have S: "j \<in> set ord \<longleftrightarrow> j < length (threads s) \<and> written (threads s ! j)" using L by blast
    show "j \<in> set ?ord \<longleftrightarrow> j \<in> {j. j < length (threads s') \<and> written (threads s' ! j)}"
    proof (cases "j = i")
      case True
      then show ?thesis using S W(1) m(1,2,4) by simp
    next
      case False
      then show ?thesis using S by (simp add: m(4))
    qed
  qed
  have ent: "entry s' j = entry s j" if j: "j \<in> set ord" for j
  proof (cases "j = i")
    case True
    have "written (p, l)" using j L m(2) unfolding True by force
    then have "l_entry l' = l_entry l" using W(2) by blast
    then show ?thesis using True m(1,2,4) by simp
  next
    case False
    then show ?thesis by (simp add: m(4))
  qed
  have "entry s' i = the (l_entry l)" if "p = Writing" using W(3) [OF that] m(1,4) by simp
  moreover have "map (\<lambda>i. entry s' i @ [LF]) ord = map (\<lambda>i. entry s i @ [LF]) ord" using ent by (intro map_cong refl) simp
  ultimately have g: "logged (shared s') = concat (map (\<lambda>i. entry s' i @ [LF]) ?ord)"
    unfolding map_append concat_append using L P m(4) by (cases "p = Writing") (simp_all del: map_eq_conv)
  have "out (shared s') = logged (shared s') @ pending s'"
  proof -
    consider "p = Printing" | "p = Writing" | "p \<noteq> Printing" "p \<noteq> Writing" by blast
    then show ?thesis
    proof cases
      case 1
      then have "pending s = []" using h m(2) by (auto simp: pending_def in_log_def)
      then show ?thesis using 1 L P pend m(4) by simp
    next
      case 2
      then have "pending s = the (l_entry l) @ [LF]" using h m(2) by (auto simp: pending_def in_log_def)
      then show ?thesis using 2 L P pend m(4) by simp
    next
      case 3
      then show ?thesis using L P pend m(4) by simp
    qed
  qed
  then show ?thesis using d t g unfolding lines_ok_def by blast
qed

lemma reached_lines:
  "reached E ls base s \<Longrightarrow> blank ls \<Longrightarrow> \<not> fault (shared s) \<Longrightarrow> \<forall>i. locks_log E i \<Longrightarrow> \<exists>ord. lines_ok s ord"
proof (induction rule: reached.induct)
  case init
  show ?case by (intro exI [of _ "[]"]) (auto simp: lines_ok_def logged_def start_def written_def pending_def)
next
  case (more s s')
  from more.hyps(2) obtain i a where m: "move E i a s = Some s'" by blast
  then have "\<not> fault (shared s)" by (rule moveE)
  then show ?case using move_lines [OF m] reached_ok [OF more.hyps(1)] more.IH more.prems by blast
qed

text \<open>C17: whenever no thread holds the mutex of the log, what is in the log file and what is
  still in the buffer of its stream are together what has been printed: the whole line of each thread that
  has noted one, once, in some order, and nothing else. The file alone holds the first bytes of that text,
  as many as the library has handed on; where it ends has nothing to do with the lines (\<open>log_cut\<close>), and
  what is in the buffer is lost when the program is killed, since nothing flushes it. Locking the log,
  whose failure \<open>process\<close> would not notice, is assumed to succeed.\<close>

theorem threads_log:
  assumes "reached E ls base s" "blank ls" "\<not> fault (shared s)" "\<forall>i. locks_log E i" "m_logfile (shared s) = None"
  shows "out (shared s) = log_file (shared s) @ log_buf (shared s) \<and>
    (\<exists>ord. distinct ord \<and> set ord = {i. i < length ls \<and> written (threads s ! i)} \<and>
       log_file (shared s) @ log_buf (shared s) = concat (map (\<lambda>i. the (l_entry (snd (threads s ! i))) @ [LF]) ord))"
proof -
  obtain ord where o: "lines_ok s ord" using reached_lines [OF assms(1-4)] by blast
  moreover have "length (threads s) = length ls" using reached_ok [OF assms(1-4)] by (simp add: stages_ok_def)
  ultimately show ?thesis using assms(5) unfolding lines_ok_def by (auto simp: pending_def logged_def)
qed

text \<open>A stream with a buffer of \<open>n\<close> bytes hands on whole blocks. With lines that fill more than one block
  and do not end where it ends, the file ends within a line: of 400 equal lines of 30 bytes in blocks of
  4096 it holds 273 lines and 2 bytes.\<close>

lemma log_cut:
  assumes "log_file sh = []" "log_buf sh = []" "length line = 29"
  shows "log_file (log_put 8192 (concat (replicate 400 (line @ [LF]))) sh) = concat (replicate 273 (line @ [LF])) @ take 2 line"
proof -
  have "concat (replicate 400 (line @ [LF])) = concat (replicate 273 (line @ [LF])) @ line @ [LF] @ concat (replicate 126 (line @ [LF]))"
  proof -
    have "replicate 400 (line @ [LF]) = replicate 273 (line @ [LF]) @ (line @ [LF]) # replicate 126 (line @ [LF])"
      by (simp add: replicate_app_Cons_same flip: replicate_add replicate_Suc)
    then show ?thesis by simp
  qed
  moreover have "length (concat (replicate 273 (line @ [LF]))) = 8190" using assms(3) by (simp add: length_concat sum_list_replicate)
  ultimately show ?thesis using assms by (simp add: log_put_def)
qed

subsection \<open>Descriptors\<close>

definition owned :: "pc \<times> locals \<Rightarrow> nat list" where
  "owned = (\<lambda>(p, l). (if p \<in> {Arriving, Ended} then [] else [l_sock l]) @
     (if p \<in> {Connecting, Dropping, Relaying, Log_locking, Stamping, Formatting, Printing, Writing, Log_releasing, Closing_server} then [l_fd l] else []))"

text \<open>The open descriptors are those \<open>main\<close> had and those of the threads, which are all different.\<close>

definition fds_ok :: "nat set \<Rightarrow> sys \<Rightarrow> bool" where
  "fds_ok base s \<longleftrightarrow> open_fds (shared s) = base \<union> (\<Union>t\<in>set (threads s). set (owned t)) \<and>
     (\<forall>i < length (threads s). distinct (owned (threads s ! i)) \<and> set (owned (threads s ! i)) \<inter> base = {} \<and>
        (\<forall>j < length (threads s). j \<noteq> i \<longrightarrow> set (owned (threads s ! i)) \<inter> set (owned (threads s ! j)) = {}))"

lemma owned_simps [simp]:
  "owned (Arriving, l) = []" "owned (Ended, l) = []"
  "p \<in> {Reading, Locking, Resolving, Copying, Releasing, Opening, Closing} \<Longrightarrow> owned (p, l) = [l_sock l]"
  "p \<in> {Connecting, Dropping, Relaying, Log_locking, Stamping, Formatting, Printing, Writing, Log_releasing, Closing_server} \<Longrightarrow> owned (p, l) = [l_sock l, l_fd l]"
  by (auto simp: owned_def)

lemma act_fds:
  assumes "act E i a (p, l) sh = Some (t, sh')" "\<not> fault sh'" "distinct (owned (p, l))" "set (owned (p, l)) \<subseteq> open_fds sh"
  shows "distinct (owned t)" "set (owned t) - set (owned (p, l)) = open_fds sh' - open_fds sh"
    "set (owned (p, l)) - set (owned t) = open_fds sh - open_fds sh'"
  using assms by (cases p; force simp: arrive_def socket_step_def connect_step_def Let_def split: option.splits if_splits sum.splits)+

lemma owned_sets:
  assumes "fds = base \<union> (own \<union> rest)" "own \<inter> base = {}" "own \<inter> rest = {}" "own' - own = fds' - fds" "own - own' = fds - fds'"
  shows "own' \<inter> base = {}" "own' \<inter> rest = {}" "fds' = base \<union> (own' \<union> rest)"
  using assms by blast+

lemma UN_update:
  assumes "i < length ts"
  shows "(\<Union>t\<in>set (ts[i := u]). f t) = f u \<union> (\<Union>j\<in>{..<length ts} - {i}. f (ts ! j))"
    and "(\<Union>t\<in>set ts. f t) = f (ts ! i) \<union> (\<Union>j\<in>{..<length ts} - {i}. f (ts ! j))"
proof -
  have e: "(\<Union>t\<in>set xs. f t) = f (xs ! i) \<union> (\<Union>j\<in>{..<length xs} - {i}. f (xs ! j))" if "i < length xs" for xs
  proof -
    have "(\<Union>t\<in>set xs. f t) = (\<Union>j\<in>{..<length xs}. f (xs ! j))" by (force simp: in_set_conv_nth)
    moreover have "{..<length xs} = insert i ({..<length xs} - {i})" using that by auto
    ultimately show ?thesis by (metis UN_insert)
  qed
  have "(\<Union>j\<in>{..<length ts} - {i}. f (ts[i := u] ! j)) = (\<Union>j\<in>{..<length ts} - {i}. f (ts ! j))" by auto
  then show "(\<Union>t\<in>set (ts[i := u]). f t) = f u \<union> (\<Union>j\<in>{..<length ts} - {i}. f (ts ! j))"
    using e [of "ts[i := u]"] assms by simp
  show "(\<Union>t\<in>set ts. f t) = f (ts ! i) \<union> (\<Union>j\<in>{..<length ts} - {i}. f (ts ! j))" by (rule e [OF assms])
qed

lemma move_fds:
  assumes "move E i a s = Some s'" "fds_ok base s" "\<not> fault (shared s')"
  shows "fds_ok base s'"
proof -
  obtain p l p' l' sh' where m: "i < length (threads s)" "threads s ! i = (p, l)"
      "act E i a (p, l) (shared s) = Some ((p', l'), sh')" "s' = \<lparr>threads = (threads s)[i := (p', l')], shared = sh'\<rparr>"
    using assms(1) by (rule moveE)
  let ?own = "set (owned (p, l))" and ?own' = "set (owned (p', l'))"
  let ?rest = "\<Union>j\<in>{..<length (threads s)} - {i}. set (owned (threads s ! j))"
  have F: "open_fds (shared s) = base \<union> (?own \<union> ?rest)" "distinct (owned (p, l))" "?own \<inter> base = {}" "?own \<inter> ?rest = {}"
    using assms(2) m(1,2) UN_update(2) [OF m(1), of "\<lambda>t. set (owned t)"] unfolding fds_ok_def by (simp, metis, metis, force)
  have f: "\<not> fault sh'" "?own \<subseteq> open_fds (shared s)" using assms(3) m(4) F(1) by auto
  note D = act_fds [OF m(3) f(1) F(2) f(2)]
  note A = owned_sets [OF F(1,3,4) D(2,3)]
  have "open_fds sh' = base \<union> (\<Union>t\<in>set ((threads s)[i := (p', l')]). set (owned t))"
    using A(3) UN_update(1) [OF m(1), of "\<lambda>t. set (owned t)"] by simp
  moreover have "?own' \<inter> set (owned (threads s ! j)) = {}" if "j < length (threads s)" "j \<noteq> i" for j
    using A(2) that by blast
  ultimately show ?thesis using assms(2) D(1) A(1) m(1) unfolding fds_ok_def m(4)
    by (auto simp: nth_list_update)
qed

lemma reached_fds: "reached E ls base s \<Longrightarrow> \<not> fault (shared s) \<Longrightarrow> fds_ok base s"
proof (induction rule: reached.induct)
  case init
  show ?case by (auto simp: fds_ok_def start_def owned_def)
next
  case (more s s')
  from more.hyps(2) obtain i a where m: "move E i a s = Some s'" by blast
  then have "\<not> fault (shared s)" by (rule moveE)
  then show ?case using move_fds [OF m] more.IH more.prems by blast
qed

subsection \<open>Progress\<close>

text \<open>The steps a thread has left at most.\<close>

fun rank :: "pc \<Rightarrow> nat" where
  "rank Arriving = 18" | "rank Reading = 17" | "rank Locking = 16" | "rank Resolving = 15" | "rank Copying = 14"
| "rank Releasing = 13" | "rank Opening = 12" | "rank Connecting = 11" | "rank Dropping = 10" | "rank Relaying = 9"
| "rank Log_locking = 8" | "rank Stamping = 7" | "rank Formatting = 6" | "rank Printing = 5" | "rank Writing = 4"
| "rank Log_releasing = 3" | "rank Closing_server = 2" | "rank Closing = 1" | "rank Ended = 0"

definition work :: "sys \<Rightarrow> nat" where
  "work s = (\<Sum>t\<leftarrow>threads s. rank (fst t))"

lemma act_rank: "act E i a (p, l) sh = Some ((p', l'), sh') \<Longrightarrow> rank p' < rank p"
  by (cases p; auto simp: arrive_def socket_step_def connect_step_def Let_def split: option.splits if_splits sum.splits)

lemma sum_list_update_less: "i < length xs \<Longrightarrow> f y < f (xs ! i) \<Longrightarrow> (\<Sum>x\<leftarrow>xs[i := y]. f x) < (\<Sum>x\<leftarrow>xs. (f x :: nat))"
  by (induction xs arbitrary: i) (auto simp: nth_Cons split: nat.splits)

lemma step_work: "step E s s' \<Longrightarrow> work s' < work s"
proof -
  assume "step E s s'"
  then obtain i a where "move E i a s = Some s'" by blast
  then show ?thesis by (rule moveE) (simp add: work_def act_rank sum_list_update_less)
qed

text \<open>A thread waits only for a mutex or for a descriptor.\<close>

definition any_answer :: "nat \<Rightarrow> answer" where
  "any_answer k = \<lparr>a_fd = Some k, a_time = [], a_lock = True, a_flush = 0\<rparr>"

lemma act_enabled:
  assumes "p \<noteq> Ended" "k \<notin> open_fds sh" "p = Locking \<Longrightarrow> m_syscall sh = None" "p = Log_locking \<Longrightarrow> m_logfile sh = None"
  shows "act E i (any_answer k) (p, l) sh \<noteq> None"
  using assms by (cases p; auto simp: any_answer_def arrive_def socket_step_def connect_step_def Let_def split: option.splits sum.splits)

lemma move_enabled:
  assumes "i < length (threads s)" "\<not> fault (shared s)" "act E i a (threads s ! i) (shared s) \<noteq> None"
  shows "\<exists>s'. step E s s'"
proof -
  obtain t sh where "act E i a (threads s ! i) (shared s) = Some (t, sh)" using assms(3) by auto
  then have "move E i a s = Some \<lparr>threads = (threads s)[i := t], shared = sh\<rparr>" using assms(1,2) by (simp add: move_def)
  then show ?thesis by (blast intro: step.intros)
qed

lemma some_step:
  assumes "mutexes_ok s" "\<not> fault (shared s)" "finite (open_fds (shared s))"
    and "i < length (threads s)" "fst (threads s ! i) \<noteq> Ended"
  shows "\<exists>s'. step E s s'"
proof -
  obtain k where k: "k \<notin> open_fds (shared s)" using ex_new_if_finite [OF infinite_UNIV_nat assms(3)] by blast
  have go: "\<exists>s'. step E s s'" if "j < length (threads s)" "fst (threads s ! j) \<noteq> Ended"
      "fst (threads s ! j) = Locking \<Longrightarrow> m_syscall (shared s) = None"
      "fst (threads s ! j) = Log_locking \<Longrightarrow> m_logfile (shared s) = None" for j
    using that act_enabled [OF that(2) k that(3,4), of E j "snd (threads s ! j)"]
    by (intro move_enabled [OF that(1) assms(2), where a = "any_answer k"]) simp
  consider j where "m_syscall (shared s) = Some j" | j where "m_logfile (shared s) = Some j"
    | "m_syscall (shared s) = None" "m_logfile (shared s) = None" by fastforce
  then show ?thesis
  proof cases
    case (1 j)
    then have "j < length (threads s)" "in_syscall (fst (threads s ! j))" using assms(1) unfolding mutexes_ok_def by blast+
    then show ?thesis by (intro go [of j]) (auto simp: in_syscall_def)
  next
    case (2 j)
    then have "j < length (threads s)" "in_log (fst (threads s ! j))" using assms(1) unfolding mutexes_ok_def by blast+
    then show ?thesis by (intro go [of j]) (auto simp: in_log_def)
  next
    case 3
    then show ?thesis by (intro go [OF assms(4,5)])
  qed
qed

lemma ended_all:
  assumes "mutexes_ok s" "fds_ok base s" "\<forall>t\<in>set (threads s). fst t = Ended"
  shows "open_fds (shared s) = base \<and> m_syscall (shared s) = None \<and> m_logfile (shared s) = None"
proof -
  have "owned t = []" if "t \<in> set (threads s)" for t using assms(3) that by (cases t) auto
  then have "open_fds (shared s) = base" using assms(2) by (simp add: fds_ok_def)
  moreover have "m_syscall (shared s) \<noteq> Some i" "m_logfile (shared s) \<noteq> Some i" for i
    using assms(1,3) unfolding mutexes_ok_def by (metis in_syscall_def in_log_def nth_mem insertE emptyE pc.distinct)+
  ultimately show ?thesis by (metis not_Some_eq)
qed

lemma fds_finite: "fds_ok base s \<Longrightarrow> finite base \<Longrightarrow> finite (open_fds (shared s))"
  by (simp add: fds_ok_def)

text \<open>C18: the threads never block each other for good. Every step brings the program closer to its
  end; as long as it has not crashed and a thread has not ended, some thread can take a step; and when all
  have ended both mutexes are free and the descriptors are those from before the connections. Reads and
  writes on the connections are taken to return, and locking the log to succeed.\<close>

theorem threads_progress:
  assumes "reached E ls base s" "blank ls" "finite base" "\<not> fault (shared s)" "\<forall>i. locks_log E i"
  shows "(\<forall>s'. step E s s' \<longrightarrow> work s' < work s) \<and>
    ((\<exists>t\<in>set (threads s). fst t \<noteq> Ended) \<longrightarrow> (\<exists>s'. step E s s')) \<and>
    ((\<forall>t\<in>set (threads s). fst t = Ended) \<longrightarrow>
       open_fds (shared s) = base \<and> m_syscall (shared s) = None \<and> m_logfile (shared s) = None)"
proof -
  have ok: "mutexes_ok s" "fds_ok base s" using reached_ok [OF assms(1,2,4,5)] reached_fds [OF assms(1,4)] by blast+
  have "\<exists>s'. step E s s'" if t: "t \<in> set (threads s)" "fst t \<noteq> Ended" for t
  proof -
    obtain i where "i < length (threads s)" "threads s ! i = t" using t(1) by (metis in_set_conv_nth)
    then show ?thesis using some_step [OF ok(1) assms(4) fds_finite [OF ok(2) assms(3)]] t(2) by metis
  qed
  then show ?thesis using step_work ended_all [OF ok] by blast
qed

subsection \<open>A run of two threads\<close>

lemma parts_of_process:
  assumes "process True net ts host q buf sockfd fds client = Some t" "t_server t = Some srv" "n_connect net = (\<lambda>_ _. Some s0)"
  obtains q' n b c k where "request_part True q buf client = Some (Inr (q', n, b, c))"
    "relay_part q' n b c s0 = Some (k, t_client t, srv)" "n_host net (q_hostname q')"
    "t_log t = (if k \<noteq> 0 then Some (format_log_entry ts host (q_uri q') k) else None)"
    "k \<noteq> 0 \<Longrightarrow> length (format_log_entry ts host (q_uri q') k) < MAXLINE"
proof -
  obtain r where r: "request_part True q buf client = Some r" using assms(1) unfolding process_parts by (auto simp: bind_eq_Some_conv)
  show ?thesis
  proof (cases r)
    case (Inl c)
    then show ?thesis using assms(1,2) r unfolding process_parts by auto
  next
    case (Inr x)
    obtain q' n b c where x: "x = (q', n, b, c)" by (cases x)
    obtain w fds' where o: "open_serverfd net (q_hostname q') (q_port q') fds = (w, fds')" by fastforce
    have "w \<noteq> None" using assms(1,2) r Inr x o unfolding process_parts by (cases w) auto
    then obtain fd where w: "w = Some (fd, s0)" "n_host net (q_hostname q')"
      using o assms(3) by (auto simp: open_serverfd_def Let_def split: if_splits option.splits)
    obtain k c' s where p: "relay_part q' n b c s0 = Some (k, c', s)" using assms(1) r Inr x o w unfolding process_parts
      by (auto simp: bind_eq_Some_conv)
    show ?thesis
      by (rule that [of q' n b c k]) (use assms(1,2) r Inr x o w p in \<open>auto simp: process_parts Let_def split: if_splits\<close>)
  qed
qed

definition env2 :: env where
  "env2 = \<lparr>dns = (\<lambda>h. if h = ''h'' then Some 7 else None), reach = (\<lambda>_ _ _. Some ex_server), locks_log = (\<lambda>_. True)\<rparr>"

definition locals2 :: locals where
  "locals2 = \<lparr>l_sock = 0, l_host = 2130706433, l_detached = True, l_req = ex_request, l_buf = replicate MAXLINE NUL, l_len = 0,
     l_client = ex_client, l_found = False, l_addr = 0, l_fd = 0, l_server = None, l_sum = 0, l_now = [], l_entry = None\<rparr>"

lemma parts2:
  obtains q n b c k c' s where "request_part True ex_request (replicate MAXLINE NUL) ex_client = Some (Inr (q, n, b, c))"
    "relay_part q n b c ex_server = Some (k, c', s)" "q_hostname q = ''h''" "k \<noteq> 0"
    "format_log_entry ''now'' 2130706433 (q_uri q) k = ex_entry"
proof -
  let ?net = "\<lparr>n_lock = True, n_host = (\<lambda>h. h = ''h''), n_socket = Some 5, n_connect = (\<lambda>_ _. Some ex_server)\<rparr>"
  obtain t srv where t: "process True ?net ''now'' 2130706433 ex_request (replicate MAXLINE NUL) 0 {} ex_client =
      (if length ex_entry < MAXLINE then Some t else None)" "t_server t = Some srv" "t_log t = Some ex_entry"
    by (rule process_run [OF _ ex_facts(1-3) _ _ _ ex_facts(4-6) _ _ _ _ ex_facts(7) length_replicate ex_facts(9-12) refl, where fd = 5 and net = ?net])
      (auto simp: NUL_def)
  then have p: "process True ?net ''now'' 2130706433 ex_request (replicate MAXLINE NUL) 0 {} ex_client = Some t"
    using ex_facts(8) by simp
  show ?thesis
    by (rule parts_of_process [OF p t(2)]) (use t(3) in \<open>auto intro: that split: if_splits\<close>)
qed

lemma moves_reached: "reached E ls base s \<Longrightarrow> moves E xs s = Some s' \<Longrightarrow> reached E ls base s'"
proof (induction xs arbitrary: s)
  case (Cons x xs)
  obtain i a where x: "x = (i, a)" by (cases x)
  then obtain u where "move E i a s = Some u" "moves E xs u = Some s'" using Cons.prems(2) by (auto split: option.splits)
  then show ?case using Cons.IH [of u] Cons.prems(1) reached.more step.intros by blast
qed simp

text \<open>Both threads ask for the same page; their steps alternate, and the second waits for the first where it
  has to.\<close>

definition answer2 :: "nat \<Rightarrow> answer" where
  "answer2 k = \<lparr>a_fd = Some k, a_time = ''now'', a_lock = True, a_flush = 7\<rparr>"

definition schedule :: "(nat \<times> answer) list" where
  "schedule = map (\<lambda>(i, k). (i, answer2 k)) [(0, 5), (1, 6), (1, 0), (0, 0), (0, 0), (0, 0), (0, 0), (0, 0), (1, 0), (0, 7), (0, 0), (1, 0),
     (0, 0), (1, 0), (1, 0), (1, 8), (1, 0), (1, 0), (1, 0), (1, 0), (1, 0), (1, 0), (1, 0), (1, 0),
     (0, 0), (0, 0), (0, 0), (0, 0), (0, 0), (0, 0), (0, 0), (0, 0), (1, 0), (1, 0)]"

lemma run2:
  obtains s l l' where "moves env2 schedule (start [locals2, locals2] {3, 4}) = Some s" "\<not> fault (shared s)"
    "threads s = [(Ended, l), (Ended, l')]" "l_entry l = Some ex_entry" "l_entry l' = Some ex_entry"
proof -
  obtain q n b c k c' srv where p: "request_part True ex_request (replicate MAXLINE NUL) ex_client = Some (Inr (q, n, b, c))"
      "relay_part q n b c ex_server = Some (k, c', srv)" "q_hostname q = ''h''" "k \<noteq> 0"
      "format_log_entry ''now'' 2130706433 (q_uri q) k = ex_entry"
    by (rule parts2)
  define line where "line = ex_entry"
  have e: "format_log_entry ''now'' 2130706433 (q_uri q) k = line" "\<not> MAXLINE \<le> length line"
    using p(5) ex_facts(8) by (simp_all only: line_def not_le)
  have "\<exists>s l l'. moves env2 schedule (start [locals2, locals2] {3, 4}) = Some s \<and> \<not> fault (shared s) \<and>
      threads s = [(Ended, l), (Ended, l')] \<and> l_entry l = Some line \<and> l_entry l' = Some line"
    by (simp add: schedule_def answer2_def start_def move_def locals2_def env2_def arrive_def
      socket_step_def connect_step_def log_put_def Let_def p(1-4) e insert_Diff_if)
  then show ?thesis using that unfolding line_def by blast
qed

lemma locks2: "\<forall>i. locks_log env2 i"
  by (simp add: env2_def)

lemma blank2: "blank [locals2, locals2]"
  by (simp add: blank_def locals2_def)

theorem threads_alone_witness:
  "\<exists>s l lk fd t. reached env2 [locals2, locals2] {3, 4} s \<and> threads s ! 1 = (Ended, l) \<and>
    process True (net_of env2 1 lk fd) (l_now l) 2130706433 ex_request (replicate MAXLINE NUL) (l_sock l) {} ex_client = Some t \<and>
    t_log t = Some ex_entry"
proof -
  obtain s l l' where r: "moves env2 schedule (start [locals2, locals2] {3, 4}) = Some s" "\<not> fault (shared s)"
      "threads s = [(Ended, l), (Ended, l')]" "l_entry l = Some ex_entry" "l_entry l' = Some ex_entry"
    by (rule run2)
  have R: "reached env2 [locals2, locals2] {3, 4} s" by (rule moves_reached [OF reached.init r(1)])
  have x: "1 < length [locals2, locals2]" "threads s ! 1 = (Ended, l')" "[locals2, locals2] ! 1 = locals2" using r(3) by simp_all
  have L: "l_detached locals2 = True" "l_host locals2 = 2130706433" "l_req locals2 = ex_request"
    "l_buf locals2 = replicate MAXLINE NUL" "l_client locals2 = ex_client" by (simp_all add: locals2_def)
  show ?thesis using threads_alone [OF R blank2 r(2) locks2 x(1,2)] R x(2) r(5) unfolding x(3) L by metis
qed

theorem threads_log_witness:
  "\<exists>s (ord :: nat list). reached env2 [locals2, locals2] {3, 4} s \<and> m_logfile (shared s) = None \<and>
    out (shared s) = log_file (shared s) @ log_buf (shared s) \<and> distinct ord \<and> set ord = {0, 1} \<and>
    log_file (shared s) @ log_buf (shared s) = concat (map (\<lambda>i. ex_entry @ [LF]) ord)"
proof -
  obtain s l l' where r: "moves env2 schedule (start [locals2, locals2] {3, 4}) = Some s" "\<not> fault (shared s)"
      "threads s = [(Ended, l), (Ended, l')]" "l_entry l = Some ex_entry" "l_entry l' = Some ex_entry"
    by (rule run2)
  have R: "reached env2 [locals2, locals2] {3, 4} s" by (rule moves_reached [OF reached.init r(1)])
  have m: "m_logfile (shared s) = None"
    using ended_all [OF conjunct1 [OF reached_ok [OF R blank2 r(2) locks2]] reached_fds [OF R r(2)]] r(3) by simp
  obtain ord where o: "out (shared s) = log_file (shared s) @ log_buf (shared s)" "distinct ord" "set ord = {i. i < length [locals2, locals2] \<and> written (threads s ! i)}"
      "log_file (shared s) @ log_buf (shared s) = concat (map (\<lambda>i. the (l_entry (snd (threads s ! i))) @ [LF]) ord)"
    using threads_log [OF R blank2 r(2) locks2 m] by blast
  have w: "written (threads s ! 0)" "written (threads s ! 1)" using r(3-5) by (simp_all add: written_def)
  have n: "i < length [locals2, locals2] \<longleftrightarrow> i = 0 \<or> i = 1" for i by auto
  have S: "set ord = {0, 1}" unfolding o(3) n using w by blast
  have t: "the (l_entry (snd (threads s ! 0))) = ex_entry" "the (l_entry (snd (threads s ! 1))) = ex_entry"
    unfolding r(3) using r(4,5) by (simp_all only: nth_Cons_0 nth_Cons_Suc One_nat_def snd_conv option.sel)
  have "concat (map (\<lambda>i. the (l_entry (snd (threads s ! i))) @ [LF]) ord) = concat (map (\<lambda>i. ex_entry @ [LF]) ord)"
  proof (rule arg_cong [of _ _ concat], rule map_cong [OF refl])
    fix i assume "i \<in> set ord"
    then have "i = 0 \<or> i = 1" unfolding S by simp
    then show "the (l_entry (snd (threads s ! i))) @ [LF] = ex_entry @ [LF]" by (elim disjE) (simp_all only: t)
  qed
  from trans [OF o(4) this] show ?thesis using R m o(1,2) S by (intro exI [of _ s] exI [of _ ord] conjI)
qed

theorem threads_progress_witness:
  "\<exists>s s'. reached env2 [locals2, locals2] {3, 4} s \<and> open_fds (shared s) = {3, 4} \<and>
    step env2 (start [locals2, locals2] {3, 4}) s' \<and> work s' < work (start [locals2, locals2] {3, 4})"
proof -
  obtain s l l' where r: "moves env2 schedule (start [locals2, locals2] {3, 4}) = Some s" "\<not> fault (shared s)"
      "threads s = [(Ended, l), (Ended, l')]"
    by (rule run2)
  have R: "reached env2 [locals2, locals2] {3, 4} s" by (rule moves_reached [OF reached.init r(1)])
  have f: "finite {3 :: nat, 4}" by simp
  have "open_fds (shared s) = {3, 4}" using threads_progress [OF R blank2 f r(2) locks2] r(3) by simp
  moreover have "\<not> fault (shared (start [locals2, locals2] {3, 4}))" "\<exists>t\<in>set (threads (start [locals2, locals2] {3, 4})). fst t \<noteq> Ended"
    by (simp_all add: start_def)
  then obtain s' where "step env2 (start [locals2, locals2] {3, 4}) s'" "work s' < work (start [locals2, locals2] {3, 4})"
    using threads_progress [OF reached.init blank2 f _ locks2] by blast
  ultimately show ?thesis using R by blast
qed

end
