(* ===== verification/Spec2Isabelle.thy ===== *)
theory Spec2Isabelle
  imports Show Children BtestProps MmFacts DriverProps TimingProps ShellProps ThreadsProps
begin

text \<open>
  A verification library for the programs of this repository, four programs of a systems course:
  a set of puzzles on the bits of words (\<open>src/datalab-handout\<close>), a memory allocator with the driver
  that tests it (\<open>src/malloclab-handout\<close>), a job control shell (\<open>src/shlab-handout\<close>) and a web proxy
  (\<open>src/proxylab-handout\<close>). They do not call each other; inside a program the parts are joined as
  the code joins them.

  Conventions. A C function is a HOL function of the same name over explicit state. \<open>int\<close> and
  \<open>unsigned\<close> are \<open>32 word\<close> (\<open>Base\<close> holds the C operators on them), a pointer of the allocator is
  \<open>32 word\<close> too (its Makefile says \<open>-m32\<close>). An access outside an array or through a bad pointer, and
  whatever else ends or corrupts the program, is \<open>None\<close>. A loop is a recursive function with a
  termination proof where the code's loop always ends; a recursion that ends only on a well-formed
  heap is a \<open>partial_function (option)\<close>, for which \<open>None\<close> is also the result of a call that does not
  return, and every theorem about it proves that it returns. No fuel is used anywhere.

  \<^bold>\<open>Theories and sources.\<close>

  \<^item> \<open>Base\<close>: the C operators on words, the collections of rules, lemmas on words and lists.
  \<^item> \<open>Bits\<close> (\<open>bits.c\<close>, \<open>tests.c\<close>): the integer puzzles and their references, and that they are equal
    on the arguments the puzzles allow. \<open>Floats\<close> (\<open>bits.c\<close>, \<open>fshow.c\<close>): the floating point puzzles on
    bit patterns, against the rational numbers these stand for (exact negation and doubling,
    rounding to nearest with ties to even). \<open>Ieee\<close> (\<open>tests.c\<close>): their references, with C's \<open>float\<close> as
    rounded arithmetic on magnitudes, and that the puzzles return the same patterns.
    \<open>Btest\<close> (\<open>btest.c\<close>, \<open>btest.h\<close>, \<open>decl.c\<close>): the harness, from the table of the puzzles to the score.
    \<open>BtestProps\<close>: its values lie in the stated ranges, its loops miss no combination, and it gives
    the puzzles all points. \<open>Show\<close> (\<open>ishow.c\<close>, \<open>fshow.c\<close>): the programs that display a pattern, as the
    text they print; what they print is read back as the same pattern, and the mantissa and the
    exponent make up its number.
  \<^item> \<open>Memlib\<close> (\<open>memlib.c\<close>): the simulated memory, a record of the three pointers and the bytes.
    \<open>Node\<close> (\<open>struct MM_Node\<close>, \<open>struct MM_Data\<close> of \<open>mm.c\<close>): headers with their bit fields in these
    bytes; the locale \<open>node_store\<close> is the interface by which the tree code reads and writes fields.
    \<open>RBPtr\<close>: the tree functions of \<open>mm.c\<close> on pointers, \<open>mm_cmp_node\<close> to \<open>mm_delete\<close>. \<open>Mm\<close>: the
    allocator, \<open>mm_memset\<close> to \<open>mm_realloc\<close>, and the checker \<open>mm_check\<close>.
  \<^item> \<open>RBTree\<close>: the same tree algorithms on a functional tree, with the red-black invariant, order and
    depth. \<open>TreePtr\<close>: the pointer code implements them and changes nothing else. \<open>FreeTree\<close>: the tree
    as a set of free segments; the locale \<open>free_store\<close> is what the allocator uses of it.
    \<open>Layout\<close>: the invariant of the heap (segments, neighbours, free set, tree). \<open>MmSteps\<close>, \<open>MmOps\<close>,
    \<open>MmInit\<close>, \<open>MmRealloc\<close>: the routines of \<open>mm.c\<close> on a heap that satisfies it. \<open>MmCheck\<close>: the checker
    accepts such heaps. \<open>MmSpec\<close>: the contract of malloc, free and realloc. \<open>MmFacts\<close>: initialisation,
    the tree operations as refinements, best fit, disjointness, and what happens when memory runs out.
    \<open>Client\<close>: any sequence of legal client commands as a step relation that refines a map from
    pointers to contents. \<open>MmBrk\<close>: how far each routine moves the break.
  \<^item> \<open>Mdriver\<close> (\<open>mdriver.c\<close>): the range list, the three evaluations of the package and the two of
    libc, the evaluation of a trace and the performance index, for any package of functions;
    \<open>mm_pkg\<close> is the one of \<open>Mm\<close>. \<open>Trace\<close>: the reader of trace files with a round trip.
    \<open>MdriverProps\<close>: the driver run on the allocator. \<open>Timing\<close> (\<open>clock.c\<close>, \<open>fcyc.c\<close>, \<open>ftimer.c\<close>,
    \<open>fsecs.c\<close>): the cycle counter, the K-best scheme and the timers; \<open>TimingProps\<close>: the scheme keeps the
    least samples in order, ends, and returns the least one. \<open>Driver\<close>: \<open>main\<close> of \<open>mdriver.c\<close>, from the
    command line over the loops of the trace files to the table and the index; \<open>DriverProps\<close>: the
    program linked with \<open>mm.c\<close> runs to its end on every set of well-formed trace files, and what it counts.
  \<^item> \<open>CLib\<close>: strings and \<open>getopt\<close> of the C library. \<open>Jobs\<close> (\<open>tsh.c\<close>): the job list. \<open>Shell\<close>:
    parser, signal handlers, commands, \<open>eval\<close> and \<open>main\<close> with its options and its loop; the order in which signals arrive
    is an argument: those for which a command waits are a schedule, and at every point of \<open>bg\<close>, \<open>fg\<close> and
    \<open>eval\<close> where the job list is looked at or written others may arrive. \<open>ShellProps\<close>: what the shell
    promises, and where it fails.
  \<^item> \<open>Rio\<close> (\<open>csapp.c\<close>): \<open>read\<close> and \<open>write\<close> with short counts, interruptions and errors, and the robust
    I/O package; the locale \<open>source\<close> is the contract of a reader, met by the unbuffered and by the
    buffered one. \<open>Proxy\<close> (\<open>proxy.c\<close>): a thread of the proxy, and the program that starts the threads,
    with the descriptors they open. \<open>ProxyProps\<close>: a thread is transparent and closes what it opens. \<open>Threads\<close>:
    any number of threads as a step relation over what they share, the two mutexes, the descriptors, the
    log and the static data of \<open>gethostbyname\<close> and \<open>localtime\<close>; \<open>ThreadsProps\<close>: each ends as it would
    alone, the log file and the buffer of its stream hold together whole lines, and there is no deadlock.
    A step is a piece of \<open>process\<close> between two points at which other threads can be seen; the calls of
    stdio are atomic, as POSIX has them, and reads and writes on connections return.
    \<open>Wrappers\<close> (\<open>csapp.c\<close>): the error functions and the wrappers of single system functions, over a
    record of what the system answers, with the shell's copies (\<open>tsh.c\<close>); \<open>Children\<close>: the programs the shell is
    tested with, over the same record.

  \<^bold>\<open>Outside the sources.\<close> What libc and the system do is an argument: the memory \<open>malloc\<close> returned to
  \<open>mem_init\<close>, the answers of \<open>fork\<close>, \<open>kill\<close> and \<open>waitpid\<close>, the arrivals on a descriptor, name
  resolution and connections, the results of \<open>rand\<close>, the times and counters measured. \<open>fscanf\<close>, \<open>strchr\<close>, \<open>atoi\<close>, \<open>strtol\<close>, \<open>printf\<close> are modelled
  for the formats the programs use.

  \<^bold>\<open>Bounds.\<close> The arena of \<open>memlib.c\<close> is 20 MB, as \<open>config.h\<close> says; the contracts of the allocator
  ask that a request still fits (\<open>room\<close>), since \<open>mm_sbrk\<close> does not test whether \<open>mem_sbrk\<close> failed, and that it is
  at least one byte, since the code makes a segment of one unit for a request of zero.
  The shell's properties keep the limits of 16 jobs, 128 arguments and 1024 bytes of a line, the
  proxy's keep lines within its \<open>MAXLINE\<close> and the bytes it counts within an \<open>int\<close>, the driver's keep the
  sizes of a trace's arrays within 32 bits. Beyond these limits the models have what the code does there:
  the wrapped product, the overflow or the access behind an array. Where a counter is a HOL number
  without a bound, the text at its definition says why the C type cannot overflow.

  \<^bold>\<open>Not modelled.\<close> The layout of printed tables and messages, and \<open>usage\<close> of the driver and the
    harness; the step of the shell's \<open>main\<close> that installs its handlers (\<open>Signal\<close> itself is in \<open>Wrappers\<close>);
    the drafts \<open>mm_.c\<close>, \<open>mm_miss.c\<close> and \<open>rb.c\<close>, which no Makefile builds; the branches of \<open>clock.c\<close>
    for other processors; the Perl and Python drivers; SIGPIPE in the proxy. \<open>double\<close> is exact where the driver,
    the harness and the timers use it. Errors the compiler or the processor may show beyond
    the C semantics above (stack overflow, a weak memory model between the proxy's threads) are outside the models.
\<close>

end
